(* ===== verification/Prelude.thy ===== *)
theory Prelude
  imports Main "HOL-Library.Word" "HOL-Library.List_Lexorder" "HOL-Library.Sublist"
begin

unbundle bit_operations_syntax

text \<open>
  Shared vocabulary of the development: the machine integers and byte strings of the Rust
  sources, the little-endian and big-endian integer codecs of the standard library
  (\<^verbatim>\<open>to_le_bytes\<close>, \<^verbatim>\<open>from_le_bytes\<close>, \<^verbatim>\<open>to_be_bytes\<close>), saturating arithmetic, and the facts on
  the lexicographic order of byte strings every component relies on. Rust compares
  \<^verbatim>\<open>&[u8]\<close> lexicographically, which is the order of \<^verbatim>\<open>HOL-Library.List_Lexorder\<close>.
\<close>

section \<open>Machine integers and byte strings\<close>

type_synonym u8 = "8 word"
type_synonym u16 = "16 word"
type_synonym u32 = "32 word"
type_synonym u64 = "64 word"
type_synonym bytes = "u8 list"

text \<open>Facts that evaluate the byte codecs, and facts that carry the order of encoded keys.\<close>

named_theorems codec_simps
named_theorems key_order

definition saturating_add :: "'a::len word \<Rightarrow> 'a word \<Rightarrow> 'a word" where
  "saturating_add x y = (if unat x + unat y < 2 ^ LENGTH('a) then x + y else - 1)"

definition saturating_sub :: "'a::len word \<Rightarrow> 'a word \<Rightarrow> 'a word" where
  "saturating_sub x y = (if y \<le> x then x - y else 0)"

lemma unat_saturating_sub: "unat (saturating_sub x y) = unat x - unat y"
  by (auto simp: saturating_sub_def word_le_nat_alt unat_sub_if')

lemma saturating_add_ge: "x \<le> saturating_add x y"
proof (cases "unat x + unat y < 2 ^ LENGTH('a)")
  case True
  then have "unat (x + y) = unat x + unat y"
    by (simp add: unat_add_lem [THEN iffD1])
  with True show ?thesis by (simp add: saturating_add_def word_le_nat_alt)
next
  case False
  then show ?thesis by (simp add: saturating_add_def)
qed

lemma unat_saturating_add:
  fixes x y :: "'a::len word"
  shows "unat (saturating_add x y) = min (unat x + unat y) (2 ^ LENGTH('a) - 1)"
proof (cases "unat x + unat y < 2 ^ LENGTH('a)")
  case True
  then have "unat (x + y) = unat x + unat y"
    by (simp add: unat_add_lem [THEN iffD1])
  with True show ?thesis by (simp add: saturating_add_def)
next
  case False
  then show ?thesis by (simp add: saturating_add_def unsigned_minus_1_eq_mask mask_eq_exp_minus_1)
qed

lemma unat_Suc_less:
  fixes x :: "'a::len word"
  assumes "unat x + 1 < 2 ^ LENGTH('a)"
  shows "unat (x + 1) = unat x + 1"
proof -
  have one: "unat (1 :: 'a word) = 1" by simp
  with assms have "unat x + unat (1 :: 'a word) < 2 ^ LENGTH('a)" by simp
  then have "unat (x + 1) = unat x + unat (1 :: 'a word)"
    by (simp only: unat_add_lem [THEN iffD1])
  with one show ?thesis by simp
qed

lemma unat_not_max:
  fixes x :: "'a::len word"
  assumes "x \<noteq> - 1"
  shows "unat x + 1 < 2 ^ LENGTH('a)"
proof -
  have m: "unat (- 1 :: 'a word) = 2 ^ LENGTH('a) - 1"
    by (simp add: unsigned_minus_1_eq_mask mask_eq_exp_minus_1)
  have "unat x \<noteq> 2 ^ LENGTH('a) - 1"
    using assms m by (metis word_unat_eq_iff)
  moreover have "unat x < 2 ^ LENGTH('a)" by (rule unsigned_less)
  ultimately show ?thesis by linarith
qed

lemma less_plus_one:
  fixes x :: "'a::len word"
  assumes "x \<noteq> - 1"
  shows "x < x + 1"
  using unat_Suc_less [OF unat_not_max [OF assms]] by (simp add: word_less_nat_alt)

section \<open>Integer codecs\<close>

primrec le_bytes :: "nat \<Rightarrow> nat \<Rightarrow> bytes" where
  "le_bytes 0 x = []"
| "le_bytes (Suc n) x = word_of_nat x # le_bytes n (x div 256)"

primrec le_nat :: "bytes \<Rightarrow> nat" where
  "le_nat [] = 0"
| "le_nat (b # bs) = unat b + 256 * le_nat bs"

definition be_bytes :: "nat \<Rightarrow> nat \<Rightarrow> bytes" where
  "be_bytes n x = rev (le_bytes n x)"

lemma length_le_bytes [simp]: "length (le_bytes n x) = n"
  by (induction n arbitrary: x) auto

lemma length_be_bytes [simp]: "length (be_bytes n x) = n"
  by (simp add: be_bytes_def)

lemma le_nat_le_bytes: "le_nat (le_bytes n x) = x mod 256 ^ n"
proof (induction n arbitrary: x)
  case 0
  then show ?case by simp
next
  case (Suc n)
  have "x mod 256 ^ Suc n = 256 * (x div 256 mod 256 ^ n) + x mod 256"
    using mod_mult2_eq [of x 256 "256 ^ n"] by simp
  with Suc show ?case by (simp add: unat_of_nat)
qed

lemma le_nat_le_bytes_id [simp, codec_simps]: "x < 256 ^ n \<Longrightarrow> le_nat (le_bytes n x) = x"
  by (simp add: le_nat_le_bytes)

lemma le_nat_bound: "le_nat bs < 256 ^ length bs"
proof (induction bs)
  case Nil
  then show ?case by simp
next
  case (Cons b bs)
  have "unat b < 256" using unsigned_less [of b] by simp
  with Cons show ?case by simp
qed

lemma le_bytes_le_nat: "length bs = n \<Longrightarrow> le_bytes n (le_nat bs) = bs"
proof (induction bs arbitrary: n)
  case Nil
  then show ?case by simp
next
  case (Cons b bs)
  have b: "unat b < 256" using unsigned_less [of b] by simp
  then have "(unat b + 256 * le_nat bs) div 256 = le_nat bs" by simp
  moreover have "(word_of_nat (unat b + 256 * le_nat bs) :: u8) = b"
  proof -
    have "(word_of_nat (unat b + 256 * le_nat bs) :: u8) = b + word_of_nat 256 * word_of_nat (le_nat bs)"
      by (simp only: of_nat_add of_nat_mult of_nat_unat ucast_id)
    also have "(word_of_nat 256 :: u8) = 0" by simp
    finally show ?thesis by simp
  qed
  ultimately show ?case using Cons by (cases n) auto
qed

lemma be_bytes_Suc: "be_bytes (Suc n) x = be_bytes n (x div 256) @ [word_of_nat x]"
  by (simp add: be_bytes_def)

section \<open>The lexicographic order of byte strings\<close>

lemma append_less_same [simp, key_order]:
  fixes xs :: "'a::linorder list"
  shows "xs @ ys < xs @ zs \<longleftrightarrow> ys < zs"
  by (induction xs) auto

lemma append_le_same [simp, key_order]:
  fixes xs :: "'a::linorder list"
  shows "xs @ ys \<le> xs @ zs \<longleftrightarrow> ys \<le> zs"
  by (induction xs) auto

lemma le_append [simp, key_order]:
  fixes xs :: "'a::linorder list"
  shows "xs \<le> xs @ ys"
  by (induction xs) auto

lemma prefix_le:
  fixes xs :: "'a::linorder list"
  shows "prefix xs ys \<Longrightarrow> xs \<le> ys"
  by (auto elim: prefixE)

lemma less_append_cong:
  fixes xs :: "'a::linorder list"
  assumes "length xs = length ys"
  shows "xs @ us < ys @ vs \<longleftrightarrow> xs < ys \<or> xs = ys \<and> us < vs"
  using assms
proof (induction xs arbitrary: ys)
  case Nil
  then show ?case by simp
next
  case (Cons x xs)
  then obtain y ys' where ys: "ys = y # ys'" and "length xs = length ys'"
    by (cases ys) auto
  with Cons.IH [of ys'] show ?case by auto
qed

text \<open>
  A string that is smaller without being a prefix stays smaller whatever is appended: the
  property that makes prefix-free encodings order-preserving inside composite keys.
\<close>

lemma less_append_not_prefix:
  fixes xs :: "'a::linorder list"
  shows "xs < ys \<Longrightarrow> \<not> prefix xs ys \<Longrightarrow> xs @ us < ys @ vs"
proof (induction xs arbitrary: ys)
  case Nil
  then show ?case by simp
next
  case (Cons x xs)
  then obtain y ys' where "ys = y # ys'" by (cases ys) auto
  with Cons show ?case by auto
qed

lemma less_successor:
  fixes k :: bytes
  shows "k < k' \<Longrightarrow> k' < k @ [0] \<Longrightarrow> False"
proof (induction k arbitrary: k')
  case Nil
  then show ?case by (cases k') auto
next
  case (Cons b k)
  then show ?case by (cases k') auto
qed

lemma le_successor_iff:
  fixes k :: bytes
  shows "k \<le> k' \<and> k' < k @ [0] \<longleftrightarrow> k' = k"
proof
  assume "k \<le> k' \<and> k' < k @ [0]"
  then show "k' = k" using less_successor [of k k'] by (auto simp: le_less)
next
  assume "k' = k"
  moreover have "k @ [] < k @ [0]" by (simp only: append_less_same) simp
  ultimately show "k \<le> k' \<and> k' < k @ [0]" by simp
qed

lemma div_mod_less_iff:
  assumes "0 < d"
  shows "(x::nat) < y \<longleftrightarrow> x div d < y div d \<or> x div d = y div d \<and> x mod d < y mod d"
proof (cases "x div d = y div d")
  case True
  have "d * (x div d) + x mod d = x" "d * (y div d) + y mod d = y" by simp_all
  with True have "x < y \<longleftrightarrow> x mod d < y mod d" by (metis nat_add_left_cancel_less)
  with True show ?thesis by simp
next
  case False
  with div_le_mono [of x y d] div_le_mono [of y x d] show ?thesis by linarith
qed

text \<open>Big-endian encodings compare like the numbers they encode.\<close>

lemma be_bytes_inject:
  assumes "x < 256 ^ n" and "y < 256 ^ n"
  shows "be_bytes n x = be_bytes n y \<longleftrightarrow> x = y"
proof
  assume "be_bytes n x = be_bytes n y"
  then have "le_bytes n x = le_bytes n y" by (simp add: be_bytes_def)
  then have "le_nat (le_bytes n x) = le_nat (le_bytes n y)" by simp
  with assms show "x = y" by simp
qed simp

lemma be_bytes_less:
  assumes "x < 256 ^ n" and "y < 256 ^ n"
  shows "be_bytes n x < be_bytes n y \<longleftrightarrow> x < y"
  using assms
proof (induction n arbitrary: x y)
  case 0
  then show ?case by simp
next
  case (Suc n)
  from Suc.prems have bnd: "x div 256 < 256 ^ n" "y div 256 < 256 ^ n"
    by (simp_all add: div_less_iff_less_mult mult.commute)
  have low: "word_of_nat x < (word_of_nat y :: u8) \<longleftrightarrow> x mod 256 < y mod 256"
    by (simp add: word_less_nat_alt unat_of_nat)
  have "x < y \<longleftrightarrow> x div 256 < y div 256 \<or> x div 256 = y div 256 \<and> x mod 256 < y mod 256"
    by (rule div_mod_less_iff) simp
  moreover have "be_bytes (Suc n) x < be_bytes (Suc n) y \<longleftrightarrow>
      be_bytes n (x div 256) < be_bytes n (y div 256) \<or>
      be_bytes n (x div 256) = be_bytes n (y div 256) \<and> x mod 256 < y mod 256"
    by (simp add: be_bytes_Suc less_append_cong low)
  ultimately show ?case using Suc.IH [OF bnd] be_bytes_inject [OF bnd] by simp
qed

section \<open>Orderings\<close>

text \<open>\<^verbatim>\<open>std::cmp::Ordering\<close> with \<^verbatim>\<open>cmp\<close>, \<^verbatim>\<open>then_with\<close> and \<^verbatim>\<open>reverse\<close>.\<close>

datatype Ordering = Less | Equal | Greater

definition cmp :: "'a::linorder \<Rightarrow> 'a \<Rightarrow> Ordering" where
  "cmp a b = (if a < b then Less else if a = b then Equal else Greater)"

fun then_with :: "Ordering \<Rightarrow> Ordering \<Rightarrow> Ordering" where
  "then_with Equal o2 = o2"
| "then_with o1 o2 = o1"

fun reverse :: "Ordering \<Rightarrow> Ordering" where
  "reverse Less = Greater"
| "reverse Equal = Equal"
| "reverse Greater = Less"

lemma cmp_iff [simp]:
  "cmp a b = Less \<longleftrightarrow> a < b" "cmp a b = Equal \<longleftrightarrow> a = b" "cmp a b = Greater \<longleftrightarrow> b < a"
  by (auto simp: cmp_def)

lemma cmp_eqI: "(a < b \<longleftrightarrow> c < d) \<Longrightarrow> (b < a \<longleftrightarrow> d < c) \<Longrightarrow> cmp a b = cmp c d"
  by (auto simp: cmp_def)

lemma reverse_cmp [simp]: "reverse (cmp a b) = cmp b a"
  by (auto simp: cmp_def)

lemma then_with_Equal [simp]: "then_with o1 Equal = o1"
  by (cases o1) simp_all

end
