(* ===== verification/Ordered_Map.thy ===== *)
theory Ordered_Map
  imports Prelude
begin

text \<open>
  The standard library's \<^verbatim>\<open>BTreeMap\<close>, which holds every piece of ordered state in the sources
  (the engine's data, version histories, the read-timestamp cache, Raft's peer tables): an
  association list with strictly increasing keys, so iteration order is the list's order. The
  locale \<open>btree\<close> is the contract the clients use, and the map's operations discharge it.
\<close>

section \<open>Representation and operations\<close>

type_synonym ('k, 'v) bmap = "('k \<times> 'v) list"

fun bm_get :: "('k::linorder, 'v) bmap \<Rightarrow> 'k \<Rightarrow> 'v option" where
  "bm_get [] k = None"
| "bm_get ((k', v) # m) k = (if k = k' then Some v else bm_get m k)"

fun bm_insert :: "'k::linorder \<Rightarrow> 'v \<Rightarrow> ('k, 'v) bmap \<Rightarrow> ('k, 'v) bmap" where
  "bm_insert k v [] = [(k, v)]"
| "bm_insert k v ((k', v') # m) =
     (if k < k' then (k, v) # (k', v') # m
      else if k = k' then (k, v) # m
      else (k', v') # bm_insert k v m)"

fun bm_remove :: "'k::linorder \<Rightarrow> ('k, 'v) bmap \<Rightarrow> ('k, 'v) bmap" where
  "bm_remove k [] = []"
| "bm_remove k ((k', v') # m) = (if k = k' then m else (k', v') # bm_remove k m)"

definition bm_contains :: "('k::linorder, 'v) bmap \<Rightarrow> 'k \<Rightarrow> bool" where
  "bm_contains m k \<longleftrightarrow> bm_get m k \<noteq> None"

text \<open>\<^verbatim>\<open>range(..=hi)\<close>, \<^verbatim>\<open>range(lo..hi)\<close> and the iterator's \<^verbatim>\<open>next_back\<close>.\<close>

definition bm_range_to :: "('k::linorder, 'v) bmap \<Rightarrow> 'k \<Rightarrow> ('k, 'v) bmap" where
  "bm_range_to m hi = filter (\<lambda>(k, v). k \<le> hi) m"

definition bm_range :: "('k::linorder, 'v) bmap \<Rightarrow> 'k \<Rightarrow> 'k \<Rightarrow> ('k, 'v) bmap" where
  "bm_range m lo hi = filter (\<lambda>(k, v). lo \<le> k \<and> k < hi) m"

definition next_back :: "'a list \<Rightarrow> 'a option" where
  "next_back xs = (if xs = [] then None else Some (last xs))"

definition bm_ok :: "('k::linorder, 'v) bmap \<Rightarrow> bool" where
  "bm_ok m \<longleftrightarrow> sorted_wrt (<) (map fst m)"

section \<open>The contract\<close>

locale btree =
  fixes empty :: "'m"
    and get :: "'m \<Rightarrow> 'k::linorder \<Rightarrow> 'v option"
    and insert :: "'k \<Rightarrow> 'v \<Rightarrow> 'm \<Rightarrow> 'm"
    and remove :: "'k \<Rightarrow> 'm \<Rightarrow> 'm"
    and entries :: "'m \<Rightarrow> ('k \<times> 'v) list"
    and ok :: "'m \<Rightarrow> bool"
  assumes ok_empty: "ok empty"
    and ok_insert: "ok m \<Longrightarrow> ok (insert k v m)"
    and ok_remove: "ok m \<Longrightarrow> ok (remove k m)"
    and get_empty: "get empty k = None"
    and get_insert: "ok m \<Longrightarrow> get (insert k v m) k' = (if k' = k then Some v else get m k')"
    and get_remove: "ok m \<Longrightarrow> get (remove k m) k' = (if k' = k then None else get m k')"
    and entries_sorted: "ok m \<Longrightarrow> sorted_wrt (<) (map fst (entries m))"
    and entries_get: "ok m \<Longrightarrow> (k, v) \<in> set (entries m) \<longleftrightarrow> get m k = Some v"
begin

text \<open>What a map returns determines the order it is iterated in.\<close>

lemma entries_determined:
  assumes "ok m" and "ok m'" and "\<And>k. get m k = get m' k"
  shows "entries m = entries m'"
proof -
  have set_eq: "set (entries m) = set (entries m')"
    using assms by (auto simp: entries_get)
  have keys: "map fst (entries m) = map fst (entries m')"
  proof (rule sorted_distinct_set_unique)
    show "sorted (map fst (entries m))" "distinct (map fst (entries m))"
      using entries_sorted [OF assms(1)] by (simp_all add: strict_sorted_iff)
    show "sorted (map fst (entries m'))" "distinct (map fst (entries m'))"
      using entries_sorted [OF assms(2)] by (simp_all add: strict_sorted_iff)
    show "set (map fst (entries m)) = set (map fst (entries m'))"
      using set_eq by simp
  qed
  have "distinct (map fst (entries m'))"
    using entries_sorted [OF assms(2)] by (simp add: strict_sorted_iff)
  show ?thesis
  proof (rule nth_equalityI)
    show len: "length (entries m) = length (entries m')"
      using keys map_eq_imp_length_eq by blast
    fix i
    assume i: "i < length (entries m)"
    obtain k v where e: "entries m ! i = (k, v)" by fastforce
    obtain k' v' where e': "entries m' ! i = (k', v')" by fastforce
    have "k = k'"
      using keys i len e e' nth_map [of i "entries m" fst] nth_map [of i "entries m'" fst] by simp
    moreover have "get m k = Some v"
      using e i assms(1) by (metis entries_get nth_mem)
    moreover have "get m' k' = Some v'"
      using e' i len assms(2) by (metis entries_get nth_mem)
    ultimately show "entries m ! i = entries m' ! i"
      using e e' assms(3) by simp
  qed
qed

lemma insert_overwrites: "ok m \<Longrightarrow> entries (insert k w (insert k v m)) = entries (insert k w m)"
  by (rule entries_determined) (auto simp: ok_insert get_insert)

lemma insert_commutes:
  "ok m \<Longrightarrow> k \<noteq> k' \<Longrightarrow> entries (insert k v (insert k' v' m)) = entries (insert k' v' (insert k v m))"
  by (rule entries_determined) (auto simp: ok_insert get_insert)

end

section \<open>The operations keep the contract\<close>

lemma bm_ok_Nil [simp]: "bm_ok []"
  by (simp add: bm_ok_def)

lemma bm_ok_Cons: "bm_ok ((k, v) # m) \<longleftrightarrow> bm_ok m \<and> (\<forall>k' \<in> fst ` set m. k < k')"
  by (auto simp: bm_ok_def)

lemma bm_get_None_notin: "k \<notin> fst ` set m \<Longrightarrow> bm_get m k = None"
  by (induction m k rule: bm_get.induct) auto

lemma bm_get_head: "bm_ok ((k, v) # m) \<Longrightarrow> bm_get m k = None"
  by (rule bm_get_None_notin) (auto simp: bm_ok_Cons)

lemma bm_get_mem: "bm_ok m \<Longrightarrow> (k, v) \<in> set m \<longleftrightarrow> bm_get m k = Some v"
proof (induction m k rule: bm_get.induct)
  case (1 k)
  then show ?case by simp
next
  case (2 k' v' m k)
  then show ?case by (force simp: bm_ok_Cons)
qed

lemma keys_bm_insert: "fst ` set (bm_insert k v m) = insert k (fst ` set m)"
  by (induction k v m rule: bm_insert.induct) auto

lemma bm_ok_insert [simp]: "bm_ok m \<Longrightarrow> bm_ok (bm_insert k v m)"
proof (induction k v m rule: bm_insert.induct)
  case (1 k v)
  then show ?case by (simp add: bm_ok_Cons)
next
  case (2 k v k' v' m)
  then show ?case by (auto simp: bm_ok_Cons keys_bm_insert)
qed

lemma bm_get_insert [simp]: "bm_get (bm_insert k v m) k' = (if k' = k then Some v else bm_get m k')"
  by (induction k v m rule: bm_insert.induct) auto

lemma keys_bm_remove: "fst ` set (bm_remove k m) \<subseteq> fst ` set m"
  by (induction k m rule: bm_remove.induct) auto

lemma bm_ok_remove [simp]: "bm_ok m \<Longrightarrow> bm_ok (bm_remove k m)"
proof (induction k m rule: bm_remove.induct)
  case (1 k)
  then show ?case by simp
next
  case (2 k k' v' m)
  then show ?case using keys_bm_remove [of k m] by (fastforce simp: bm_ok_Cons)
qed

lemma bm_get_remove [simp]:
  "bm_ok m \<Longrightarrow> bm_get (bm_remove k m) k' = (if k' = k then None else bm_get m k')"
proof (induction k m rule: bm_remove.induct)
  case (1 k)
  then show ?case by simp
next
  case (2 k k0 v0 m)
  then show ?case using bm_get_head [of k0 v0 m] by (auto simp: bm_ok_Cons)
qed

interpretation bm: btree "[]" bm_get bm_insert bm_remove "\<lambda>m. m" bm_ok
  by unfold_locales (simp_all add: bm_get_mem, simp add: bm_ok_def)

lemma bm_ok_filter [simp]: "bm_ok m \<Longrightarrow> bm_ok (filter P m)"
  by (auto simp: bm_ok_def sorted_wrt_filter sorted_wrt_map)

lemma bm_ok_distinct: "bm_ok m \<Longrightarrow> distinct (map fst m)"
  by (simp add: bm_ok_def strict_sorted_iff)

lemma bm_ok_range [simp]: "bm_ok m \<Longrightarrow> bm_ok (bm_range m lo hi)"
  by (simp add: bm_range_def)

lemma bm_get_filter:
  "bm_ok m \<Longrightarrow> bm_get (filter P m) k =
     (case bm_get m k of None \<Rightarrow> None | Some v \<Rightarrow> if P (k, v) then Some v else None)"
proof (induction m)
  case Nil
  then show ?case by simp
next
  case (Cons e m)
  obtain k' v where e: "e = (k', v)" by fastforce
  from Cons e have "k = k' \<Longrightarrow> bm_get m k = None" using bm_get_head [of k' v m] by simp
  with Cons e show ?case by (auto simp: bm_ok_Cons)
qed

lemma bm_get_range:
  "bm_ok m \<Longrightarrow> bm_get (bm_range m lo hi) k = (if lo \<le> k \<and> k < hi then bm_get m k else None)"
  by (simp add: bm_range_def bm_get_filter split: option.splits)

text \<open>
  The back end of \<^verbatim>\<open>range(..=hi)\<close> is the entry with the greatest key not above \<open>hi\<close>.
\<close>

lemma last_greatest:
  assumes "bm_ok m" and "m \<noteq> []" and "(k, v) \<in> set m"
  shows "k \<le> fst (last m)"
  using assms
proof (induction m)
  case Nil
  then show ?case by simp
next
  case (Cons e m)
  obtain k0 v0 where e: "e = (k0, v0)" by fastforce
  show ?case
  proof (cases "m = []")
    case True
    with Cons e show ?thesis by auto
  next
    case False
    then have "last m \<in> set m" by simp
    with Cons.prems(1) e have "k0 < fst (last m)" by (auto simp: bm_ok_Cons)
    with Cons e False show ?thesis by (auto simp: bm_ok_Cons less_imp_le)
  qed
qed

lemma next_back_range_to_Some:
  assumes "bm_ok m"
  shows "next_back (bm_range_to m hi) = Some (k, v) \<longleftrightarrow>
    bm_get m k = Some v \<and> k \<le> hi \<and> (\<forall>k' v'. bm_get m k' = Some v' \<longrightarrow> k' \<le> hi \<longrightarrow> k' \<le> k)"
    (is "?L \<longleftrightarrow> ?R")
proof -
  let ?r = "bm_range_to m hi"
  have ok: "bm_ok ?r" using assms by (simp add: bm_range_to_def)
  have mem: "(k, v) \<in> set ?r \<longleftrightarrow> bm_get m k = Some v \<and> k \<le> hi" for k v
    using assms by (auto simp: bm_range_to_def bm_get_mem)
  show ?thesis
  proof
    assume ?L
    then have ne: "?r \<noteq> []" and l: "last ?r = (k, v)"
      by (auto simp: next_back_def split: if_splits)
    then have "(k, v) \<in> set ?r" by (metis last_in_set)
    with last_greatest [OF ok ne] l mem show ?R by fastforce
  next
    assume R: ?R
    then have in_r: "(k, v) \<in> set ?r" by (simp add: mem)
    then have ne: "?r \<noteq> []" by auto
    obtain k1 v1 where l: "last ?r = (k1, v1)" by fastforce
    then have in1: "(k1, v1) \<in> set ?r" using ne by (metis last_in_set)
    then have "k1 \<le> k" using R mem by blast
    moreover have "k \<le> k1" using last_greatest [OF ok ne in_r] l by simp
    ultimately have "k1 = k" by simp
    with in1 R mem have "v1 = v" by fastforce
    with l ne \<open>k1 = k\<close> show ?L by (simp add: next_back_def)
  qed
qed

lemma next_back_range_to_None:
  assumes "bm_ok m"
  shows "next_back (bm_range_to m hi) = None \<longleftrightarrow> (\<forall>k v. bm_get m k = Some v \<longrightarrow> hi < k)"
  using assms by (auto simp: next_back_def bm_range_to_def filter_empty_conv simp flip: bm_get_mem)

lemma next_back_keys_Some:
  assumes "bm_ok m"
  shows "next_back m = Some (k, v) \<longleftrightarrow>
    bm_get m k = Some v \<and> (\<forall>k' v'. bm_get m k' = Some v' \<longrightarrow> k' \<le> k)"
proof (cases "m = []")
  case True
  then show ?thesis by (simp add: next_back_def)
next
  case False
  obtain k1 v1 where l: "last m = (k1, v1)" by fastforce
  with False have g1: "bm_get m k1 = Some v1" using assms by (metis bm_get_mem last_in_set)
  have "k' \<le> k1" if "bm_get m k' = Some v'" for k' v'
    using last_greatest [OF assms False, of k' v'] that l assms by (simp add: bm_get_mem)
  with g1 False l show ?thesis by (fastforce simp: next_back_def)
qed

lemma set_bm_insert: "set (bm_insert k v m) \<subseteq> insert (k, v) (set m)"
  by (induction k v m rule: bm_insert.induct) (auto split: if_splits)

lemma set_bm_remove: "set (bm_remove k m) \<subseteq> set m"
  by (induction k m rule: bm_remove.induct) (auto split: if_splits)

lemma bm_get_in_set: "bm_get m k = Some v \<Longrightarrow> (k, v) \<in> set m"
  by (induction m k rule: bm_get.induct) (auto split: if_splits)

end
