(* ===== verification/Keyspace.thy ===== *)
theory Keyspace
  imports Prelude "HOL-Library.Char_ord"
begin

unbundle bit_operations_syntax

text \<open>
  The tablet model and the per-table key layout (\<^verbatim>\<open>crates/animus-tablet/src/lib.rs\<close>): the
  partition token (the first half of MurmurHash3 x64/128), the order-preserving prefix-free
  escape of key components, half-open key ranges with their split, and tablets with their
  normalised replica sets and placement epochs.
\<close>

section \<open>MurmurHash3 and the partition token\<close>

definition C1 :: u64 where "C1 = 0x87c37b91114253d5"

definition C2 :: u64 where "C2 = 0x4cf5ad432745937f"

definition mix_k1 :: "u64 \<Rightarrow> u64" where
  "mix_k1 k1 = word_rotl 31 (k1 * C1) * C2"

definition mix_k2 :: "u64 \<Rightarrow> u64" where
  "mix_k2 k2 = word_rotl 33 (k2 * C2) * C1"

definition from_le_u64 :: "bytes \<Rightarrow> u64" where
  "from_le_u64 bs = word_of_nat (le_nat bs)"

text \<open>The loop over the 16-byte blocks; the rest is what \<^verbatim>\<open>chunks_exact\<close> leaves as remainder.\<close>

function murmur3_blocks :: "u64 \<Rightarrow> u64 \<Rightarrow> bytes \<Rightarrow> u64 \<times> u64 \<times> bytes" where
  "murmur3_blocks h1 h2 data =
     (if length data < 16 then (h1, h2, data)
      else
        let k1 = mix_k1 (from_le_u64 (take 8 data));
            k2 = mix_k2 (from_le_u64 (take 8 (drop 8 data)));
            h1 = (word_rotl 27 (h1 XOR k1) + h2) * 5 + 0x52dce729;
            h2 = (word_rotl 31 (h2 XOR k2) + h1) * 5 + 0x38495ab5
        in murmur3_blocks h1 h2 (drop 16 data))"
  by pat_completeness auto
termination
  by (relation "measure (\<lambda>(h1, h2, data). length data)") auto

declare murmur3_blocks.simps [simp del]

definition tail_word :: "bytes \<Rightarrow> u64" where
  "tail_word bs = fold (\<lambda>(i, b) k. k XOR push_bit (8 * i) (ucast b)) (enumerate 0 bs) 0"

definition fmix64 :: "u64 \<Rightarrow> u64" where
  "fmix64 k =
     (let k = k XOR drop_bit 33 k;
          k = k * 0xff51afd7ed558ccd;
          k = k XOR drop_bit 33 k;
          k = k * 0xc4ceb9fe1a85ec53
      in k XOR drop_bit 33 k)"

definition murmur3_x64_128 :: "bytes \<Rightarrow> u32 \<Rightarrow> u64 \<times> u64" where
  "murmur3_x64_128 data seed =
     (let (h1, h2, tail) = murmur3_blocks (ucast seed) (ucast seed) data;
          h2 = (if length tail > 8 then h2 XOR mix_k2 (tail_word (drop 8 tail)) else h2);
          h1 = (if tail \<noteq> [] then h1 XOR mix_k1 (tail_word (take 8 tail)) else h1);
          h1 = h1 XOR word_of_nat (length data);
          h2 = h2 XOR word_of_nat (length data);
          h1 = h1 + h2;
          h2 = h2 + h1;
          h1 = fmix64 h1;
          h2 = fmix64 h2;
          h1 = h1 + h2;
          h2 = h2 + h1
      in (h1, h2))"

definition TOKEN_BYTES :: nat where "TOKEN_BYTES = 8"

definition partition_token :: "bytes \<Rightarrow> bytes" where
  "partition_token partition_key =
     be_bytes TOKEN_BYTES (unat (fst (murmur3_x64_128 partition_key 0)))"

section \<open>The order-preserving escape\<close>

fun escape_body :: "bytes \<Rightarrow> bytes" where
  "escape_body [] = []"
| "escape_body (b # bs) = (if b = 0 then [b, 1] else [b]) @ escape_body bs"

definition escape :: "bytes \<Rightarrow> bytes" where
  "escape bs = escape_body bs @ [0, 0]"

section \<open>Tablet identities, epochs and ranges\<close>

datatype TabletId = TabletId u64

datatype Epoch = Epoch u64

definition INITIAL :: Epoch where "INITIAL = Epoch 1"

fun epoch_next :: "Epoch \<Rightarrow> Epoch" where
  "epoch_next (Epoch e) = Epoch (e + 1)"

type_synonym NodeId = string
type_synonym TableName = string

record KeyRange =
  range_start :: bytes
  range_end :: "bytes option"

definition whole :: KeyRange where
  "whole = \<lparr>range_start = [], range_end = None\<rparr>"

definition range_new :: "bytes \<Rightarrow> bytes option \<Rightarrow> KeyRange" where
  "range_new s e = \<lparr>range_start = s, range_end = e\<rparr>"

definition range_contains :: "KeyRange \<Rightarrow> bytes \<Rightarrow> bool" where
  "range_contains r key \<longleftrightarrow>
     range_start r \<le> key \<and> (case range_end r of None \<Rightarrow> True | Some e \<Rightarrow> key < e)"

definition contains_range :: "KeyRange \<Rightarrow> KeyRange \<Rightarrow> bool" where
  "contains_range self other \<longleftrightarrow>
     (if range_start other < range_start self then False
      else case (range_end other, range_end self) of
          (_, None) \<Rightarrow> True
        | (None, Some _) \<Rightarrow> False
        | (Some inner_end, Some outer_end) \<Rightarrow> inner_end \<le> outer_end)"

definition split_at :: "KeyRange \<Rightarrow> bytes \<Rightarrow> (KeyRange \<times> KeyRange) option" where
  "split_at r at =
     (if at \<le> range_start r then None
      else if (case range_end r of Some e \<Rightarrow> e \<le> at | None \<Rightarrow> False) then None
      else Some (\<lparr>range_start = range_start r, range_end = Some at\<rparr>,
                 \<lparr>range_start = at, range_end = range_end r\<rparr>))"

section \<open>Tablets\<close>

record SplitChild =
  child_id :: TabletId
  child_replicas :: "NodeId list"

record InPlaceSplitIntent =
  split_key :: bytes
  split_children :: "SplitChild \<times> SplitChild"

datatype TabletState = Active | Building | Splitting

record Tablet =
  tablet_id :: TabletId
  tablet_table :: "TableName option"
  tablet_range :: KeyRange
  tablet_replicas :: "NodeId list"
  tablet_epoch :: Epoch
  tablet_state :: TabletState
  inplace_split :: "InPlaceSplitIntent option"
  settled_epoch :: "Epoch option"

definition with_table :: "TabletId \<Rightarrow> TableName option \<Rightarrow> KeyRange \<Rightarrow> NodeId list \<Rightarrow> Tablet" where
  "with_table i tbl rng rs =
     \<lparr>tablet_id = i, tablet_table = tbl, tablet_range = rng,
      tablet_replicas = remdups_adj (sort rs), tablet_epoch = INITIAL,
      tablet_state = Active, inplace_split = None, settled_epoch = None\<rparr>"

definition tablet_new :: "TabletId \<Rightarrow> KeyRange \<Rightarrow> NodeId list \<Rightarrow> Tablet" where
  "tablet_new i rng rs = with_table i None rng rs"

definition new_for_table :: "TabletId \<Rightarrow> TableName \<Rightarrow> KeyRange \<Rightarrow> NodeId list \<Rightarrow> Tablet" where
  "new_for_table i tbl rng rs = with_table i (Some tbl) rng rs"

definition is_routable :: "Tablet \<Rightarrow> bool" where
  "is_routable t \<longleftrightarrow> tablet_state t \<noteq> Building"

definition serves_table :: "Tablet \<Rightarrow> TableName \<Rightarrow> bool" where
  "serves_table t table = (case tablet_table t of Some n \<Rightarrow> n = table | None \<Rightarrow> True)"

text \<open>
  \<^verbatim>\<open>slice::binary_search\<close>: halve the window \<open>[base, base + sz)\<close> until one element is left, keeping
  the upper half whenever its first element is not above the target.
\<close>

function bsearch_base :: "'a::linorder list \<Rightarrow> 'a \<Rightarrow> nat \<Rightarrow> nat \<Rightarrow> nat" where
  "bsearch_base xs x base sz =
     (if sz \<le> 1 then base
      else let half = sz div 2; mid = base + half
           in bsearch_base xs x (if x < xs ! mid then base else mid) (sz - half))"
  by pat_completeness auto
termination
  by (relation "measure (\<lambda>(xs, x, base, sz). sz)") auto

declare bsearch_base.simps [simp del]

definition binary_search_is_ok :: "'a::linorder list \<Rightarrow> 'a \<Rightarrow> bool" where
  "binary_search_is_ok xs x \<longleftrightarrow>
     (if xs = [] then False else xs ! bsearch_base xs x 0 (length xs) = x)"

definition has_replica :: "Tablet \<Rightarrow> NodeId \<Rightarrow> bool" where
  "has_replica t node \<longleftrightarrow> binary_search_is_ok (tablet_replicas t) node"

section \<open>The escape is prefix-free and order-preserving\<close>

lemma escape_Nil [simp, key_order]: "escape [] = [0, 0]"
  by (simp add: escape_def)

lemma escape_Cons [simp, key_order]:
  "escape (b # bs) = (if b = 0 then 0 # 1 # escape bs else b # escape bs)"
  by (simp add: escape_def)

lemma escape_append_inject: "escape a @ x = escape b @ y \<longleftrightarrow> a = b \<and> x = y"
proof (induction a arbitrary: b)
  case Nil
  then show ?case by (cases b) auto
next
  case (Cons c a)
  then show ?case by (cases b) auto
qed

lemma escape_append_less: "a < b \<Longrightarrow> escape a @ x < escape b @ y"
proof (induction a arbitrary: b)
  case Nil
  then show ?case by (cases b) (auto simp: word_neq_0_conv)
next
  case (Cons c a)
  then show ?case by (cases b) (auto simp: word_neq_0_conv)
qed

lemma escape_prefix: "prefix (escape a) (escape b @ y) \<Longrightarrow> a = b"
  by (metis escape_append_inject prefixE)

section \<open>Ranges\<close>

lemma range_contains_whole [simp]: "range_contains whole key"
  by (simp add: range_contains_def whole_def)

lemma contains_range_sound: "contains_range self other \<Longrightarrow> range_contains other key \<Longrightarrow> range_contains self key"
  by (auto simp: contains_range_def range_contains_def split: if_splits option.splits prod.splits)

lemma contains_range_complete:
  assumes sub: "\<And>key. range_contains other key \<Longrightarrow> range_contains self key"
    and ne: "range_contains other (range_start other)"
  shows "contains_range self other"
proof -
  have st: "range_start self \<le> range_start other"
    using sub [OF ne] by (simp add: range_contains_def)
  show ?thesis
  proof (cases "range_end self")
    case None
    with st show ?thesis by (auto simp: contains_range_def split: option.splits)
  next
    case (Some oe)
    let ?k = "max oe (range_start other)"
    have "\<not> range_contains self ?k"
      using Some by (auto simp: range_contains_def max_def)
    then have "\<not> range_contains other ?k" using sub by blast
    with ne obtain ie where "range_end other = Some ie" and "ie \<le> oe"
      by (auto simp: range_contains_def max_def split: option.splits if_splits)
    with st Some show ?thesis by (auto simp: contains_range_def)
  qed
qed

lemma split_at_Some:
  assumes "split_at r at = Some (left, right)"
  shows "range_contains r key \<longleftrightarrow> range_contains left key \<or> range_contains right key"
    and "\<not> (range_contains left key \<and> range_contains right key)"
    and "range_contains left (range_start r)"
    and "range_contains right at"
    and "contains_range r left" and "contains_range r right"
  using assms
  by (auto simp: split_at_def range_contains_def contains_range_def not_le split: if_splits option.splits)

lemma split_at_None:
  "split_at r at = None \<longleftrightarrow> at \<le> range_start r \<or> \<not> range_contains r at"
  by (auto simp: split_at_def range_contains_def not_le split: if_splits option.splits)

section \<open>Replica sets\<close>

lemma sorted_remdups_adj_sort: "sorted (remdups_adj (sort xs))"
  by (simp add: sorted_remdups_adj)

lemma distinct_remdups_adj_sort: "distinct (remdups_adj (sort (xs :: 'a::linorder list)))"
proof -
  have "sorted ys \<Longrightarrow> distinct (remdups_adj ys)" for ys :: "'a list"
    by (induction ys rule: remdups_adj.induct) auto
  then show ?thesis by simp
qed

lemma bsearch_base_bounds:
  "0 < sz \<Longrightarrow> base \<le> bsearch_base xs x base sz \<and> bsearch_base xs x base sz < base + sz"
proof (induction xs x base sz rule: bsearch_base.induct)
  case (1 xs x base sz)
  show ?case
  proof (cases "sz \<le> 1")
    case True
    with "1.prems" show ?thesis by (simp add: bsearch_base.simps [of xs x base sz])
  next
    case False
    let ?b = "if x < xs ! (base + sz div 2) then base else base + sz div 2"
    from False have "?b \<le> bsearch_base xs x ?b (sz - sz div 2) \<and>
        bsearch_base xs x ?b (sz - sz div 2) < ?b + (sz - sz div 2)"
      using "1.IH" by simp
    moreover have "bsearch_base xs x base sz = bsearch_base xs x ?b (sz - sz div 2)"
      using False by (subst bsearch_base.simps) (simp add: Let_def)
    moreover have "base \<le> ?b" "?b + (sz - sz div 2) \<le> base + sz" by auto
    ultimately show ?thesis by linarith
  qed
qed

text \<open>In a sorted slice the target stays inside the window, so the search finds it if it is there.\<close>

lemma bsearch_base_finds:
  assumes "sorted xs" and "base \<le> i" and "i < base + sz" and "base + sz \<le> length xs" and "xs ! i = x"
  shows "xs ! bsearch_base xs x base sz = x"
  using assms
proof (induction xs x base sz arbitrary: i rule: bsearch_base.induct)
  case (1 xs x base sz)
  show ?case
  proof (cases "sz \<le> 1")
    case True
    with "1.prems" have "i = base" by linarith
    with "1.prems" True show ?thesis by (simp add: bsearch_base.simps [of xs x base sz])
  next
    case False
    let ?mid = "base + sz div 2"
    let ?b = "if x < xs ! ?mid then base else ?mid"
    have mid: "?mid < length xs" using "1.prems" False by linarith
    have step: "bsearch_base xs x base sz = bsearch_base xs x ?b (sz - sz div 2)"
      using False by (subst bsearch_base.simps) (simp add: Let_def)
    obtain j where j: "?b \<le> j" "j < ?b + (sz - sz div 2)" "xs ! j = x"
    proof (cases "x < xs ! ?mid")
      case True
      then have "\<not> ?mid \<le> i" using sorted_nth_mono [OF "1.prems"(1), of ?mid i] "1.prems" by fastforce
      with True "1.prems" that [of i] False show ?thesis by simp
    next
      case False
      show ?thesis
      proof (cases "i < ?mid")
        case True
        then have "xs ! i \<le> xs ! ?mid" using sorted_nth_mono [OF "1.prems"(1)] mid by simp
        with False "1.prems" have "xs ! ?mid = x" by simp
        with False that [of ?mid] \<open>\<not> sz \<le> 1\<close> show ?thesis by simp
      next
        case ge: False
        with False "1.prems" that [of i] show ?thesis by simp
      qed
    qed
    have "xs ! bsearch_base xs x ?b (sz - sz div 2) = x"
    proof (rule "1.IH" [OF False refl refl, of j])
      show "?b + (sz - sz div 2) \<le> length xs" using "1.prems" False by (auto split: if_splits)
    qed (use j "1.prems" in auto)
    with step show ?thesis by simp
  qed
qed

lemma binary_search_is_ok_iff: "sorted xs \<Longrightarrow> binary_search_is_ok xs x \<longleftrightarrow> x \<in> set xs"
proof -
  assume "sorted xs"
  show ?thesis
  proof
    assume "binary_search_is_ok xs x"
    then show "x \<in> set xs"
      using bsearch_base_bounds [of "length xs" 0 xs x] nth_mem
      by (fastforce simp: binary_search_is_ok_def split: if_splits)
  next
    assume "x \<in> set xs"
    then obtain i where "i < length xs" "xs ! i = x" by (auto simp: in_set_conv_nth)
    with \<open>sorted xs\<close> show "binary_search_is_ok xs x"
      using bsearch_base_finds [of xs 0 i "length xs" x] by (auto simp: binary_search_is_ok_def)
  qed
qed

section \<open>Correctness of ranges and membership\<close>

text \<open>C32: splitting a range yields two ranges that cover it exactly and share no key, the left one
  with the old start and the right one with the split key, each contained in the whole.\<close>

theorem split_partitions:
  assumes "split_at r mid = Some (left, right)"
  shows "(range_contains r key \<longleftrightarrow> range_contains left key \<or> range_contains right key) \<and>
    \<not> (range_contains left key \<and> range_contains right key) \<and>
    range_contains left (range_start r) \<and> range_contains right mid \<and>
    contains_range r left \<and> contains_range r right"
  using split_at_Some [OF assms] by blast

theorem split_partitions_witness:
  "range_contains \<lparr>range_start = [1], range_end = Some [9]\<rparr> [7] \<and>
    (range_contains \<lparr>range_start = [1], range_end = Some [5]\<rparr> [7] \<or>
     range_contains \<lparr>range_start = [5], range_end = Some [9]\<rparr> [7])"
proof -
  have "split_at \<lparr>range_start = [1], range_end = Some [9]\<rparr> [5] =
      Some (\<lparr>range_start = [1], range_end = Some [5]\<rparr>, \<lparr>range_start = [5], range_end = Some [9]\<rparr>)"
    by code_simp
  from split_partitions [OF this, of "[7]"] show ?thesis
    by (simp add: range_contains_def)
qed

text \<open>C33: the binary search of a tablet's replicas finds exactly the nodes a tablet was created with,
  whatever their order and repetitions.\<close>

theorem has_replica_members: "has_replica (with_table i tbl rng rs) node \<longleftrightarrow> node \<in> set rs"
  by (simp add: has_replica_def with_table_def binary_search_is_ok_iff sorted_remdups_adj_sort)

end
