(* ===== verification/Text.thy ===== *)
theory Text
  imports Prelude Complex_Main "HOL-Library.Char_ord"
begin

text \<open>
  Rust's \<^verbatim>\<open>String\<close>/\<^verbatim>\<open>&str\<close> as the item model uses it: a \<open>string\<close> holds the UTF-8 bytes, one
  \<open>char\<close> (eight bits) per byte, so \<^verbatim>\<open>len\<close> is \<open>length\<close> and comparison is by bytes. The functions
  below are the standard library's \<^verbatim>\<open>trim\<close>, \<^verbatim>\<open>strip_prefix\<close>, \<^verbatim>\<open>split_once\<close>,
  \<^verbatim>\<open>trim_start_matches\<close>, \<^verbatim>\<open>trim_end_matches\<close>, \<^verbatim>\<open>is_ascii_digit\<close> and \<^verbatim>\<open>to_string\<close> on unsigned integers,
  and the value of a run of decimal digits.
\<close>

definition into_bytes :: "string \<Rightarrow> bytes" where
  "into_bytes s = map of_char s"

lemma of_char_u8_inject [simp]: "(of_char c :: u8) = of_char d \<longleftrightarrow> c = d"
proof
  assume eq: "(of_char c :: u8) = of_char d"
  have "(of_char c :: u8) = word_of_nat (of_char c)" for c
    by (simp add: of_char_def horner_sum_foldr)
  then have "word_of_nat (of_char c) = (word_of_nat (of_char d) :: u8)" using eq by metis
  then have "unat (word_of_nat (of_char c) :: u8) = unat (word_of_nat (of_char d) :: u8)" by simp
  then have "(of_char c :: nat) mod 256 = of_char d mod 256" by (simp add: unat_of_nat)
  then have "(of_char c :: nat) = of_char d" by simp
  then show "c = d" by simp
qed simp

lemma into_bytes_inject [simp]: "into_bytes s = into_bytes t \<longleftrightarrow> s = t"
  by (auto simp: into_bytes_def inj_map_eq_map inj_def)

section \<open>Whitespace\<close>

text \<open>
  The UTF-8 encodings of the characters with Unicode's \<^verbatim>\<open>White_Space\<close> property, which
  \<^verbatim>\<open>str::trim\<close> removes from both ends.
\<close>

definition white_space :: "string list" where
  "white_space =
     [[CHR 0x09], [CHR 0x0A], [CHR 0x0B],
      [CHR 0x0C], [CHR 0x0D], [CHR 0x20],
      [CHR 0xC2, CHR 0x85], [CHR 0xC2, CHR 0xA0], [CHR 0xE1, CHR 0x9A, CHR 0x80],
      [CHR 0xE2, CHR 0x80, CHR 0x80], [CHR 0xE2, CHR 0x80, CHR 0x81], [CHR 0xE2, CHR 0x80, CHR 0x82],
      [CHR 0xE2, CHR 0x80, CHR 0x83], [CHR 0xE2, CHR 0x80, CHR 0x84], [CHR 0xE2, CHR 0x80, CHR 0x85],
      [CHR 0xE2, CHR 0x80, CHR 0x86], [CHR 0xE2, CHR 0x80, CHR 0x87], [CHR 0xE2, CHR 0x80, CHR 0x88],
      [CHR 0xE2, CHR 0x80, CHR 0x89], [CHR 0xE2, CHR 0x80, CHR 0x8A], [CHR 0xE2, CHR 0x80, CHR 0xA8],
      [CHR 0xE2, CHR 0x80, CHR 0xA9], [CHR 0xE2, CHR 0x80, CHR 0xAF], [CHR 0xE2, CHR 0x81, CHR 0x9F],
      [CHR 0xE3, CHR 0x80, CHR 0x80]]"

text \<open>One leading (trailing) white-space character of a string, if it has one.\<close>

definition ws_prefix :: "string \<Rightarrow> string option" where
  "ws_prefix s = List.find (\<lambda>w. prefix w s) white_space"

definition ws_suffix :: "string \<Rightarrow> string option" where
  "ws_suffix s = List.find (\<lambda>w. suffix w s) white_space"

lemma ws_prefix_length: "ws_prefix s = Some w \<Longrightarrow> 0 < length w \<and> length w \<le> length s"
  by (auto simp: ws_prefix_def find_Some_iff dest!: prefix_length_le nth_mem)
    (auto simp: white_space_def)

lemma ws_suffix_length: "ws_suffix s = Some w \<Longrightarrow> 0 < length w \<and> length w \<le> length s"
  by (auto simp: ws_suffix_def find_Some_iff dest!: suffix_length_le nth_mem)
    (auto simp: white_space_def)

function trim_start :: "string \<Rightarrow> string" where
  "trim_start s =
     (case ws_prefix s of None \<Rightarrow> s | Some w \<Rightarrow> trim_start (drop (length w) s))"
  by pat_completeness auto
termination
proof (relation "measure length")
  fix s w
  assume "ws_prefix s = Some w"
  then show "(drop (length w) s, s) \<in> measure length" 
    unfolding in_measure length_drop using ws_prefix_length [of s w] by linarith
qed simp

function trim_end :: "string \<Rightarrow> string" where
  "trim_end s =
     (case ws_suffix s of None \<Rightarrow> s | Some w \<Rightarrow> trim_end (take (length s - length w) s))"
  by pat_completeness auto
termination
proof (relation "measure length")
  fix s w
  assume "ws_suffix s = Some w"
  then show "(take (length s - length w) s, s) \<in> measure length" 
    unfolding in_measure length_take using ws_suffix_length [of s w] by linarith
qed simp

declare trim_start.simps [simp del] trim_end.simps [simp del]

definition trim :: "string \<Rightarrow> string" where
  "trim s = trim_end (trim_start s)"

section \<open>Pieces of strings\<close>

fun strip_prefix :: "char \<Rightarrow> string \<Rightarrow> string option" where
  "strip_prefix c [] = None"
| "strip_prefix c (x # r) = (if x = c then Some r else None)"

text \<open>\<^verbatim>\<open>split_once(c).unwrap_or((s, ""))\<close>.\<close>

definition split_once_or :: "char \<Rightarrow> string \<Rightarrow> string \<times> string" where
  "split_once_or c s = (takeWhile (\<lambda>x. x \<noteq> c) s, tl (dropWhile (\<lambda>x. x \<noteq> c) s))"

definition trim_start_matches :: "char \<Rightarrow> string \<Rightarrow> string" where
  "trim_start_matches c s = dropWhile (\<lambda>x. x = c) s"

definition trim_end_matches :: "char \<Rightarrow> string \<Rightarrow> string" where
  "trim_end_matches c s = rev (dropWhile (\<lambda>x. x = c) (rev s))"

section \<open>Digits\<close>

definition is_ascii_digit :: "char \<Rightarrow> bool" where
  "is_ascii_digit c \<longleftrightarrow> (48 :: nat) \<le> of_char c \<and> of_char c \<le> (57 :: nat)"

definition digit_val :: "char \<Rightarrow> nat" where
  "digit_val c = of_char c - 48"

definition digit_char :: "nat \<Rightarrow> char" where
  "digit_char d = char_of (48 + d)"

definition digits_val :: "string \<Rightarrow> nat" where
  "digits_val s = fold (\<lambda>c n. 10 * n + digit_val c) s 0"

fun to_string :: "nat \<Rightarrow> string" where
  "to_string n = (if n < 10 then [digit_char n] else to_string (n div 10) @ [digit_char (n mod 10)])"

declare to_string.simps [simp del]

lemma digit_char_val [simp]: "d < 10 \<Longrightarrow> digit_val (digit_char d) = d"
  by (simp add: digit_val_def digit_char_def)

lemma digit_char_digit [simp]: "d < 10 \<Longrightarrow> is_ascii_digit (digit_char d)"
  by (simp add: is_ascii_digit_def digit_char_def)

lemma digit_val_less [simp]: "is_ascii_digit c \<Longrightarrow> digit_val c < 10"
  by (auto simp: is_ascii_digit_def digit_val_def)

lemma digit_val_char [simp]: "is_ascii_digit c \<Longrightarrow> digit_char (digit_val c) = c"
  by (simp add: is_ascii_digit_def digit_val_def digit_char_def)

lemma digit_val_0_iff: "is_ascii_digit c \<Longrightarrow> digit_val c = 0 \<longleftrightarrow> c = CHR ''0''"
proof
  assume "is_ascii_digit c" and "digit_val c = 0"
  then have "c = digit_char 0" using digit_val_char [of c] by simp
  also have "digit_char 0 = CHR ''0''" by code_simp
  finally show "c = CHR ''0''" .
qed (simp add: digit_val_def)

lemma digits_val_fold: "fold (\<lambda>c n. 10 * n + digit_val c) s k = k * 10 ^ length s + digits_val s"
proof (induction s arbitrary: k)
  case Nil
  then show ?case by (simp add: digits_val_def)
next
  case (Cons c s)
  have "fold (\<lambda>c n. 10 * n + digit_val c) (c # s) k =
      (10 * k + digit_val c) * 10 ^ length s + digits_val s"
    by (simp add: Cons.IH)
  moreover have "digits_val (c # s) = digit_val c * 10 ^ length s + digits_val s"
    unfolding digits_val_def fold_Cons o_apply using Cons.IH [of "10 * 0 + digit_val c"]
    by (simp add: digits_val_def)
  ultimately show ?case by (simp add: algebra_simps)
qed

lemma digits_val_Nil [simp]: "digits_val [] = 0"
  by (simp add: digits_val_def)

lemma digits_val_append: "digits_val (s @ t) = digits_val s * 10 ^ length t + digits_val t"
  unfolding digits_val_def fold_append o_apply
  using digits_val_fold [of t "fold (\<lambda>c n. 10 * n + digit_val c) s 0"]
  by (simp add: digits_val_def)

lemma digits_val_Cons: "digits_val (c # s) = digit_val c * 10 ^ length s + digits_val s"
  using digits_val_append [of "[c]" s] by (simp add: digits_val_def)

lemma digits_val_less: "list_all is_ascii_digit s \<Longrightarrow> digits_val s < 10 ^ length s"
proof (induction s)
  case Nil
  then show ?case by simp
next
  case (Cons c s)
  then have "is_ascii_digit c" and "digits_val s < 10 ^ length s" by simp_all
  moreover from this have "digit_val c \<le> 9" using digit_val_less [of c] by linarith
  ultimately have "digit_val c * 10 ^ length s + digits_val s < 9 * 10 ^ length s + 10 ^ length s"
    by (meson add_le_less_mono mult_le_mono1)
  then show ?case by (simp add: digits_val_Cons)
qed

lemma to_string_digits: "list_all is_ascii_digit (to_string n) \<and> to_string n \<noteq> []"
proof (induction n rule: to_string.induct)
  case (1 n)
  show ?case
  proof (cases "n < 10")
    case True
    then show ?thesis by (subst (1 2) to_string.simps) simp
  next
    case False
    with "1.IH" show ?thesis by (subst (1 2) to_string.simps) simp
  qed
qed

lemma digits_val_to_string: "digits_val (to_string n) = n"
proof (induction n rule: to_string.induct)
  case (1 n)
  show ?case
  proof (cases "n < 10")
    case True
    then show ?thesis by (subst to_string.simps) (simp add: digits_val_Cons)
  next
    case False
    with "1.IH" show ?thesis
      by (subst to_string.simps) (simp add: digits_val_append digits_val_Cons)
  qed
qed

section \<open>Trimming leaves text without white space at its ends alone\<close>

definition no_ws :: "char \<Rightarrow> bool" where
  "no_ws c \<longleftrightarrow> (32 :: nat) < of_char c \<and> of_char c < (128 :: nat)"

lemma white_space_ends:
  "w \<in> set white_space \<Longrightarrow> w \<noteq> [] \<and> \<not> no_ws (hd w) \<and> \<not> no_ws (last w)"
  by (auto simp: white_space_def no_ws_def)

lemma ws_prefix_None: "s \<noteq> [] \<Longrightarrow> no_ws (hd s) \<Longrightarrow> ws_prefix s = None"
  unfolding ws_prefix_def find_None_iff
  using white_space_ends by (metis append_is_Nil_conv hd_append2 prefixE)

lemma ws_suffix_None: "s \<noteq> [] \<Longrightarrow> no_ws (last s) \<Longrightarrow> ws_suffix s = None"
  unfolding ws_suffix_def find_None_iff
  using white_space_ends by (metis last_appendR suffixE)

lemma trim_id: "s \<noteq> [] \<Longrightarrow> no_ws (hd s) \<Longrightarrow> no_ws (last s) \<Longrightarrow> trim s = s"
  by (simp add: trim_def trim_start.simps [of s] trim_end.simps [of s] ws_prefix_None ws_suffix_None)

lemma digit_no_ws [simp]: "is_ascii_digit c \<Longrightarrow> no_ws c"
  by (auto simp: is_ascii_digit_def no_ws_def)

end
