(* ===== verification/Numkey.thy ===== *)
theory Numkey
  imports Text
begin

unbundle bit_operations_syntax

text \<open>
  The order-preserving byte encoding of DynamoDB numbers
  (\<^verbatim>\<open>crates/animus-item/src/numkey.rs\<close>): canonicalisation of decimal text to a sign, an exponent
  and a digit run, the encoder with its class byte, biased exponent and terminated digit run
  (inverted for negatives), and the decoder. The value of a decimal text is a rational number;
  the encoding orders texts by value, and decoding gives text that encodes back to the same bytes.
\<close>

section \<open>Canonical decimals\<close>

definition I64_MAX :: int where "I64_MAX = 2 ^ 63 - 1"

definition I64_MIN :: int where "I64_MIN = - (2 ^ 63)"

definition checked_i64 :: "int \<Rightarrow> int option" where
  "checked_i64 x = (if I64_MIN \<le> x \<and> x \<le> I64_MAX then Some x else None)"

definition split_sign :: "string \<Rightarrow> bool \<times> string" where
  "split_sign s =
     (case strip_prefix CHR ''-'' s of
        Some r \<Rightarrow> (True, r)
      | None \<Rightarrow> (case strip_prefix CHR ''+'' s of Some r \<Rightarrow> (False, r) | None \<Rightarrow> (False, s)))"

text \<open>The exponent part: \<open>Some (shift, rest)\<close>, or \<open>None\<close> where the code returns early.\<close>

definition parse_exponent :: "string \<Rightarrow> (int \<times> string) option" where
  "parse_exponent r =
     (case r of
        [] \<Rightarrow> Some (0, [])
      | c # r1 \<Rightarrow>
          if c = CHR ''e'' \<or> c = CHR ''E'' then
            let (exp_neg, r2) = split_sign r1;
                exp_text = takeWhile is_ascii_digit r2;
                r3 = dropWhile is_ascii_digit r2
            in if exp_text = [] then None
               else case checked_i64 (int (digits_val exp_text)) of
                      None \<Rightarrow> None
                    | Some magnitude \<Rightarrow> Some (if exp_neg then - magnitude else magnitude, r3)
          else Some (0, r))"

text \<open>Sign, integer digits, fraction digits and exponent shift of a valid decimal.\<close>

definition parse_decimal :: "string \<Rightarrow> (bool \<times> string \<times> string \<times> int) option" where
  "parse_decimal n =
     (let s = trim n in
      if s = [] then None
      else
        let (neg, r0) = split_sign s;
            ints = takeWhile is_ascii_digit r0;
            r1 = dropWhile is_ascii_digit r0;
            (fracs, r2) = (case strip_prefix CHR ''.'' r1 of
                            Some r \<Rightarrow> (takeWhile is_ascii_digit r, dropWhile is_ascii_digit r)
                          | None \<Rightarrow> ([], r1))
        in if ints = [] \<and> fracs = [] then None
           else case parse_exponent r2 of
                  None \<Rightarrow> None
                | Some (exp_shift, r3) \<Rightarrow>
                    if r3 \<noteq> [] then None else Some (neg, ints, fracs, exp_shift))"

text \<open>The loop over leading zeros, each of which moves the point by a checked decrement.\<close>

fun skip_zeros :: "int \<Rightarrow> string \<Rightarrow> (int \<times> string) option" where
  "skip_zeros p [] = Some (p, [])"
| "skip_zeros p (d # ds) =
     (if d = CHR ''0'' then
        (case checked_i64 (p - 1) of None \<Rightarrow> None | Some p' \<Rightarrow> skip_zeros p' ds)
      else Some (p, d # ds))"

definition canonicalize :: "string \<Rightarrow> (bool \<times> int \<times> nat list) option" where
  "canonicalize n =
     (case parse_decimal n of
        None \<Rightarrow> None
      | Some (neg, ints, fracs, exp_shift) \<Rightarrow>
          (case checked_i64 (int (length ints) + exp_shift) of
             None \<Rightarrow> None
           | Some point_pos \<Rightarrow>
               (case skip_zeros point_pos (ints @ fracs) of
                  None \<Rightarrow> None
                | Some (point_pos, ds) \<Rightarrow>
                    let ds = trim_end_matches CHR ''0'' ds
                    in if ds = [] then Some (False, 0, [])
                       else Some (neg, point_pos, map digit_val ds))))"

section \<open>The codec\<close>

definition BIAS :: int where "BIAS = 1024"
definition CLASS_NEGATIVE :: u8 where "CLASS_NEGATIVE = 2"
definition CLASS_ZERO :: u8 where "CLASS_ZERO = 3"
definition CLASS_POSITIVE :: u8 where "CLASS_POSITIVE = 4"
definition TERMINATOR :: u8 where "TERMINATOR = 0"

definition invert :: "bool \<Rightarrow> u8 \<Rightarrow> u8" where
  "invert neg b = (if neg then NOT b else b)"

definition digit_byte :: "nat \<Rightarrow> u8" where
  "digit_byte d = word_of_nat (d + 1)"

definition encode_canonical :: "bool \<times> int \<times> nat list \<Rightarrow> bytes option" where
  "encode_canonical c =
     (let (neg, ex, digits) = c in
      if digits = [] then Some [CLASS_ZERO]
      else case checked_i64 (ex + BIAS) of
             None \<Rightarrow> None
           | Some biased \<Rightarrow>
               if 0 \<le> biased \<and> biased < 2 ^ 16 then
                 Some ((if neg then CLASS_NEGATIVE else CLASS_POSITIVE) #
                       map (invert neg)
                         (be_bytes 2 (nat biased) @ map digit_byte digits @ [TERMINATOR]))
               else None)"

definition encode :: "string \<Rightarrow> bytes option" where
  "encode n = (case canonicalize n of None \<Rightarrow> None | Some c \<Rightarrow> encode_canonical c)"

definition MAX_SIGNIFICANT_DIGITS :: nat where "MAX_SIGNIFICANT_DIGITS = 38"

definition encode_checked :: "string \<Rightarrow> bytes option" where
  "encode_checked n =
     (case canonicalize n of
        None \<Rightarrow> None
      | Some (_, _, digits) \<Rightarrow> if MAX_SIGNIFICANT_DIGITS < length digits then None else encode n)"

definition render :: "bool \<Rightarrow> int \<Rightarrow> nat list \<Rightarrow> string" where
  "render neg ex digits =
     (let digit_str = map digit_char digits;
          sign = (if neg then ''-'' else '''');
          len = int (length digits)
      in if ex \<le> 0 then sign @ ''0.'' @ replicate (nat (- ex)) CHR ''0'' @ digit_str
         else if len \<le> ex then sign @ digit_str @ replicate (nat (ex - len)) CHR ''0''
         else sign @ take (nat ex) digit_str @ ''.'' @ drop (nat ex) digit_str)"

text \<open>The digit field up to its terminator, which must be the last byte.\<close>

fun decode_digits :: "bool \<Rightarrow> bytes \<Rightarrow> nat list option" where
  "decode_digits neg [] = None"
| "decode_digits neg (raw # rest) =
     (let b = invert neg raw in
      if b = TERMINATOR then (if rest = [] then Some [] else None)
      else case decode_digits neg rest of
             None \<Rightarrow> None
           | Some ds \<Rightarrow> if 1 \<le> b \<and> b \<le> 10 then Some (unat (b - 1) # ds) else None)"

definition decode :: "bytes \<Rightarrow> string option" where
  "decode bs =
     (case bs of
        [] \<Rightarrow> None
      | class # rest \<Rightarrow>
          if class = CLASS_ZERO then (if rest = [] then Some ''0'' else None)
          else if class = CLASS_NEGATIVE \<or> class = CLASS_POSITIVE then
            let neg = (class = CLASS_NEGATIVE) in
            if length rest < 3 then None
            else
              let ex = int (le_nat [invert neg (rest ! 1), invert neg (rest ! 0)]) - BIAS
              in case decode_digits neg (drop 2 rest) of
                   None \<Rightarrow> None
                 | Some digits \<Rightarrow> if digits = [] then None else Some (render neg ex digits)
          else None)"

definition is_encoded :: "bytes \<Rightarrow> bool" where
  "is_encoded bs \<longleftrightarrow> decode bs \<noteq> None"

section \<open>The value of a decimal\<close>

text \<open>The number a valid decimal text denotes, read off its parts.\<close>

definition text_value :: "string \<Rightarrow> rat option" where
  "text_value n =
     (case parse_decimal n of
        None \<Rightarrow> None
      | Some (neg, ints, fracs, exp_shift) \<Rightarrow>
          Some ((if neg then - 1 else 1) * of_nat (digits_val (ints @ fracs)) *
                10 powi (exp_shift - int (length fracs))))"

text \<open>The fraction \<open>0.d\<^sub>1d\<^sub>2\<dots>\<close> of a digit run and the value of a canonical triple.\<close>

fun fraction :: "nat list \<Rightarrow> rat" where
  "fraction [] = 0"
| "fraction (d # ds) = (of_nat d + fraction ds) / 10"

definition canonical_value :: "bool \<times> int \<times> nat list \<Rightarrow> rat" where
  "canonical_value c = (let (neg, ex, ds) = c in (if neg then - 1 else 1) * fraction ds * 10 powi ex)"

definition canonical :: "bool \<times> int \<times> nat list \<Rightarrow> bool" where
  "canonical c \<longleftrightarrow>
     (let (neg, ex, ds) = c in
      (\<forall>d \<in> set ds. d < 10) \<and>
      (if ds = [] then \<not> neg \<and> ex = 0 else hd ds \<noteq> 0 \<and> last ds \<noteq> 0))"

section \<open>Canonicalisation keeps the value\<close>

lemma parse_decimal_digits:
  assumes "parse_decimal n = Some (neg, ints, fracs, sh)"
  shows "list_all is_ascii_digit (ints @ fracs)"
proof -
  have tw: "list_all is_ascii_digit (takeWhile is_ascii_digit s)" for s
    by (auto simp: list_all_iff dest: set_takeWhileD)
  from assms obtain r0 r1 where "ints = takeWhile is_ascii_digit r0"
    and "fracs = [] \<or> fracs = takeWhile is_ascii_digit r1"
    by (auto simp: parse_decimal_def Let_def split: if_splits option.splits prod.splits)
  then show ?thesis using tw by auto
qed

lemma skip_zeros_Some:
  "skip_zeros p ds = Some (p', ds') \<Longrightarrow>
     ds' = dropWhile (\<lambda>c. c = CHR ''0'') ds \<and> p' = p - int (length ds - length ds')"
proof (induction p ds rule: skip_zeros.induct)
  case (1 p)
  then show ?case by simp
next
  case (2 p d ds)
  show ?case
  proof (cases "d = CHR ''0''")
    case True
    with "2.prems" have c: "checked_i64 (p - 1) = Some (p - 1)" and r: "skip_zeros (p - 1) ds = Some (p', ds')"
      by (auto simp: checked_i64_def split: if_splits option.splits)
    from "2.IH" [OF True c r] have "ds' = dropWhile (\<lambda>c. c = CHR ''0'') ds"
      and "p' = p - 1 - int (length ds - length ds')" by simp_all
    moreover from this have "length ds' \<le> length ds" by (simp add: length_dropWhile_le)
    ultimately show ?thesis using True by (simp add: of_nat_diff)
  next
    case False
    with "2.prems" show ?thesis by auto
  qed
qed

lemma fraction_digits: "fraction (map digit_val s) = of_nat (digits_val s) / 10 ^ length s"
  by (induction s) (simp_all add: digits_val_Cons field_simps)

lemma digits_val_dropWhile_zero: "digits_val (dropWhile (\<lambda>c. c = CHR ''0'') s) = digits_val s"
  by (induction s) (auto simp: digits_val_Cons digit_val_def)

lemma fraction_append_zeros: "fraction (xs @ replicate k 0) = fraction xs"
proof -
  have "fraction (replicate k 0) = 0" by (induction k) simp_all
  then show ?thesis by (induction xs) simp_all
qed

lemma trim_end_zeros:
  obtains k where "s = trim_end_matches CHR ''0'' s @ replicate k CHR ''0''"
proof -
  let ?z = "takeWhile (\<lambda>c. c = CHR ''0'') (rev s)"
  have "?z = replicate (length ?z) CHR ''0''"
    by (rule replicate_eqI) (auto dest: set_takeWhileD)
  then have "rev ?z = replicate (length ?z) CHR ''0''"
    by (metis rev_replicate)
  moreover have "s = rev (dropWhile (\<lambda>c. c = CHR ''0'') (rev s)) @ rev ?z"
    by (metis rev_append rev_rev_ident takeWhile_dropWhile_id)
  ultimately show ?thesis using that by (metis trim_end_matches_def)
qed

lemma fraction_trim_end:
  "fraction (map digit_val (trim_end_matches CHR ''0'' s)) = fraction (map digit_val s)"
proof -
  obtain k where k: "s = trim_end_matches CHR ''0'' s @ replicate k CHR ''0''"
    by (rule trim_end_zeros)
  have "digit_val CHR ''0'' = 0" by (simp add: digit_val_def)
  then have "map digit_val s = map digit_val (trim_end_matches CHR ''0'' s) @ replicate k 0"
    by (subst k) simp
  then show ?thesis by (simp add: fraction_append_zeros)
qed

lemma last_trim_end: "trim_end_matches c s \<noteq> [] \<Longrightarrow> last (trim_end_matches c s) \<noteq> c"
  using hd_dropWhile [of "\<lambda>x. x = c" "rev s"] by (simp add: trim_end_matches_def last_rev)

lemma hd_trim_end:
  assumes "trim_end_matches c s \<noteq> []"
  shows "hd (trim_end_matches c s) = hd s"
proof -
  have "s = trim_end_matches c s @ rev (takeWhile (\<lambda>x. x = c) (rev s))"
    unfolding trim_end_matches_def by (metis rev_append rev_rev_ident takeWhile_dropWhile_id)
  with assms show ?thesis by (metis hd_append2)
qed

lemma set_trim_end: "set (trim_end_matches c s) \<subseteq> set s"
  by (auto simp: trim_end_matches_def dest: set_dropWhileD)

lemma canonicalize_SomeE:
  assumes "canonicalize n = Some c"
  obtains neg ints fracs sh p ds where
    "parse_decimal n = Some (neg, ints, fracs, sh)"
    and "ds = trim_end_matches CHR ''0'' (dropWhile (\<lambda>c. c = CHR ''0'') (ints @ fracs))"
    and "p = int (length ints) + sh -
      int (length (ints @ fracs) - length (dropWhile (\<lambda>c. c = CHR ''0'') (ints @ fracs)))"
    and "c = (if ds = [] then (False, 0, []) else (neg, p, map digit_val ds))"
proof -
  from assms obtain neg ints fracs sh where n: "parse_decimal n = Some (neg, ints, fracs, sh)"
    by (auto simp: canonicalize_def split: option.splits)
  with assms obtain p ds where z: "skip_zeros (int (length ints) + sh) (ints @ fracs) = Some (p, ds)"
    and c: "c = (if trim_end_matches CHR ''0'' ds = [] then (False, 0, [])
                 else (neg, p, map digit_val (trim_end_matches CHR ''0'' ds)))"
    by (auto simp: canonicalize_def checked_i64_def Let_def split: option.splits if_splits)
  from skip_zeros_Some [OF z] n c that show ?thesis by metis
qed

lemma canonicalize_canonical:
  assumes "canonicalize n = Some c"
  shows "canonical c"
  using assms
proof (cases rule: canonicalize_SomeE)
  case (1 neg ints fracs sh p ds)
  have dig: "list_all is_ascii_digit (ints @ fracs)" by (rule parse_decimal_digits [OF 1(1)])
  have sub: "set ds \<subseteq> set (ints @ fracs)"
    unfolding 1(2) using set_trim_end set_dropWhileD by fastforce
  with dig have dd: "is_ascii_digit c" if "c \<in> set ds" for c
    using that by (auto simp: list_all_iff)
  show ?thesis
  proof (cases "ds = []")
    case True
    with 1 show ?thesis by (simp add: canonical_def)
  next
    case False
    have "hd ds = hd (dropWhile (\<lambda>c. c = CHR ''0'') (ints @ fracs))"
      using False 1(2) hd_trim_end by metis
    also have "\<dots> \<noteq> CHR ''0''"
      using False 1(2) by (metis (mono_tags, lifting) dropWhile.simps(1) hd_dropWhile rev.simps(1) trim_end_matches_def)
    finally have h: "hd ds \<noteq> CHR ''0''" .
    have l: "last ds \<noteq> CHR ''0''" using False 1(2) last_trim_end by metis
    have "digit_val (hd ds) \<noteq> 0" "digit_val (last ds) \<noteq> 0"
      using h l dd False digit_val_0_iff by (metis hd_in_set, metis last_in_set)
    with False 1(4) dd show ?thesis by (auto simp: canonical_def hd_map last_map)
  qed
qed

lemma canonicalize_value:
  assumes "canonicalize n = Some c"
  shows "text_value n = Some (canonical_value c)"
  using assms
proof (cases rule: canonicalize_SomeE)
  case (1 neg ints fracs sh p ds)
  let ?all = "ints @ fracs" and ?nz = "dropWhile (\<lambda>c. c = CHR ''0'') (ints @ fracs)"
  have len: "length ?nz \<le> length ?all" by (rule length_dropWhile_le)
  have fr: "fraction (map digit_val ds) = of_nat (digits_val ?all) / 10 ^ length ?nz"
    unfolding 1(2) fraction_trim_end by (simp only: fraction_digits digits_val_dropWhile_zero)
  have ten: "(10 :: rat) powi p = 10 ^ length ?nz * 10 powi (sh - int (length fracs))"
  proof -
    have "p = int (length ?nz) + (sh - int (length fracs))"
      using len 1(3) by (simp add: of_nat_diff)
    then show ?thesis by (simp add: power_int_add)
  qed
  have "fraction (map digit_val ds) * 10 powi p =
      of_nat (digits_val ?all) * 10 powi (sh - int (length fracs))"
    unfolding fr ten by simp
  moreover have "ds = [] \<Longrightarrow> digits_val ?all = 0"
    using fr by simp
  ultimately show ?thesis
    using 1(1,4) by (cases "ds = []") (simp_all add: text_value_def canonical_value_def)
qed

section \<open>The encoding is order-preserving\<close>

lemma fraction_bounds: "\<forall>d \<in> set ds. d < 10 \<Longrightarrow> 0 \<le> fraction ds \<and> fraction ds < 1"
proof (induction ds)
  case Nil
  then show ?case by simp
next
  case (Cons d ds)
  then have "d \<le> 9" by simp
  then have "of_nat d \<le> (of_nat 9 :: rat)" by (rule of_nat_mono)
  with Cons show ?case by auto
qed

lemma fraction_pos:
  assumes "\<forall>d \<in> set ds. d < 10" and "ds \<noteq> []" and "last ds \<noteq> 0"
  shows "0 < fraction ds"
  using assms
proof (induction ds)
  case Nil
  then show ?case by simp
next
  case (Cons d ds)
  show ?case
  proof (cases "ds = []")
    case True
    with Cons.prems show ?thesis by simp
  next
    case False
    with Cons have "0 < fraction ds" by simp
    then show ?thesis by (simp add: add_nonneg_pos)
  qed
qed

lemma fraction_less:
  assumes "\<forall>d \<in> set xs. d < 10" and "\<forall>d \<in> set ys. d < 10" and "ys \<noteq> [] \<longrightarrow> last ys \<noteq> 0" and "xs < ys"
  shows "fraction xs < fraction ys"
  using assms
proof (induction xs arbitrary: ys)
  case Nil
  then show ?case using fraction_pos [of ys] by (cases ys) auto
next
  case (Cons x xs)
  then obtain y ys' where ys: "ys = y # ys'" by (cases ys) auto
  have bx: "0 \<le> fraction xs" "fraction xs < 1" using fraction_bounds [of xs] Cons.prems by auto
  have bys: "0 \<le> fraction ys'" using fraction_bounds [of ys'] Cons.prems ys by auto
  from Cons.prems(4) ys consider "x < y" | "x = y" "xs < ys'" by auto
  then show ?case
  proof cases
    case 1
    then have "of_nat x + 1 \<le> (of_nat y :: rat)" by (metis Suc_leI of_nat_Suc of_nat_le_iff add.commute)
    with bx bys ys show ?thesis by simp
  next
    case 2
    have "fraction xs < fraction ys'"
      by (rule Cons.IH) (use Cons.prems ys 2 in \<open>auto split: if_splits\<close>)
    with 2 ys show ?thesis by simp
  qed
qed

lemma fraction_ge_tenth:
  assumes "\<forall>d \<in> set ds. d < 10" and "ds \<noteq> []" and "hd ds \<noteq> 0"
  shows "1 / 10 \<le> fraction ds"
proof -
  obtain d ds' where ds: "ds = d # ds'" using assms(2) by (cases ds) auto
  have "0 \<le> fraction ds'" using fraction_bounds [of ds'] assms(1) ds by auto
  moreover have "(1 :: rat) \<le> of_nat d" using assms(3) ds by simp
  ultimately show ?thesis using ds by simp
qed

text \<open>Magnitudes compare by exponent first, then by digit run.\<close>

definition mag_less :: "int \<times> nat list \<Rightarrow> int \<times> nat list \<Rightarrow> bool" where
  "mag_less a b \<longleftrightarrow> fst a < fst b \<or> fst a = fst b \<and> snd a < snd b"

lemma mag_less_value:
  assumes "canonical (n1, e1, ds1)" and "canonical (n2, e2, ds2)" and "ds1 \<noteq> []" and "ds2 \<noteq> []"
    and "mag_less (e1, ds1) (e2, ds2)"
  shows "fraction ds1 * 10 powi e1 < fraction ds2 * 10 powi e2"
proof -
  have c: "\<forall>d \<in> set ds1. d < 10" "\<forall>d \<in> set ds2. d < 10" "hd ds2 \<noteq> 0" "last ds2 \<noteq> 0"
    using assms by (auto simp: canonical_def)
  have pos: "(0 :: rat) < 10 powi e" for e by (rule zero_less_power_int) simp
  from assms(5) consider "e1 < e2" | "e1 = e2" "ds1 < ds2" by (auto simp: mag_less_def)
  then show ?thesis
  proof cases
    case 1
    have "fraction ds1 * 10 powi e1 < 1 * 10 powi e1"
      using fraction_bounds [OF c(1)] pos mult_strict_right_mono by blast
    also have "1 * 10 powi e1 \<le> (10 :: rat) powi (e2 - 1)"
      using 1 by (simp add: power_int_increasing)
    also have "\<dots> = 1 / 10 * 10 powi e2" by (simp add: power_int_diff)
    also have "\<dots> \<le> fraction ds2 * 10 powi e2"
      using fraction_ge_tenth [OF c(2) assms(4) c(3)] pos [of e2] by (simp add: mult_right_mono less_imp_le)
    finally show ?thesis .
  next
    case 2
    then have "fraction ds1 < fraction ds2" using fraction_less c by auto
    with 2 pos show ?thesis by (simp add: mult_strict_right_mono)
  qed
qed

lemma mag_linear: "mag_less a b \<or> a = b \<or> mag_less b a"
  by (auto simp: mag_less_def prod_eq_iff)

lemma canonical_value_less:
  assumes "canonical (n1, e1, ds1)" and "canonical (n2, e2, ds2)"
  shows "canonical_value (n1, e1, ds1) < canonical_value (n2, e2, ds2) \<longleftrightarrow>
    (if ds1 = [] then ds2 \<noteq> [] \<and> \<not> n2
     else if ds2 = [] then n1
     else if n1 \<noteq> n2 then n1
     else if n1 then mag_less (e2, ds2) (e1, ds1)
     else mag_less (e1, ds1) (e2, ds2))"
proof -
  have pos: "(0 :: rat) < 10 powi e" for e by (rule zero_less_power_int) simp
  define v1 v2 where v: "v1 = fraction ds1 * 10 powi e1" "v2 = fraction ds2 * 10 powi e2"
  have p1: "ds1 \<noteq> [] \<Longrightarrow> 0 < v1" and p2: "ds2 \<noteq> [] \<Longrightarrow> 0 < v2"
    using assms fraction_pos [of ds1] fraction_pos [of ds2] pos by (auto simp: canonical_def v)
  have z: "ds1 = [] \<Longrightarrow> v1 = 0" "ds2 = [] \<Longrightarrow> v2 = 0" by (simp_all add: v)
  have cv: "canonical_value (n1, e1, ds1) = (if n1 then - v1 else v1)"
    "canonical_value (n2, e2, ds2) = (if n2 then - v2 else v2)"
    by (simp_all add: canonical_value_def v)
  have lt: "ds1 \<noteq> [] \<Longrightarrow> ds2 \<noteq> [] \<Longrightarrow> mag_less (e1, ds1) (e2, ds2) \<longleftrightarrow> v1 < v2"
    and gt: "ds1 \<noteq> [] \<Longrightarrow> ds2 \<noteq> [] \<Longrightarrow> mag_less (e2, ds2) (e1, ds1) \<longleftrightarrow> v2 < v1"
    using mag_less_value [OF assms] mag_less_value [OF assms(2,1)] mag_linear [of "(e1, ds1)" "(e2, ds2)"]
    unfolding v by (auto dest: less_asym)
  show ?thesis
    unfolding cv using p1 p2 z lt gt assms by (auto simp: canonical_def)
qed

lemma unat_digit_byte [simp]: "d < 10 \<Longrightarrow> unat (digit_byte d) = d + 1"
  by (simp add: digit_byte_def unat_of_nat del: of_nat_add of_nat_Suc)

lemma digit_byte_pos: "d < 10 \<Longrightarrow> 0 < digit_byte d \<and> digit_byte d \<noteq> 0"
  by (auto simp: word_less_nat_alt simp flip: unat_eq_0)

lemma digit_byte_cmp:
  assumes "d < 10" and "e < 10"
  shows "digit_byte d < digit_byte e \<longleftrightarrow> d < e" and "digit_byte d = digit_byte e \<longleftrightarrow> d = e"
proof -
  show "digit_byte d < digit_byte e \<longleftrightarrow> d < e" using assms by (simp add: word_less_nat_alt)
  show "digit_byte d = digit_byte e \<longleftrightarrow> d = e"
  proof
    assume "digit_byte d = digit_byte e"
    then have "unat (digit_byte d) = unat (digit_byte e)" by (rule arg_cong)
    then show "d = e" using assms by (simp only: unat_digit_byte add_right_cancel)
  qed simp
qed

lemma digit_bytes_less:
  assumes "\<forall>d \<in> set xs. d < 10" and "\<forall>d \<in> set ys. d < 10"
  shows "map digit_byte xs @ [0] < map digit_byte ys @ [0] \<longleftrightarrow> xs < ys"
    and "prefix (map digit_byte xs @ [0]) (map digit_byte ys @ [0]) \<longleftrightarrow> xs = ys"
proof -
  show "map digit_byte xs @ [0] < map digit_byte ys @ [0] \<longleftrightarrow> xs < ys"
    using assms
  proof (induction xs arbitrary: ys)
    case Nil
    then show ?case by (cases ys) (auto simp: digit_byte_pos)
  next
    case (Cons x xs)
    then show ?case using digit_byte_pos [of x] by (cases ys) (auto simp: digit_byte_cmp)
  qed
  show "prefix (map digit_byte xs @ [0]) (map digit_byte ys @ [0]) \<longleftrightarrow> xs = ys"
    using assms
  proof (induction xs arbitrary: ys)
    case Nil
    show ?case
    proof (cases ys)
      case (Cons y ys')
      with Nil digit_byte_pos [of y] show ?thesis by auto
    qed simp
  next
    case (Cons x xs)
    then show ?case using digit_byte_pos [of x] by (cases ys) (auto simp: digit_byte_cmp)
  qed
qed

lemma unat_not_u8: "unat (NOT x) = 255 - unat (x :: u8)"
proof -
  have le: "x \<le> - 1" by simp
  have "NOT x = - 1 - x" by (simp add: not_eq_complement)
  then have "unat (NOT x) = unat (- 1 :: u8) - unat x"
    using unat_sub [OF le] by simp
  then show ?thesis by (simp add: unsigned_minus_1_eq_mask mask_eq_exp_minus_1)
qed

lemma not_less_not [simp]: "NOT x < NOT y \<longleftrightarrow> y < (x :: u8)"
proof -
  have "unat x < 256" "unat y < 256" using unsigned_less [of x] unsigned_less [of y] by simp_all
  then show ?thesis unfolding word_less_nat_alt unat_not_u8 by linarith
qed

lemma map_not_less:
  "xs < ys \<Longrightarrow> \<not> prefix xs ys \<Longrightarrow> map NOT ys < map NOT (xs :: bytes)"
proof (induction xs arbitrary: ys)
  case Nil
  then show ?case by simp
next
  case (Cons x xs)
  then show ?case by (cases ys) auto
qed

lemma map_not_less_iff:
  assumes "prefix xs ys \<Longrightarrow> xs = ys" and "prefix ys xs \<Longrightarrow> xs = ys"
  shows "map NOT xs < map NOT (ys :: bytes) \<longleftrightarrow> ys < xs"
proof (cases xs ys rule: linorder_cases)
  case less
  with map_not_less [of xs ys] assms show ?thesis by (auto dest: less_asym)
next
  case equal
  then show ?thesis by simp
next
  case greater
  with map_not_less [of ys xs] assms show ?thesis by auto
qed

text \<open>The body of an encoding, before the inversion of negatives.\<close>

definition enc_body :: "int \<Rightarrow> nat list \<Rightarrow> bytes" where
  "enc_body ex ds = be_bytes 2 (nat (ex + BIAS)) @ map digit_byte ds @ [0]"

lemma enc_body_less:
  assumes "\<forall>d \<in> set ds1. d < 10" and "\<forall>d \<in> set ds2. d < 10"
    and "0 \<le> e1 + BIAS" "e1 + BIAS < 2 ^ 16" "0 \<le> e2 + BIAS" "e2 + BIAS < 2 ^ 16"
  shows "enc_body e1 ds1 < enc_body e2 ds2 \<longleftrightarrow> mag_less (e1, ds1) (e2, ds2)"
    and "prefix (enc_body e1 ds1) (enc_body e2 ds2) \<longleftrightarrow> e1 = e2 \<and> ds1 = ds2"
proof -
  have b: "nat (e1 + BIAS) < 256 ^ 2" "nat (e2 + BIAS) < 256 ^ 2" using assms by auto
  have lt: "nat (e1 + BIAS) < nat (e2 + BIAS) \<longleftrightarrow> e1 < e2" "nat (e1 + BIAS) = nat (e2 + BIAS) \<longleftrightarrow> e1 = e2"
    using assms by auto
  show "enc_body e1 ds1 < enc_body e2 ds2 \<longleftrightarrow> mag_less (e1, ds1) (e2, ds2)"
    unfolding enc_body_def mag_less_def
    by (subst less_append_cong) (simp_all only: length_be_bytes be_bytes_less [OF b] be_bytes_inject [OF b]
        lt digit_bytes_less [OF assms(1,2)] fst_conv snd_conv)
  have "prefix (xs @ us) (ys @ vs) \<longleftrightarrow> xs = ys \<and> prefix us vs" if "length xs = length ys"
    for xs ys us vs :: bytes
    using that by (induction xs ys rule: list_induct2) auto
  then show "prefix (enc_body e1 ds1) (enc_body e2 ds2) \<longleftrightarrow> e1 = e2 \<and> ds1 = ds2"
    unfolding enc_body_def
    by (simp only: length_be_bytes be_bytes_inject [OF b] lt digit_bytes_less [OF assms(1,2)])
qed

lemma map_invert [simp]: "map (invert neg) bs = (if neg then map NOT bs else bs)"
  by (induction bs) (auto simp: invert_def)

lemma encode_canonical_Some:
  assumes "encode_canonical (neg, ex, ds) = Some e" and "ds \<noteq> []"
  shows "e = (if neg then CLASS_NEGATIVE # map NOT (enc_body ex ds) else CLASS_POSITIVE # enc_body ex ds)"
    and "0 \<le> ex + BIAS" and "ex + BIAS < 2 ^ 16"
  using assms
  by (auto simp: encode_canonical_def checked_i64_def enc_body_def TERMINATOR_def
      simp del: map_append split: if_splits option.splits)

lemma encode_canonical_zero: "encode_canonical (neg, ex, []) = Some [CLASS_ZERO]"
  by (simp add: encode_canonical_def)

lemma encode_canonical_less:
  assumes "canonical c1" and "canonical c2"
    and "encode_canonical c1 = Some b1" and "encode_canonical c2 = Some b2"
  shows "b1 < b2 \<longleftrightarrow> canonical_value c1 < canonical_value c2"
proof -
  obtain n1 e1 ds1 n2 e2 ds2 where c: "c1 = (n1, e1, ds1)" "c2 = (n2, e2, ds2)"
    by (metis prod.exhaust)
  have dig: "\<forall>d \<in> set ds1. d < 10" "\<forall>d \<in> set ds2. d < 10" and z: "ds1 = [] \<Longrightarrow> \<not> n1" "ds2 = [] \<Longrightarrow> \<not> n2"
    using assms(1,2) c by (auto simp: canonical_def)
  note val = canonical_value_less [OF assms(1,2) [unfolded c]]
  note classes = CLASS_NEGATIVE_def CLASS_ZERO_def CLASS_POSITIVE_def
  show ?thesis
  proof (cases "ds1 = [] \<or> ds2 = []")
    case True
    have b1: "b1 = (if ds1 = [] then [CLASS_ZERO]
        else if n1 then CLASS_NEGATIVE # map NOT (enc_body e1 ds1) else CLASS_POSITIVE # enc_body e1 ds1)"
      using assms(3) c encode_canonical_Some(1) [of n1 e1 ds1 b1] by (auto simp: encode_canonical_zero)
    have b2: "b2 = (if ds2 = [] then [CLASS_ZERO]
        else if n2 then CLASS_NEGATIVE # map NOT (enc_body e2 ds2) else CLASS_POSITIVE # enc_body e2 ds2)"
      using assms(4) c encode_canonical_Some(1) [of n2 e2 ds2 b2] by (auto simp: encode_canonical_zero)
    from True show ?thesis
      unfolding c val b1 b2 using z by (auto simp: classes)
  next
    case False
    then have ne: "ds1 \<noteq> []" "ds2 \<noteq> []" by auto
    note s1 = encode_canonical_Some [OF assms(3) [unfolded c] ne(1)]
    note s2 = encode_canonical_Some [OF assms(4) [unfolded c] ne(2)]
    note body = enc_body_less [OF dig s1(2,3) s2(2,3)]
    note body' = enc_body_less [OF dig(2,1) s2(2,3) s1(2,3)]
    have inv: "map NOT (enc_body e1 ds1) < map NOT (enc_body e2 ds2) \<longleftrightarrow> enc_body e2 ds2 < enc_body e1 ds1"
      by (rule map_not_less_iff) (simp_all add: body body')
    show ?thesis
      unfolding c val s1(1) s2(1) using ne body(1) body'(1) inv by (auto simp: classes)
  qed
qed

lemma encode_less:
  assumes "encode a = Some ea" and "encode b = Some eb"
  shows "\<exists>va vb. text_value a = Some va \<and> text_value b = Some vb \<and> (ea < eb \<longleftrightarrow> va < vb)"
proof -
  from assms obtain ca cb where c: "canonicalize a = Some ca" "canonicalize b = Some cb"
    and e: "encode_canonical ca = Some ea" "encode_canonical cb = Some eb"
    by (auto simp: encode_def split: option.splits)
  from encode_canonical_less [OF canonicalize_canonical [OF c(1)] canonicalize_canonical [OF c(2)] e]
    canonicalize_value [OF c(1)] canonicalize_value [OF c(2)]
  show ?thesis by blast
qed

section \<open>Decoding inverts encoding\<close>

abbreviation sign_of :: "bool \<Rightarrow> string" where
  "sign_of neg \<equiv> (if neg then ''-'' else [])"

lemma split_sign_signed:
  assumes "s \<noteq> []" and "is_ascii_digit (hd s)"
  shows "split_sign (sign_of neg @ s) = (neg, s)"
proof -
  obtain c r where s: "s = c # r" using assms(1) by (cases s) auto
  with assms(2) have "c \<noteq> CHR ''-''" "c \<noteq> CHR ''+''" by (auto simp: is_ascii_digit_def)
  with s show ?thesis by (simp add: split_sign_def)
qed

lemma takeWhile_digits: "list_all is_ascii_digit a \<Longrightarrow> \<not> is_ascii_digit c \<Longrightarrow>
    takeWhile is_ascii_digit (a @ c # b) = a \<and> dropWhile is_ascii_digit (a @ c # b) = c # b"
  by (induction a) auto

lemma takeWhile_all_digits: "list_all is_ascii_digit a \<Longrightarrow>
    takeWhile is_ascii_digit a = a \<and> dropWhile is_ascii_digit a = []"
  by (induction a) auto

lemma trim_signed:
  assumes "s \<noteq> []" and "is_ascii_digit (hd s)" and "is_ascii_digit (last s)"
  shows "trim (sign_of neg @ s) = sign_of neg @ s"
  by (rule trim_id) (use assms in \<open>auto simp: no_ws_def is_ascii_digit_def\<close>)

lemma parse_decimal_int:
  assumes "a \<noteq> []" and "list_all is_ascii_digit a"
  shows "parse_decimal (sign_of neg @ a) = Some (neg, a, [], 0)"
proof -
  have ends: "is_ascii_digit (hd a)" "is_ascii_digit (last a)"
    using assms by (simp_all add: list_all_iff)
  show ?thesis
    unfolding parse_decimal_def Let_def trim_signed [OF assms(1) ends] split_sign_signed [OF assms(1) ends(1)]
    using assms by (simp add: takeWhile_all_digits [OF assms(2)] parse_exponent_def)
qed

lemma parse_decimal_point:
  assumes "a \<noteq> []" and "list_all is_ascii_digit a" and "b \<noteq> []" and "list_all is_ascii_digit b"
  shows "parse_decimal (sign_of neg @ a @ ''.'' @ b) = Some (neg, a, b, 0)"
proof -
  let ?s = "a @ ''.'' @ b"
  have ne: "?s \<noteq> []" and ends: "is_ascii_digit (hd ?s)" "is_ascii_digit (last ?s)"
    using assms by (simp_all add: list_all_iff)
  have nd: "\<not> is_ascii_digit CHR ''.''" by (simp add: is_ascii_digit_def)
  show ?thesis
    unfolding parse_decimal_def Let_def trim_signed [OF ne ends] split_sign_signed [OF ne ends(1)]
    using assms
    by (simp add: takeWhile_digits [OF assms(2) nd, of b] takeWhile_all_digits [OF assms(4)] parse_exponent_def)
qed

lemma skip_zeros_replicate:
  assumes "I64_MIN \<le> p - int k" and "p \<le> I64_MAX" and "s \<noteq> [] \<longrightarrow> hd s \<noteq> CHR ''0''"
  shows "skip_zeros p (replicate k CHR ''0'' @ s) = Some (p - int k, s)"
  using assms
proof (induction k arbitrary: p)
  case 0
  then show ?case by (cases s) auto
next
  case (Suc k)
  then have "checked_i64 (p - 1) = Some (p - 1)" by (simp add: checked_i64_def)
  with Suc show ?case by simp
qed

lemma trim_end_zeros_id:
  assumes "s \<noteq> []" and "last s \<noteq> CHR ''0''"
  shows "trim_end_matches CHR ''0'' (s @ replicate k CHR ''0'') = s"
proof -
  have "dropWhile (\<lambda>x. x = CHR ''0'') (replicate k CHR ''0'' @ rev s) = dropWhile (\<lambda>x. x = CHR ''0'') (rev s)"
    by (induction k) simp_all
  also have "\<dots> = rev s" using assms by (cases "rev s") (auto simp flip: hd_rev)
  finally show ?thesis by (simp add: trim_end_matches_def)
qed

lemma canonicalize_render:
  assumes can: "canonical (neg, ex, ds)" and ne: "ds \<noteq> []"
    and rng: "0 \<le> ex + BIAS" "ex + BIAS < 2 ^ 16"
  shows "canonicalize (render neg ex ds) = Some (neg, ex, ds)"
proof -
  let ?s = "map digit_char ds" and ?z = "\<lambda>k. replicate k CHR ''0''"
  have dig: "\<forall>d \<in> set ds. d < 10" and h: "hd ds \<noteq> 0" and l: "last ds \<noteq> 0"
    using can ne by (auto simp: canonical_def)
  have s_dig: "list_all is_ascii_digit ?s" using dig by (simp add: list_all_iff)
  have z_dig: "list_all is_ascii_digit (?z k)" for k by (simp add: list_all_iff is_ascii_digit_def)
  have undo: "map digit_val ?s = ds" using dig by (simp add: map_idI)
  have zero: "digit_char d = CHR ''0'' \<Longrightarrow> d < 10 \<Longrightarrow> d = 0" for d
    using digit_char_val [of d] by (simp add: digit_val_def)
  have hs: "hd ?s \<noteq> CHR ''0''" and ls: "last ?s \<noteq> CHR ''0''"
    using h l dig ne zero by (metis hd_in_set hd_map, metis last_in_set last_map)
  have i64: "I64_MIN \<le> ex" "ex \<le> I64_MAX" using rng by (auto simp: BIAS_def I64_MIN_def I64_MAX_def)
  consider (low) "ex \<le> 0" | (high) "0 < ex" "int (length ds) \<le> ex" | (mid) "0 < ex" "ex < int (length ds)"
    by linarith
  then show ?thesis
  proof cases
    case low
    have r: "render neg ex ds = sign_of neg @ ''0'' @ ''.'' @ (?z (nat (- ex)) @ ?s)"
      using low by (simp add: render_def Let_def)
    have "parse_decimal (render neg ex ds) = Some (neg, ''0'', ?z (nat (- ex)) @ ?s, 0)"
      unfolding r by (rule parse_decimal_point) (use s_dig z_dig ne in \<open>auto simp: is_ascii_digit_def\<close>)
    moreover have "skip_zeros 1 (''0'' @ ?z (nat (- ex)) @ ?s) = Some (ex, ?s)"
      using skip_zeros_replicate [of 1 "Suc (nat (- ex))" ?s] low i64 hs ne
      by (simp add: I64_MAX_def I64_MIN_def)
    ultimately show ?thesis
      using trim_end_zeros_id [of ?s 0] ls ne undo
      by (simp add: canonicalize_def checked_i64_def I64_MAX_def I64_MIN_def)
  next
    case high
    have r: "render neg ex ds = sign_of neg @ (?s @ ?z (nat (ex - int (length ds))))"
      using high by (simp add: render_def Let_def)
    have "parse_decimal (render neg ex ds) = Some (neg, ?s @ ?z (nat (ex - int (length ds))), [], 0)"
      unfolding r by (rule parse_decimal_int) (use s_dig z_dig ne in auto)
    moreover have "skip_zeros ex (?s @ ?z k) = Some (ex, ?s @ ?z k)" for k
      using skip_zeros_replicate [of ex 0 "?s @ ?z k"] i64 hs ne by simp
    ultimately show ?thesis
      using trim_end_zeros_id [of ?s] ls ne undo high i64
      by (simp add: canonicalize_def checked_i64_def)
  next
    case mid
    let ?k = "nat ex"
    have r: "render neg ex ds = sign_of neg @ take ?k ?s @ ''.'' @ drop ?k ?s"
      using mid by (simp add: render_def Let_def)
    have "parse_decimal (render neg ex ds) = Some (neg, take ?k ?s, drop ?k ?s, 0)"
      unfolding r by (rule parse_decimal_point)
        (use s_dig mid ne in \<open>auto simp: list_all_iff dest!: in_set_takeD in_set_dropD\<close>)
    moreover have "skip_zeros ex ?s = Some (ex, ?s)"
      using skip_zeros_replicate [of ex 0 ?s] i64 hs ne by simp
    moreover have "int (length (take ?k ?s)) = ex" using mid by simp
    ultimately show ?thesis
      using trim_end_zeros_id [of ?s 0] ls ne undo i64
      by (simp add: canonicalize_def checked_i64_def del: take_map drop_map length_take)
  qed
qed

lemma decode_digits_encoded:
  "\<forall>d \<in> set ds. d < 10 \<Longrightarrow> decode_digits neg (map (invert neg) (map digit_byte ds @ [0])) = Some ds"
proof (induction ds)
  case Nil
  then show ?case by (simp add: invert_def TERMINATOR_def)
next
  case (Cons d ds)
  then have d: "d < 10" by simp
  have inv: "invert neg (invert neg b) = b" for b by (simp add: invert_def)
  have "unat (digit_byte d) = d + 1" using d by simp
  then have rng: "1 \<le> digit_byte d" "digit_byte d \<le> 10" "unat (digit_byte d - 1) = d"
    using d by (simp_all add: word_le_nat_alt unat_sub)
  show ?case
    using Cons digit_byte_pos [OF d] rng by (simp add: inv TERMINATOR_def Let_def del: map_invert)
qed

lemma le_nat_be_bytes: "x < 256 ^ n \<Longrightarrow> le_nat (rev (be_bytes n x)) = x"
  by (simp add: be_bytes_def)

lemma decode_encode_canonical:
  assumes "canonical (neg, ex, ds)" and "encode_canonical (neg, ex, ds) = Some e"
  shows "decode e = Some (if ds = [] then ''0'' else render neg ex ds)"
proof (cases "ds = []")
  case True
  with assms have "e = [CLASS_ZERO]" by (simp add: encode_canonical_zero)
  with True show ?thesis by (simp add: decode_def)
next
  case False
  note s = encode_canonical_Some [OF assms(2) False]
  have dig: "\<forall>d \<in> set ds. d < 10" using assms(1) by (simp add: canonical_def)
  let ?c = "if neg then CLASS_NEGATIVE else CLASS_POSITIVE"
  obtain hi lo where be: "be_bytes 2 (nat (ex + BIAS)) = [hi, lo]"
    by (simp add: be_bytes_def numeral_2_eq_2)
  have inv: "invert neg (invert neg b) = b" for b by (simp add: invert_def)
  have val: "int (le_nat [lo, hi]) - BIAS = ex"
    using le_nat_be_bytes [of "nat (ex + BIAS)" 2] s(2,3) be by simp
  have e: "e = ?c # invert neg hi # invert neg lo # map (invert neg) (map digit_byte ds @ [0])"
    using s(1) be by (simp add: enc_body_def invert_def)
  have cls: "?c \<noteq> CLASS_ZERO" "?c = CLASS_NEGATIVE \<or> ?c = CLASS_POSITIVE" "(?c = CLASS_NEGATIVE) = neg"
    by (auto simp: CLASS_NEGATIVE_def CLASS_ZERO_def CLASS_POSITIVE_def)
  show ?thesis
    unfolding e decode_def list.case Let_def
    using cls False val decode_digits_encoded [OF dig, of neg]
    by (simp add: inv del: map_invert map_append)
qed

lemma decode_encode:
  assumes "encode n = Some e"
  shows "\<exists>t. decode e = Some t \<and> canonicalize t = canonicalize n"
proof -
  from assms obtain neg ex ds where c: "canonicalize n = Some (neg, ex, ds)"
    and e: "encode_canonical (neg, ex, ds) = Some e"
    by (auto simp: encode_def split: option.splits)
  have can: "canonical (neg, ex, ds)" by (rule canonicalize_canonical [OF c])
  have d: "decode e = Some (if ds = [] then ''0'' else render neg ex ds)"
    by (rule decode_encode_canonical [OF can e])
  show ?thesis
  proof (cases "ds = []")
    case True
    with can have "(neg, ex, ds) = (False, 0, [])" by (simp add: canonical_def)
    moreover have "canonicalize ''0'' = Some (False, 0, [])" by code_simp
    ultimately show ?thesis using d c True by simp
  next
    case False
    with canonicalize_render [OF can False] encode_canonical_Some(2,3) [OF e False] d c
    show ?thesis by simp
  qed
qed

section \<open>Correctness of number keys\<close>

text \<open>C12: the byte order of encoded numbers is the order of the numbers, and two numbers have the same
  encoding only when they are the same number, however they are written.\<close>

theorem encode_order:
  assumes "encode a = Some ea" and "encode b = Some eb"
  shows "\<exists>va vb. text_value a = Some va \<and> text_value b = Some vb \<and> (ea < eb \<longleftrightarrow> va < vb) \<and> (ea = eb \<longleftrightarrow> va = vb)"
proof -
  obtain va vb where v: "text_value a = Some va" "text_value b = Some vb" "ea < eb \<longleftrightarrow> va < vb"
    using encode_less [OF assms] by blast
  moreover have "eb < ea \<longleftrightarrow> vb < va" using encode_less [OF assms(2,1)] v by auto
  ultimately show ?thesis by (metis antisym_conv3 less_irrefl)
qed

theorem encode_order_witness:
  "\<exists>va vb. text_value ''-12.50'' = Some va \<and> text_value ''9'' = Some vb \<and>
     (the (encode ''-12.50'') < the (encode ''9'') \<longleftrightarrow> va < vb) \<and> (the (encode ''-12.50'') = the (encode ''9'') \<longleftrightarrow> va = vb)"
proof (rule encode_order)
  show "encode ''-12.50'' = Some (the (encode ''-12.50''))" by code_simp
  show "encode ''9'' = Some (the (encode ''9''))" by code_simp
qed

text \<open>C21: decoding an encoded number gives a text of the same number, with the same canonical form.\<close>

theorem number_round_trip:
  assumes "encode n = Some e"
  shows "\<exists>t. decode e = Some t \<and> canonicalize t = canonicalize n \<and> text_value t = text_value n"
proof -
  obtain t where t: "decode e = Some t" "canonicalize t = canonicalize n" using decode_encode [OF assms] by blast
  from assms obtain c where "canonicalize n = Some c" by (auto simp: encode_def split: option.splits)
  with t canonicalize_value [of n c] canonicalize_value [of t c] show ?thesis by auto
qed

theorem number_round_trip_witness:
  "\<exists>t. decode (the (encode ''+1.50E3'')) = Some t \<and> canonicalize t = canonicalize ''+1.50E3'' \<and>
     text_value t = text_value ''+1.50E3''"
proof (rule number_round_trip)
  show "encode ''+1.50E3'' = Some (the (encode ''+1.50E3''))" by code_simp
qed

end
