(* ===== verification/Decimal.thy ===== *)
theory Decimal
  imports Numkey
begin

text \<open>
  Exact arithmetic on decimal text (\<^verbatim>\<open>crates/animus-item/src/condition.rs\<close>): comparison, addition
  and negation on digit strings, without floats. Each operation is related to the rational value
  of its operands, the \<^const>\<open>text_value\<close> of the key codec.
\<close>

section \<open>Parts of a plain decimal\<close>

text \<open>\<^verbatim>\<open>decimal_parts\<close>: sign, integer digits and fraction digits; no exponent is accepted.\<close>

definition decimal_parts :: "string \<Rightarrow> (bool \<times> string \<times> string) option" where
  "decimal_parts v =
     (let (neg, rest) = split_sign (trim v);
          (ip, fp) = split_once_or CHR ''.'' rest
      in if ip = [] \<and> fp = [] then None
         else if \<not> list_all is_ascii_digit (ip @ fp) then None
         else Some (neg, ip, fp))"

text \<open>The local \<^verbatim>\<open>parts\<close> of \<^verbatim>\<open>compare_numeric\<close>, zero-normalised.\<close>

definition parts :: "string \<Rightarrow> (bool \<times> string \<times> string) option" where
  "parts v =
     (let (neg, rest) = split_sign (trim v);
          (ip, fp) = split_once_or CHR ''.'' rest
      in if ip = [] \<and> fp = [] then None
         else if \<not> list_all is_ascii_digit (ip @ fp) then None
         else
           let ip = trim_start_matches CHR ''0'' ip;
               fp = trim_end_matches CHR ''0'' fp;
               neg = (neg \<and> \<not> (ip = [] \<and> fp = []))
           in Some (neg, ip, fp))"

text \<open>\<^verbatim>\<open>format!("{f:0<width$}")\<close> and \<^verbatim>\<open>format!("{:0>width$}", f)\<close>.\<close>

definition pad_right :: "nat \<Rightarrow> string \<Rightarrow> string" where
  "pad_right width f = f @ replicate (width - length f) CHR ''0''"

definition pad_left :: "nat \<Rightarrow> string \<Rightarrow> string" where
  "pad_left width f = replicate (width - length f) CHR ''0'' @ f"

definition compare_numeric :: "string \<Rightarrow> string \<Rightarrow> Ordering option" where
  "compare_numeric x y =
     (case parts x of
        None \<Rightarrow> None
      | Some (xn, xi, xf) \<Rightarrow>
          (case parts y of
             None \<Rightarrow> None
           | Some (yn, yi, yf) \<Rightarrow>
               if xn \<noteq> yn then Some (if xn then Less else Greater)
               else
                 let width = max (length xf) (length yf);
                     magnitude =
                       then_with (then_with (cmp (length xi) (length yi)) (cmp xi yi))
                         (cmp (pad_right width xf) (pad_right width yf))
                 in Some (if xn then reverse magnitude else magnitude)))"

section \<open>Addition and subtraction of digit strings\<close>

definition cmp_digits :: "string \<Rightarrow> string \<Rightarrow> Ordering" where
  "cmp_digits a b =
     (let a = trim_start_matches CHR ''0'' a; b = trim_start_matches CHR ''0'' b
      in then_with (cmp (length a) (length b)) (cmp a b))"

text \<open>One step of the reversed iterators: the next digit, \<open>0\<close> past the end.\<close>

definition next_digit :: "string \<Rightarrow> nat" where
  "next_digit s = (case s of [] \<Rightarrow> 0 | c # _ \<Rightarrow> digit_val c)"

text \<open>The loop of \<^verbatim>\<open>add_digits\<close> over the reversed operands; its output is least digit first.\<close>

function add_loop :: "string \<Rightarrow> string \<Rightarrow> nat \<Rightarrow> string" where
  "add_loop a b carry =
     (if a = [] \<and> b = [] \<and> carry = 0 then []
      else
        let sum = next_digit a + next_digit b + carry
        in digit_char (sum mod 10) # add_loop (tl a) (tl b) (sum div 10))"
  by pat_completeness auto
termination
  by (relation "measures [\<lambda>(a, b, c). length a + length b, \<lambda>(a, b, c). c]")
    (auto simp: next_digit_def neq_Nil_conv split: list.splits)

definition add_digits :: "string \<Rightarrow> string \<Rightarrow> string" where
  "add_digits a b = rev (add_loop (rev a) (rev b) 0)"

function sub_loop :: "string \<Rightarrow> string \<Rightarrow> int \<Rightarrow> string" where
  "sub_loop a b borrow =
     (if a = [] \<and> b = [] then []
      else
        let d = int (next_digit a) - int (next_digit b) - borrow
        in if d < 0 then digit_char (nat (d + 10)) # sub_loop (tl a) (tl b) 1
           else digit_char (nat d) # sub_loop (tl a) (tl b) 0)"
  by pat_completeness auto
termination
  by (relation "measure (\<lambda>(a, b, c). length a + length b)") (auto simp: neq_Nil_conv)

definition sub_digits :: "string \<Rightarrow> string \<Rightarrow> string" where
  "sub_digits a b =
     (let t = trim_start_matches CHR ''0'' (rev (sub_loop (rev a) (rev b) 0))
      in if t = [] then ''0'' else t)"

declare add_loop.simps [simp del] sub_loop.simps [simp del]

section \<open>Addition and negation of decimal text\<close>

text \<open>The tail of \<^verbatim>\<open>add_numeric\<close>: re-insert the point \<open>scale\<close> digits from the right.\<close>

definition place_point :: "bool \<Rightarrow> nat \<Rightarrow> string \<Rightarrow> string" where
  "place_point neg scale digits =
     (let digits = (if length digits \<le> scale then pad_left (scale + 1) digits else digits);
          split = length digits - scale;
          ip = trim_start_matches CHR ''0'' (take split digits);
          fp = trim_end_matches CHR ''0'' (drop split digits);
          ip = (if ip = [] then ''0'' else ip);
          sign = (if neg \<and> \<not> (ip = ''0'' \<and> fp = []) then ''-'' else [])
      in if fp = [] then sign @ ip else sign @ ip @ ''.'' @ fp)"

definition add_numeric :: "string \<Rightarrow> string \<Rightarrow> string option" where
  "add_numeric x y =
     (case decimal_parts x of
        None \<Rightarrow> None
      | Some (xn, xi, xf) \<Rightarrow>
          (case decimal_parts y of
             None \<Rightarrow> None
           | Some (yn, yi, yf) \<Rightarrow>
               let scale = max (length xf) (length yf);
                   xd = xi @ pad_right scale xf;
                   yd = yi @ pad_right scale yf;
                   (neg, digits) =
                     (if xn = yn then (xn, add_digits xd yd)
                      else case cmp_digits xd yd of
                             Equal \<Rightarrow> (False, ''0'')
                           | Greater \<Rightarrow> (xn, sub_digits xd yd)
                           | Less \<Rightarrow> (yn, sub_digits yd xd))
               in Some (place_point neg scale digits)))"

definition negate_numeric :: "string \<Rightarrow> string option" where
  "negate_numeric x =
     (case decimal_parts x of
        None \<Rightarrow> None
      | Some (neg, ip, fp) \<Rightarrow>
          let sign = (if neg then [] else ''-'');
              flipped = (if fp = [] then sign @ ip else sign @ ip @ ''.'' @ fp)
          in add_numeric ''0'' flipped)"

section \<open>Values of plain decimals\<close>

definition plain_value :: "bool \<times> string \<times> string \<Rightarrow> rat" where
  "plain_value p =
     (let (neg, i, f) = p
      in (if neg then - 1 else 1) * (of_nat (digits_val i) + of_nat (digits_val f) / 10 ^ length f))"

lemma takeWhile_not_char:
  "takeWhile (\<lambda>x. x \<noteq> c) s = s \<and> dropWhile (\<lambda>x. x \<noteq> c) s = [] \<or>
   s = takeWhile (\<lambda>x. x \<noteq> c) s @ c # tl (dropWhile (\<lambda>x. x \<noteq> c) s)"
  by (induction s) auto

lemma decimal_parts_SomeE:
  assumes "decimal_parts v = Some (neg, i, f)"
  obtains rest where "split_sign (trim v) = (neg, rest)"
    and "i \<noteq> [] \<or> f \<noteq> []" and "list_all is_ascii_digit i" and "list_all is_ascii_digit f"
    and "rest = i \<and> f = [] \<or> rest = i @ CHR ''.'' # f"
proof -
  from assms obtain rest where s: "split_sign (trim v) = (neg, rest)"
    and so: "split_once_or CHR ''.'' rest = (i, f)"
    and ne: "i \<noteq> [] \<or> f \<noteq> []" and d: "list_all is_ascii_digit i" "list_all is_ascii_digit f"
    by (auto simp: decimal_parts_def Let_def split: prod.splits if_splits)
  have "rest = i \<and> f = [] \<or> rest = i @ CHR ''.'' # f"
  proof -
    from so have i: "i = takeWhile (\<lambda>x. x \<noteq> CHR ''.'') rest"
      and f: "f = tl (dropWhile (\<lambda>x. x \<noteq> CHR ''.'') rest)" by (simp_all add: split_once_or_def)
    show ?thesis
      using takeWhile_not_char [of "CHR ''.''" rest] unfolding i f by (metis list.sel(2))
  qed
  with that s ne d show ?thesis by blast
qed

lemma not_digit_point: "\<not> is_ascii_digit CHR ''.''"
  by (simp add: is_ascii_digit_def)

lemma decimal_parts_parse:
  assumes "decimal_parts v = Some (neg, i, f)"
  shows "parse_decimal v = Some (neg, i, f, 0)"
  using assms
proof (cases rule: decimal_parts_SomeE)
  case (1 rest)
  have "trim v \<noteq> []"
    using 1 by (cases "trim v") (auto simp: split_sign_def)
  note tw = takeWhile_digits [OF 1(3) not_digit_point, of f] takeWhile_all_digits [OF 1(3)]
    takeWhile_all_digits [OF 1(4)]
  from 1(5) show ?thesis
  proof
    assume "rest = i \<and> f = []"
    with \<open>trim v \<noteq> []\<close> 1(1,2) show ?thesis
      by (simp add: parse_decimal_def parse_exponent_def Let_def tw del: takeWhile_eq_all_conv dropWhile_eq_Nil_conv)
  next
    assume "rest = i @ CHR ''.'' # f"
    with \<open>trim v \<noteq> []\<close> 1(1,2) show ?thesis
      by (auto simp: parse_decimal_def parse_exponent_def Let_def tw simp del: takeWhile_eq_all_conv dropWhile_eq_Nil_conv takeWhile_append dropWhile_append)
  qed
qed

lemma decimal_parts_value:
  assumes "decimal_parts v = Some p"
  shows "text_value v = Some (plain_value p)"
proof -
  obtain neg i f where p: "p = (neg, i, f)" by (cases p) auto
  have "10 powi (- int (length f)) = 1 / (10 ^ length f :: rat)"
    by (simp add: power_int_minus divide_inverse)
  then show ?thesis
    using decimal_parts_parse [OF assms [unfolded p]]
    by (simp add: p text_value_def plain_value_def digits_val_append algebra_simps add_divide_distrib)
qed

section \<open>Order of digit strings\<close>

definition no_lead :: "string \<Rightarrow> bool" where
  "no_lead s \<longleftrightarrow> (s = [] \<or> hd s \<noteq> CHR ''0'')"

lemma digit_less_iff:
  "is_ascii_digit c \<Longrightarrow> is_ascii_digit d \<Longrightarrow> c < d \<longleftrightarrow> digit_val c < digit_val d"
  by (auto simp: digit_val_def is_ascii_digit_def less_char_def)

lemma digits_less_iff:
  assumes "length s = length t" and "list_all is_ascii_digit s" and "list_all is_ascii_digit t"
  shows "s < t \<longleftrightarrow> digits_val s < digits_val t"
  using assms
proof (induction s t rule: list_induct2)
  case Nil
  then show ?case by simp
next
  case (Cons c s d t)
  have b: "digits_val s < 10 ^ length t" "digits_val t < 10 ^ length t"
    using Cons digits_val_less [of s] digits_val_less [of t] by simp_all
  have dd: "is_ascii_digit c" "is_ascii_digit d" using Cons by simp_all
  have low: "a * m + x < b * m + y" if "a < b" "x < m" for a b m x y :: nat
  proof -
    have "Suc a * m \<le> b * m" using that(1) by (intro mult_le_mono1) simp
    with that(2) show ?thesis by simp
  qed
  consider "digit_val c < digit_val d" | "c = d" | "digit_val d < digit_val c"
    using dd digit_val_char by (metis nat_neq_iff)
  then show ?case
  proof cases
    case 1
    with low [OF 1 b(1), of "digits_val t"] dd Cons show ?thesis
      by (simp add: digits_val_Cons digit_less_iff)
  next
    case 2
    with Cons show ?thesis by (simp add: digits_val_Cons)
  next
    case 3
    with low [OF 3 b(2), of "digits_val s"] dd Cons show ?thesis
      by (auto simp: digits_val_Cons digit_less_iff)
  qed
qed

lemma cmp_same_length:
  assumes "length s = length t" and "list_all is_ascii_digit s" and "list_all is_ascii_digit t"
  shows "cmp s t = cmp (digits_val s) (digits_val t)"
  by (rule cmp_eqI) (use assms digits_less_iff in \<open>auto simp: eq_commute\<close>)

lemma shorter_less:
  assumes "length s < length t" and "no_lead t"
    and "list_all is_ascii_digit s" and "list_all is_ascii_digit t"
  shows "digits_val s < digits_val t"
proof -
  from assms(1) obtain d r where t: "t = d # r" by (cases t) auto
  with assms have "digit_val d \<noteq> 0" by (simp add: no_lead_def digit_val_0_iff)
  then have "1 * 10 ^ length r \<le> digit_val d * 10 ^ length r" by (intro mult_le_mono1) simp
  then have "10 ^ length r \<le> digits_val t" unfolding t digits_val_Cons by linarith
  moreover have "(10 :: nat) ^ length s \<le> 10 ^ length r"
    using assms(1) t by (intro power_increasing) simp_all
  ultimately show ?thesis using digits_val_less [OF assms(3)] by linarith
qed

lemma magnitude_cmp:
  assumes "no_lead s" "no_lead t" and "list_all is_ascii_digit s" and "list_all is_ascii_digit t"
  shows "then_with (cmp (length s) (length t)) (cmp s t) = cmp (digits_val s) (digits_val t)"
proof -
  consider "length s < length t" | "length s = length t" | "length t < length s" by linarith
  then show ?thesis
  proof cases
    case 1
    with assms shorter_less [OF 1] show ?thesis by (simp add: cmp_def)
  next
    case 2
    with assms cmp_same_length [OF 2] show ?thesis by (simp add: cmp_def)
  next
    case 3
    with assms shorter_less [OF 3] show ?thesis by (simp add: cmp_def)
  qed
qed

section \<open>Comparison decides the order of values\<close>

lemma trim_start_no_lead: "no_lead (trim_start_matches CHR ''0'' s)"
  using hd_dropWhile [of "\<lambda>x. x = CHR ''0''" s] by (auto simp: no_lead_def trim_start_matches_def)

lemma trim_start_digits:
  "list_all is_ascii_digit s \<Longrightarrow> list_all is_ascii_digit (trim_start_matches c s)"
  by (auto simp: trim_start_matches_def list_all_iff dest: set_dropWhileD)

lemma trim_end_digits:
  "list_all is_ascii_digit s \<Longrightarrow> list_all is_ascii_digit (trim_end_matches c s)"
  using set_trim_end [of c s] by (auto simp: list_all_iff)

lemma trim_start_val [simp]: "digits_val (trim_start_matches CHR ''0'' s) = digits_val s"
  by (simp add: trim_start_matches_def digits_val_dropWhile_zero)

lemma cmp_digits_value:
  assumes "list_all is_ascii_digit a" and "list_all is_ascii_digit b"
  shows "cmp_digits a b = cmp (digits_val a) (digits_val b)"
  unfolding cmp_digits_def Let_def
  using magnitude_cmp [OF trim_start_no_lead trim_start_no_lead trim_start_digits [OF assms(1)]
      trim_start_digits [OF assms(2)]] by simp

abbreviation frac_val :: "string \<Rightarrow> rat" where
  "frac_val f \<equiv> of_nat (digits_val f) / 10 ^ length f"

lemma frac_val_trim_end [simp]: "frac_val (trim_end_matches CHR ''0'' f) = frac_val f"
  using fraction_trim_end [of f] by (simp only: fraction_digits)

lemma digits_val_zeros [simp]: "digits_val (replicate k CHR ''0'') = 0"
  by (induction k) (simp_all add: digits_val_Cons digit_val_def)

lemma frac_val_pad:
  assumes "length f \<le> w"
  shows "of_nat (digits_val (pad_right w f)) = frac_val f * 10 ^ w"
proof -
  have "digits_val (pad_right w f) = digits_val f * 10 ^ (w - length f)"
    by (simp add: pad_right_def digits_val_append)
  moreover have "(10 :: rat) ^ w = 10 ^ length f * 10 ^ (w - length f)"
    using assms by (simp flip: power_add)
  ultimately show ?thesis by simp
qed

lemma pad_right_digits: "list_all is_ascii_digit f \<Longrightarrow> list_all is_ascii_digit (pad_right w f)"
  by (auto simp: pad_right_def list_all_iff is_ascii_digit_def)

lemma length_pad_right [simp]: "length f \<le> w \<Longrightarrow> length (pad_right w f) = w"
  by (simp add: pad_right_def)

lemma frac_cmp:
  assumes "list_all is_ascii_digit f" and "list_all is_ascii_digit g"
  shows "cmp (pad_right (max (length f) (length g)) f) (pad_right (max (length f) (length g)) g)
           = cmp (frac_val f) (frac_val g)"
proof -
  let ?w = "max (length f) (length g)"
  have f: "of_nat (digits_val (pad_right ?w f)) = frac_val f * 10 ^ ?w"
    and g: "of_nat (digits_val (pad_right ?w g)) = frac_val g * 10 ^ ?w"
    by (simp_all add: frac_val_pad)
  have "cmp (pad_right ?w f) (pad_right ?w g) = cmp (digits_val (pad_right ?w f)) (digits_val (pad_right ?w g))"
    by (rule cmp_same_length) (use assms in \<open>simp_all add: pad_right_digits\<close>)
  also have "\<dots> = cmp (of_nat (digits_val (pad_right ?w f)) :: rat) (of_nat (digits_val (pad_right ?w g)))"
    by (rule cmp_eqI) simp_all
  also have "\<dots> = cmp (frac_val f) (frac_val g)"
    unfolding f g by (rule cmp_eqI) (simp_all only: mult_less_cancel_right_pos zero_less_power zero_less_numeral)
  finally show ?thesis .
qed

lemma frac_val_bounds:
  assumes "list_all is_ascii_digit f"
  shows "0 \<le> frac_val f" and "frac_val f < 1"
proof -
  have "of_nat (digits_val f) < (of_nat (10 ^ length f) :: rat)"
    using digits_val_less [OF assms] by (simp only: of_nat_less_iff)
  then show "0 \<le> frac_val f" and "frac_val f < 1" by simp_all
qed

lemma cmp_int_frac:
  fixes p q :: rat
  assumes "0 \<le> p" "p < 1" "0 \<le> q" "q < 1"
  shows "then_with (cmp a b) (cmp p q) = cmp (of_nat a + p) (of_nat b + q)"
proof -
  have lt: "of_nat a + p < of_nat b + q" if "a < b" "p < 1" "0 \<le> q" for a b :: nat and p q :: rat
  proof -
    have "of_nat (Suc a) \<le> (of_nat b :: rat)" using that(1) by (simp only: of_nat_le_iff Suc_le_eq)
    with that(2,3) show ?thesis by simp
  qed
  show ?thesis
  proof (cases a b rule: linorder_cases)
    case less
    with lt [OF less assms(2,3)] show ?thesis by (simp add: cmp_def)
  next
    case equal
    then show ?thesis by (simp add: cmp_def)
  next
    case greater
    with lt [OF greater assms(4,1)] show ?thesis by (simp add: cmp_def)
  qed
qed

lemma parts_SomeE:
  assumes "parts v = Some (neg, i, f)"
  obtains n0 i0 f0 where "decimal_parts v = Some (n0, i0, f0)"
    and "i = trim_start_matches CHR ''0'' i0" and "f = trim_end_matches CHR ''0'' f0"
    and "neg = (n0 \<and> \<not> (i = [] \<and> f = []))"
    and "list_all is_ascii_digit i" and "list_all is_ascii_digit f"
  using assms trim_start_digits trim_end_digits
  by (auto simp: parts_def decimal_parts_def Let_def split: prod.splits if_splits)

lemma parts_None: "parts v = None \<longleftrightarrow> decimal_parts v = None"
  by (auto simp: parts_def decimal_parts_def Let_def split: prod.splits)

lemma frac_val_pos:
  assumes "f \<noteq> []" and "last f \<noteq> CHR ''0''" and "list_all is_ascii_digit f"
  shows "0 < digits_val f"
proof -
  have "is_ascii_digit (last f)" using assms(1,3) by (simp add: list_all_iff)
  then have "digit_val (last f) \<noteq> 0" using assms(2) by (simp add: digit_val_0_iff)
  moreover have "digits_val f = digits_val (butlast f) * 10 + digit_val (last f)"
    using assms(1) digits_val_append [of "butlast f" "[last f]"]
    by (simp add: digits_val_Cons)
  ultimately show ?thesis by simp
qed

lemma parts_value:
  assumes "parts v = Some (neg, i, f)"
  shows "\<exists>m. text_value v = Some (if neg then - m else m) \<and> m = of_nat (digits_val i) + frac_val f
           \<and> 0 \<le> m \<and> (neg \<longrightarrow> 0 < m) \<and> no_lead i \<and> list_all is_ascii_digit i \<and> list_all is_ascii_digit f"
  using assms
proof (cases rule: parts_SomeE)
  case (1 n0 i0 f0)
  let ?m = "of_nat (digits_val i) + frac_val f :: rat"
  have nn: "0 \<le> ?m" by simp
  have v: "text_value v = Some (if n0 then - ?m else ?m)"
    using decimal_parts_value [OF 1(1)] by (simp add: plain_value_def 1(2,3) algebra_simps)
  have pos: "0 < ?m" if "\<not> (i = [] \<and> f = [])"
  proof (cases "i = []")
    case False
    have "no_lead i" by (simp only: 1(2) trim_start_no_lead)
    with False 1(5) have "0 < digits_val i"
      using shorter_less [of "[]" i] by simp
    then show ?thesis by (simp add: add_pos_nonneg)
  next
    case True
    with that have "f \<noteq> []" by simp
    with 1(3,6) have "0 < digits_val f" using frac_val_pos last_trim_end by metis
    then show ?thesis by (simp add: add_nonneg_pos)
  qed
  have z: "?m = 0" if "i = [] \<and> f = []" using that by simp
  show ?thesis
    using v pos z nn 1(4,5,6) trim_start_no_lead [of i0] unfolding 1(2) [symmetric]
    by (intro exI [of _ ?m]) auto
qed

lemma compare_numeric_value:
  assumes "compare_numeric x y = Some o1"
  shows "\<exists>a b. text_value x = Some a \<and> text_value y = Some b \<and> o1 = cmp a b"
proof -
  from assms obtain xn xi xf yn yi yf where p: "parts x = Some (xn, xi, xf)" "parts y = Some (yn, yi, yf)"
    by (auto simp: compare_numeric_def split: option.splits)
  from parts_value [OF p(1)] obtain a where a: "text_value x = Some (if xn then - a else a)"
    "a = of_nat (digits_val xi) + frac_val xf" "0 \<le> a" "xn \<longrightarrow> 0 < a" "no_lead xi"
    "list_all is_ascii_digit xi" "list_all is_ascii_digit xf" by blast
  from parts_value [OF p(2)] obtain b where b: "text_value y = Some (if yn then - b else b)"
    "b = of_nat (digits_val yi) + frac_val yf" "0 \<le> b" "yn \<longrightarrow> 0 < b" "no_lead yi"
    "list_all is_ascii_digit yi" "list_all is_ascii_digit yf" by blast
  have mag: "then_with (then_with (cmp (length xi) (length yi)) (cmp xi yi))
      (cmp (pad_right (max (length xf) (length yf)) xf) (pad_right (max (length xf) (length yf)) yf))
        = cmp a b"
    unfolding magnitude_cmp [OF a(5) b(5) a(6) b(6)] frac_cmp [OF a(7) b(7)] a(2) b(2)
    by (rule cmp_int_frac) (use a(7) b(7) frac_val_bounds in auto)
  have neg: "cmp (- a) (- b) = cmp b a" by (rule cmp_eqI) simp_all
  have "o1 = cmp (if xn then - a else a) (if yn then - b else b)"
  proof (cases "xn = yn")
    case True
    with assms p mag neg show ?thesis
      by (simp add: compare_numeric_def Let_def split: if_splits)
  next
    case False
    with assms p a(3,4) b(3,4) show ?thesis
      by (auto simp: compare_numeric_def cmp_def split: if_splits)
  qed
  with a(1) b(1) show ?thesis by blast
qed

section \<open>Addition and negation are exact\<close>

abbreviation rval :: "string \<Rightarrow> nat" where
  "rval s \<equiv> digits_val (rev s)"

lemma rval_Cons: "rval (c # s) = digit_val c + 10 * rval s"
  by (simp add: digits_val_append digits_val_Cons)

lemma rval_step: "rval s = next_digit s + 10 * rval (tl s)"
  by (cases s) (simp_all add: next_digit_def rval_Cons del: rev.simps(2))

lemma add_loop_value:
  "rval (add_loop a b carry) = rval a + rval b + carry \<and> list_all is_ascii_digit (add_loop a b carry)"
proof (induction a b carry rule: add_loop.induct)
  case (1 a b carry)
  show ?case
  proof (cases "a = [] \<and> b = [] \<and> carry = 0")
    case True
    then show ?thesis by (simp add: add_loop.simps)
  next
    case False
    let ?sum = "next_digit a + next_digit b + carry"
    have regroup: "m mod 10 + 10 * (x + m div 10) = m + 10 * x" for m x :: nat
      using mod_mult_div_eq [of m 10] by (simp add: distrib_left)
    have IH: "rval (add_loop (tl a) (tl b) (?sum div 10)) = rval (tl a) + rval (tl b) + ?sum div 10"
      "list_all is_ascii_digit (add_loop (tl a) (tl b) (?sum div 10))"
      using "1.IH" [OF False refl] by simp_all
    have u: "add_loop a b carry = digit_char (?sum mod 10) # add_loop (tl a) (tl b) (?sum div 10)"
      using False by (subst add_loop.simps) (simp add: Let_def)
    have d: "digit_val (digit_char (?sum mod 10)) = ?sum mod 10" "is_ascii_digit (digit_char (?sum mod 10))"
      by simp_all
    have "rval (add_loop a b carry) = ?sum mod 10 + 10 * (rval (tl a) + rval (tl b) + ?sum div 10)"
      by (simp only: u rval_Cons d IH)
    also have "\<dots> = ?sum + 10 * (rval (tl a) + rval (tl b))"
      by (rule regroup)
    also have "\<dots> = rval a + rval b + carry"
      by (simp add: rval_step [of a] rval_step [of b])
    finally show ?thesis using u d(2) IH(2) by simp
  qed
qed

lemma add_digits_value:
  "digits_val (add_digits a b) = digits_val a + digits_val b" "list_all is_ascii_digit (add_digits a b)"
  using add_loop_value [of "rev a" "rev b" 0] by (simp_all add: add_digits_def list_all_iff)

lemma next_digit_less: "list_all is_ascii_digit s \<Longrightarrow> next_digit s < 10"
  by (cases s) (simp_all add: next_digit_def)

lemma list_all_tl: "list_all P s \<Longrightarrow> list_all P (tl s)"
  by (cases s) simp_all

lemma sub_loop_value:
  assumes "list_all is_ascii_digit a" and "list_all is_ascii_digit b"
    and "borrow = 0 \<or> borrow = 1" and "int (rval b) + borrow \<le> int (rval a)"
  shows "int (rval (sub_loop a b borrow)) = int (rval a) - int (rval b) - borrow \<and>
    list_all is_ascii_digit (sub_loop a b borrow)"
  using assms
proof (induction a b borrow rule: sub_loop.induct)
  case (1 a b borrow)
  show ?case
  proof (cases "a = [] \<and> b = []")
    case True
    with "1.prems" show ?thesis by (simp add: sub_loop.simps)
  next
    case False
    let ?d = "int (next_digit a) - int (next_digit b) - borrow"
    let ?e = "if ?d < 0 then ?d + 10 else ?d" and ?b = "if ?d < 0 then 1 else 0 :: int"
    have nd: "next_digit a < 10" "next_digit b < 10"
      using "1.prems"(1,2) by (simp_all add: next_digit_less)
    have e: "0 \<le> ?e" "?e < 10" using nd "1.prems"(3) by (auto split: if_splits)
    have steps: "int (rval a) = int (next_digit a) + 10 * int (rval (tl a))"
      "int (rval b) = int (next_digit b) + 10 * int (rval (tl b))"
      using rval_step [of a] rval_step [of b] by simp_all
    have le: "int (rval (tl b)) + ?b \<le> int (rval (tl a))"
      using "1.prems"(3,4) steps nd by (auto split: if_splits)
    have IH: "int (rval (sub_loop (tl a) (tl b) ?b)) = int (rval (tl a)) - int (rval (tl b)) - ?b"
      "list_all is_ascii_digit (sub_loop (tl a) (tl b) ?b)"
      using "1.IH" [OF False refl] "1.prems"(1,2) le by (cases "?d < 0"; simp add: list_all_tl)+
    have u: "sub_loop a b borrow = digit_char (nat ?e) # sub_loop (tl a) (tl b) ?b"
      using False by (subst sub_loop.simps) (simp add: Let_def)
    have d: "digit_val (digit_char (nat ?e)) = nat ?e" "is_ascii_digit (digit_char (nat ?e))"
      using e by simp_all
    have "int (rval (sub_loop a b borrow)) = ?e + 10 * int (rval (sub_loop (tl a) (tl b) ?b))"
      unfolding u rval_Cons d using e(1) by simp
    also have "\<dots> = int (rval a) - int (rval b) - borrow"
      unfolding IH(1) using steps by simp
    finally show ?thesis using u d(2) IH(2) by simp
  qed
qed

lemma sub_digits_value:
  assumes "list_all is_ascii_digit a" and "list_all is_ascii_digit b"
    and "digits_val b \<le> digits_val a"
  shows "int (digits_val (sub_digits a b)) = int (digits_val a) - int (digits_val b)"
    and "list_all is_ascii_digit (sub_digits a b)"
proof -
  let ?s = "rev (sub_loop (rev a) (rev b) 0)"
  have r: "list_all is_ascii_digit (rev a)" "list_all is_ascii_digit (rev b)"
    using assms by (simp_all add: list_all_iff)
  have s: "int (digits_val ?s) = int (digits_val a) - int (digits_val b)" "list_all is_ascii_digit ?s"
    using sub_loop_value [OF r, of 0] assms(3) by (simp_all add: list_all_iff)
  have z: "digits_val ''0'' = 0" "list_all is_ascii_digit ''0''"
    by (simp_all add: digits_val_Cons digit_val_def is_ascii_digit_def)
  have t: "digits_val (sub_digits a b) = digits_val ?s"
    using trim_start_val [of ?s] z(1) by (auto simp: sub_digits_def Let_def simp del: trim_start_val)
  with s show "int (digits_val (sub_digits a b)) = int (digits_val a) - int (digits_val b)" by simp
  show "list_all is_ascii_digit (sub_digits a b)"
    using trim_start_digits [OF s(2)] z(2) by (simp add: sub_digits_def Let_def)
qed

lemma text_value_int:
  assumes "i \<noteq> []" and "list_all is_ascii_digit i"
  shows "text_value (sign_of neg @ i) = Some ((if neg then - 1 else 1) * of_nat (digits_val i))"
  by (simp only: text_value_def parse_decimal_int [OF assms]) simp

lemma text_value_point:
  assumes "i \<noteq> []" and "list_all is_ascii_digit i" and "f \<noteq> []" and "list_all is_ascii_digit f"
  shows "text_value (sign_of neg @ i @ ''.'' @ f) =
    Some ((if neg then - 1 else 1) * (of_nat (digits_val i) + frac_val f))"
proof -
  have "10 powi (- int (length f)) = 1 / (10 ^ length f :: rat)"
    by (simp add: power_int_minus divide_inverse)
  then show ?thesis
    by (simp only: text_value_def parse_decimal_point [OF assms])
      (simp add: digits_val_append algebra_simps add_divide_distrib)
qed

lemma place_point_value:
  assumes "list_all is_ascii_digit ds0"
  shows "text_value (place_point neg scale ds0) =
    Some ((if neg then - 1 else 1) * (of_nat (digits_val ds0) / 10 ^ scale))"
proof -
  define ds where "ds = (if length ds0 \<le> scale then pad_left (scale + 1) ds0 else ds0)"
  define i0 f0 where "i0 = take (length ds - scale) ds" and "f0 = drop (length ds - scale) ds"
  define i1 f where "i1 = trim_start_matches CHR ''0'' i0" and "f = trim_end_matches CHR ''0'' f0"
  define i where "i = (if i1 = [] then ''0'' else i1)"
  define sg where "sg = (neg \<and> \<not> (i = ''0'' \<and> f = []))"
  have pp: "place_point neg scale ds0 = (if f = [] then sign_of sg @ i else sign_of sg @ i @ ''.'' @ f)"
    by (simp add: place_point_def Let_def sg_def i_def i1_def i0_def f_def f0_def ds_def)
  have ddig: "list_all is_ascii_digit ds"
    using assms by (auto simp: ds_def pad_left_def list_all_iff is_ascii_digit_def)
  have dval: "digits_val ds = digits_val ds0"
    by (simp add: ds_def pad_left_def digits_val_append)
  have "scale < length ds" by (simp add: ds_def pad_left_def)
  then have flen: "length f0 = scale" by (simp add: f0_def)
  have dsplit: "ds = i0 @ f0" by (simp add: i0_def f0_def)
  have idig0: "list_all is_ascii_digit i0" "list_all is_ascii_digit f0"
    using ddig unfolding dsplit by simp_all
  have zv: "digits_val ''0'' = 0" "list_all is_ascii_digit ''0''"
    by (simp_all add: digits_val_Cons digit_val_def is_ascii_digit_def)
  have idig: "list_all is_ascii_digit i" "list_all is_ascii_digit f" "i \<noteq> []"
    using trim_start_digits [OF idig0(1)] trim_end_digits [OF idig0(2)] zv
    by (simp_all add: i_def i1_def f_def)
  have ival: "digits_val i = digits_val i0"
  proof (cases "i1 = []")
    case True
    then have "digits_val i0 = digits_val []" using trim_start_val [of i0] by (simp add: i1_def)
    with True show ?thesis by (simp add: i_def zv)
  next
    case False
    then show ?thesis by (simp add: i_def i1_def)
  qed
  have val: "of_nat (digits_val i) + frac_val f = of_nat (digits_val ds0) / 10 ^ scale"
    using frac_val_trim_end [of f0]
    by (simp add: ival f_def flen dval [symmetric] dsplit digits_val_append add_divide_distrib)
  have zero: "of_nat (digits_val i) + frac_val f = (0 :: rat)" if "i = ''0'' \<and> f = []"
    using that zv by simp
  have sgn: "(if sg then - 1 else 1) * (of_nat (digits_val i) + frac_val f) =
      (if neg then - 1 else 1) * (of_nat (digits_val i) + frac_val f :: rat)"
    using zero by (cases "i = ''0'' \<and> f = []") (simp_all add: sg_def)
  show ?thesis
  proof (cases "f = []")
    case True
    then have "text_value (place_point neg scale ds0) = Some ((if sg then - 1 else 1) * of_nat (digits_val i))"
      using text_value_int [OF idig(3,1), of sg] by (simp add: pp)
    moreover from val True have "of_nat (digits_val i) = (of_nat (digits_val ds0) / 10 ^ scale :: rat)" by simp
    moreover from sgn True
    have "(if sg then - 1 else 1) * of_nat (digits_val i) = (if neg then - 1 else 1) * (of_nat (digits_val i) :: rat)"
      by simp
    ultimately show ?thesis by (simp only:)
  next
    case False
    then have "text_value (place_point neg scale ds0) = Some ((if sg then - 1 else 1) * (of_nat (digits_val i) + frac_val f))"
      by (simp only: pp if_False text_value_point [OF idig(3,1) False idig(2)])
    also note sgn
    finally show ?thesis by (simp only: val)
  qed
qed

lemma add_numeric_value:
  assumes "add_numeric x y = Some t"
  shows "\<exists>a b. text_value x = Some a \<and> text_value y = Some b \<and> text_value t = Some (a + b)"
proof -
  from assms obtain xn xi xf yn yi yf where p: "decimal_parts x = Some (xn, xi, xf)" "decimal_parts y = Some (yn, yi, yf)"
    by (auto simp: add_numeric_def split: option.splits)
  define k xd yd where "k = max (length xf) (length yf)" and "xd = xi @ pad_right k xf" and "yd = yi @ pad_right k yf"
  have dig: "list_all is_ascii_digit xd" "list_all is_ascii_digit yd"
    using p by (auto simp: xd_def yd_def pad_right_digits elim: decimal_parts_SomeE)
  define a b :: rat where "a = of_nat (digits_val xd) / 10 ^ k" and "b = of_nat (digits_val yd) / 10 ^ k"
  have wide: "of_nat (digits_val (i @ pad_right k f)) / 10 ^ k = of_nat (digits_val i) + frac_val f"
    if "length f \<le> k" for i f
    using that frac_val_pad [OF that] by (simp add: digits_val_append add_divide_distrib)
  have val: "text_value x = Some (if xn then - a else a)" "text_value y = Some (if yn then - b else b)"
    using decimal_parts_value [OF p(1)] decimal_parts_value [OF p(2)] wide [of xf xi] wide [of yf yi]
    by (auto simp: plain_value_def a_def b_def xd_def yd_def k_def)
  have t: "(case (if xn = yn then (xn, add_digits xd yd)
       else case cmp_digits xd yd of Equal \<Rightarrow> (False, ''0'')
         | Greater \<Rightarrow> (xn, sub_digits xd yd) | Less \<Rightarrow> (yn, sub_digits yd xd)) of
       (neg, digits) \<Rightarrow> Some (place_point neg k digits)) = Some t"
    using assms unfolding add_numeric_def k_def xd_def yd_def p Let_def by (simp only: option.case prod.case)
  note cd = cmp_digits_value [OF dig]
  have "text_value t = Some ((if xn then - a else a) + (if yn then - b else b))"
  proof (cases "xn = yn")
    case True
    with t have t': "t = place_point xn k (add_digits xd yd)" by simp
    with True show ?thesis
      by (simp add: place_point_value add_digits_value a_def b_def add_divide_distrib)
  next
    case False
    consider (lt) "digits_val xd < digits_val yd" | (eq) "digits_val xd = digits_val yd" | (gt) "digits_val yd < digits_val xd"
      by linarith
    then show ?thesis
    proof cases
      case lt
      with False t cd have t': "t = place_point yn k (sub_digits yd xd)" by (simp add: cmp_def)
      have "of_int (int (digits_val (sub_digits yd xd))) = (of_nat (digits_val yd) - of_nat (digits_val xd) :: rat)"
        using sub_digits_value(1) [OF dig(2,1)] lt by simp
      then have "(of_nat (digits_val (sub_digits yd xd)) :: rat) / 10 ^ k = b - a"
        by (simp add: a_def b_def diff_divide_distrib)
      with t' False show ?thesis
        using place_point_value [OF sub_digits_value(2) [OF dig(2,1)], of yn k] lt by auto
    next
      case eq
      with False t cd have "t = place_point False k ''0''" by (simp add: cmp_def)
      moreover from eq have "a = b" by (simp add: a_def b_def)
      ultimately show ?thesis
        using False place_point_value [of "''0''" False k]
        by (auto simp: digits_val_Cons digit_val_def is_ascii_digit_def)
    next
      case gt
      with False t cd have t': "t = place_point xn k (sub_digits xd yd)" by (simp add: cmp_def)
      have "of_int (int (digits_val (sub_digits xd yd))) = (of_nat (digits_val xd) - of_nat (digits_val yd) :: rat)"
        using sub_digits_value(1) [OF dig(1,2)] gt by simp
      then have "(of_nat (digits_val (sub_digits xd yd)) :: rat) / 10 ^ k = a - b"
        by (simp add: a_def b_def diff_divide_distrib)
      with t' False show ?thesis
        using place_point_value [OF sub_digits_value(2) [OF dig(1,2)], of xn k] gt by auto
    qed
  qed
  with val show ?thesis by blast
qed

lemma decimal_parts_signed:
  assumes "i \<noteq> [] \<or> f \<noteq> []" and "list_all is_ascii_digit i" and "list_all is_ascii_digit f"
  shows "decimal_parts (sign_of neg @ (if f = [] then i else i @ ''.'' @ f)) = Some (neg, i, f)"
proof -
  let ?s = "if f = [] then i else i @ ''.'' @ f"
  have sg: "c \<noteq> CHR ''-'' \<and> c \<noteq> CHR ''+'' \<and> c \<noteq> CHR ''.'' \<and> no_ws c" if "is_ascii_digit c" for c
    using that by (auto simp: no_ws_def is_ascii_digit_def)
  have ne: "?s \<noteq> []" using assms(1) by auto
  have ends: "hd ?s = CHR ''.'' \<or> is_ascii_digit (hd ?s)" "is_ascii_digit (last ?s)"
    using assms by (auto simp: hd_append list_all_iff)
  have tr: "trim (sign_of neg @ ?s) = sign_of neg @ ?s"
    by (rule trim_id) (use ne ends sg in \<open>auto simp: no_ws_def\<close>)
  obtain c r where cr: "?s = c # r" using ne by (meson neq_Nil_conv)
  have "c \<noteq> CHR ''-''" "c \<noteq> CHR ''+''" using ends(1) sg cr by auto
  then have ss: "split_sign (sign_of neg @ ?s) = (neg, ?s)"
    unfolding cr by (simp add: split_sign_def)
  have tw: "takeWhile (\<lambda>x. x \<noteq> CHR ''.'') i = i" "dropWhile (\<lambda>x. x \<noteq> CHR ''.'') i = []"
    using assms(2) sg by (auto simp: list_all_iff)
  have so: "split_once_or CHR ''.'' ?s = (i, f)"
  proof (cases "f = []")
    case True
    then show ?thesis by (simp only: split_once_or_def if_True tw list.sel(2) True)
  next
    case False
    have "\<forall>x \<in> set i. x \<noteq> CHR ''.''" using assms(2) sg by (auto simp: list_all_iff)
    then have "takeWhile (\<lambda>x. x \<noteq> CHR ''.'') (i @ CHR ''.'' # f) = i"
      "dropWhile (\<lambda>x. x \<noteq> CHR ''.'') (i @ CHR ''.'' # f) = CHR ''.'' # f"
      by (induction i) simp_all
    with False show ?thesis by (simp add: split_once_or_def)
  qed
  show ?thesis
    unfolding decimal_parts_def tr ss Let_def prod.case so using assms by auto
qed

lemma negate_numeric_value:
  assumes "negate_numeric x = Some t"
  shows "\<exists>a. text_value x = Some a \<and> text_value t = Some (- a)"
proof -
  from assms obtain neg i f where p: "decimal_parts x = Some (neg, i, f)"
    by (auto simp: negate_numeric_def split: option.splits)
  let ?fl = "sign_of (\<not> neg) @ (if f = [] then i else i @ ''.'' @ f)"
  have t: "add_numeric ''0'' ?fl = Some t"
    using assms p by (auto simp: negate_numeric_def Let_def split: if_splits)
  from p have "decimal_parts ?fl = Some (\<not> neg, i, f)"
    by (elim decimal_parts_SomeE) (rule decimal_parts_signed)
  from decimal_parts_value [OF this] decimal_parts_value [OF p]
  have "text_value ?fl = Some (- plain_value (neg, i, f))" "text_value x = Some (plain_value (neg, i, f))"
    by (simp_all add: plain_value_def)
  moreover have "text_value ''0'' = Some 0"
    using text_value_int [of "''0''" False] by (simp add: is_ascii_digit_def digits_val_Cons digit_val_def)
  ultimately show ?thesis using add_numeric_value [OF t] by auto
qed

section \<open>Correctness of decimal arithmetic\<close>

text \<open>C18: when two decimal texts add, the result is a text of their exact sum.\<close>

theorem addition_exact:
  assumes "add_numeric x y = Some t"
  shows "\<exists>a b. text_value x = Some a \<and> text_value y = Some b \<and> text_value t = Some (a + b)"
  using assms by (rule add_numeric_value)

theorem addition_exact_witness:
  "\<exists>a b. text_value ''-0.05'' = Some a \<and> text_value ''12.5'' = Some b \<and> text_value ''12.45'' = Some (a + b)"
proof (rule addition_exact)
  show "add_numeric ''-0.05'' ''12.5'' = Some ''12.45''" by code_simp
qed

text \<open>C19: the comparison of two decimal texts is the order of their values.\<close>

theorem comparison_exact:
  assumes "compare_numeric x y = Some c"
  shows "\<exists>a b. text_value x = Some a \<and> text_value y = Some b \<and> c = cmp a b"
  using assms by (rule compare_numeric_value)

theorem comparison_exact_witness:
  "\<exists>a b. text_value ''10'' = Some a \<and> text_value ''9.99'' = Some b \<and> Greater = cmp a b"
proof (rule comparison_exact)
  show "compare_numeric ''10'' ''9.99'' = Some Greater" by code_simp
qed

end
