(* ===== verification/Item_Model.thy ===== *)
theory Item_Model
  imports Ordered_Map Keyspace Decimal
begin

unbundle bit_operations_syntax

text \<open>
  The item model (\<^verbatim>\<open>crates/animus-item/src/lib.rs\<close>): attribute values, items, key schemas, the
  crate's own copy of the escape encoding, and the storage key of an item. The lemmas show that
  storage keys order first by partition key and then by sort key, and that the keys of one
  partition are exactly those under its escaped prefix. The size and depth accounting of
  \<^verbatim>\<open>crates/animus-item/src/size.rs\<close> is here too.
\<close>

section \<open>Values, items and schemas\<close>

datatype AttributeValue =
    S string
  | N string
  | B bytes
  | Bool bool
  | Null
  | M "(string \<times> AttributeValue) list"
  | L "AttributeValue list"
  | SS "string list"
  | NS "string list"
  | BS "bytes list"

type_synonym Item = "(string, AttributeValue) bmap"

fun key_bytes :: "AttributeValue \<Rightarrow> bytes" where
  "key_bytes (S s) = into_bytes s"
| "key_bytes (N n) = (case encode n of Some e \<Rightarrow> e | None \<Rightarrow> into_bytes n)"
| "key_bytes (B b) = b"
| "key_bytes (Bool b) = [if b then 1 else 0]"
| "key_bytes _ = []"

record TableSchema =
  partition_key :: string
  sort_key :: "string option"

definition simple :: "string \<Rightarrow> TableSchema" where
  "simple pk = \<lparr>partition_key = pk, sort_key = None\<rparr>"

definition composite :: "string \<Rightarrow> string \<Rightarrow> TableSchema" where
  "composite pk sk = \<lparr>partition_key = pk, sort_key = Some sk\<rparr>"

text \<open>The item crate's copy of \<^verbatim>\<open>escape\<close>.\<close>

definition item_escape :: "bytes \<Rightarrow> bytes" where
  "item_escape bs = concat (map (\<lambda>b. if b = 0 then [b, 1] else [b]) bs) @ [0, 0]"

definition storage_key :: "AttributeValue \<Rightarrow> AttributeValue option \<Rightarrow> bytes" where
  "storage_key pk sk =
     item_escape (key_bytes pk) @ (case sk of Some sk \<Rightarrow> key_bytes sk | None \<Rightarrow> [])"

section \<open>Order of storage keys\<close>

lemma item_escape_eq: "item_escape bs = escape bs"
  by (induction bs) (simp_all add: item_escape_def)

lemma escape_less_iff:
  "escape a @ x < escape b @ y \<longleftrightarrow> a < b \<or> a = b \<and> x < y"
proof (cases a b rule: linorder_cases)
  case less
  then show ?thesis using escape_append_less [OF less, of x y] by simp
next
  case equal
  then show ?thesis by simp
next
  case greater
  then show ?thesis using escape_append_less [OF greater, of y x] by (auto dest: order.asym)
qed

abbreviation sort_bytes :: "AttributeValue option \<Rightarrow> bytes" where
  "sort_bytes sk \<equiv> (case sk of Some sk \<Rightarrow> key_bytes sk | None \<Rightarrow> [])"

lemma storage_key_less:
  "storage_key pk sk < storage_key pk' sk' \<longleftrightarrow>
     key_bytes pk < key_bytes pk' \<or> key_bytes pk = key_bytes pk' \<and> sort_bytes sk < sort_bytes sk'"
  by (simp add: storage_key_def item_escape_eq escape_less_iff)

lemma storage_key_eq:
  "storage_key pk sk = storage_key pk' sk' \<longleftrightarrow>
     key_bytes pk = key_bytes pk' \<and> sort_bytes sk = sort_bytes sk'"
  by (simp add: storage_key_def item_escape_eq escape_append_inject)

lemma partition_prefix:
  "prefix (item_escape (key_bytes pk)) (storage_key pk' sk) \<longleftrightarrow> key_bytes pk = key_bytes pk'"
  using escape_prefix [of "key_bytes pk" "key_bytes pk'"]
  by (auto simp: storage_key_def item_escape_eq)

section \<open>Sizes and depths\<close>

definition MAX_ITEM_SIZE_BYTES :: nat where "MAX_ITEM_SIZE_BYTES = 409600"

text \<open>\<^verbatim>\<open>position\<close> and \<^verbatim>\<open>rposition\<close> of the first and last element that is not \<open>z\<close>.\<close>

fun position_ne :: "'a \<Rightarrow> 'a list \<Rightarrow> nat option" where
  "position_ne z [] = None"
| "position_ne z (x # xs) = (if x \<noteq> z then Some 0 else map_option Suc (position_ne z xs))"

definition rposition_ne :: "'a \<Rightarrow> 'a list \<Rightarrow> nat option" where
  "rposition_ne z xs = map_option (\<lambda>i. length xs - 1 - i) (position_ne z (rev xs))"

definition starts_with_char :: "char \<Rightarrow> string \<Rightarrow> bool" where
  "starts_with_char c s \<longleftrightarrow> strip_prefix c s \<noteq> None"

definition number_size :: "string \<Rightarrow> nat" where
  "number_size text =
     (let negative = starts_with_char CHR ''-'' text;
          digits = filter is_ascii_digit text;
          significant = (case position_ne CHR ''0'' digits of
                           None \<Rightarrow> 0
                         | Some start \<Rightarrow>
                             (case rposition_ne CHR ''0'' digits of
                                None \<Rightarrow> 0
                              | Some end_pos \<Rightarrow> end_pos - start + 1))
      in if significant = 0 then 1
         else (significant + 1) div 2 + 1 + (if negative then 1 else 0))"

fun value_size :: "AttributeValue \<Rightarrow> nat" where
  "value_size (S s) = length s"
| "value_size (N n) = number_size n"
| "value_size (B b) = length b"
| "value_size (Bool _) = 1"
| "value_size Null = 1"
| "value_size (L items) = 3 + sum_list (map (\<lambda>v. value_size v + 3) items)"
| "value_size (M m) = 3 + sum_list (map (\<lambda>kv. length (fst kv) + value_size (snd kv) + 3) m)"
| "value_size (SS ss) = sum_list (map length ss)"
| "value_size (NS ns) = sum_list (map number_size ns)"
| "value_size (BS bs) = sum_list (map length bs)"

definition item_size :: "Item \<Rightarrow> nat" where
  "item_size item = sum_list (map (\<lambda>(name, value). length name + value_size value) item)"

definition MAX_NESTING_DEPTH :: nat where "MAX_NESTING_DEPTH = 32"

text \<open>\<^verbatim>\<open>max().unwrap_or(0)\<close>.\<close>

definition max_or_zero :: "nat list \<Rightarrow> nat" where
  "max_or_zero xs = fold max xs 0"

fun value_depth :: "AttributeValue \<Rightarrow> nat" where
  "value_depth (L items) = 1 + max_or_zero (map value_depth items)"
| "value_depth (M m) = 1 + max_or_zero (map (\<lambda>kv. value_depth (snd kv)) m)"
| "value_depth _ = 1"

definition item_depth :: "Item \<Rightarrow> nat" where
  "item_depth item = max_or_zero (map (\<lambda>(_, v). value_depth v) item)"

lemma max_or_zero_Max: "max_or_zero xs = Max (insert 0 (set xs))"
  unfolding max_or_zero_def Max.set_eq_fold [symmetric] by simp

lemma max_or_zero_le: "max_or_zero xs \<le> n \<longleftrightarrow> (\<forall>x \<in> set xs. x \<le> n)"
  by (auto simp: max_or_zero_Max)

lemma position_ne_Some:
  "position_ne z xs = Some i \<Longrightarrow> i = length xs - length (dropWhile (\<lambda>x. x = z) xs) \<and> dropWhile (\<lambda>x. x = z) xs \<noteq> []"
proof (induction xs arbitrary: i)
  case Nil
  then show ?case by simp
next
  case (Cons x xs)
  have "length (dropWhile (\<lambda>x. x = z) xs) \<le> length xs" by (rule length_dropWhile_le)
  with Cons show ?case by (auto simp: Suc_diff_le split: if_splits)
qed

lemma position_ne_None: "position_ne z xs = None \<longleftrightarrow> dropWhile (\<lambda>x. x = z) xs = []"
  by (induction xs) auto

lemma dropWhile_witness: "dropWhile P xs \<noteq> [] \<Longrightarrow> \<exists>x \<in> set (dropWhile P xs). \<not> P x"
  by (metis hd_dropWhile hd_in_set)

lemma dropWhile_rev_Nil: "dropWhile P (rev (dropWhile P xs)) = [] \<longleftrightarrow> dropWhile P xs = []"
  by (metis dropWhile_eq_Nil_conv dropWhile_witness rev.simps(1) dropWhile.simps(1) set_rev)

lemma dropWhile_trim:
  assumes "dropWhile (\<lambda>x. x = z) xs \<noteq> []"
  shows "length (dropWhile (\<lambda>x. x = z) (rev (dropWhile (\<lambda>x. x = z) xs)))
    = length (dropWhile (\<lambda>x. x = z) (rev xs)) - (length xs - length (dropWhile (\<lambda>x. x = z) xs))"
proof -
  define t w where "t = takeWhile (\<lambda>x. x = z) xs" and "w = dropWhile (\<lambda>x. x = z) xs"
  have xs: "xs = t @ w" by (simp add: t_def w_def)
  have w: "\<exists>x \<in> set (rev w). \<not> x = z"
    using dropWhile_witness [OF assms] by (simp add: w_def)
  have "dropWhile (\<lambda>x. x = z) (rev xs) = dropWhile (\<lambda>x. x = z) (rev w) @ rev t"
    using w by (auto simp: xs dropWhile_append1)
  then have "length (dropWhile (\<lambda>x. x = z) (rev xs)) = length (dropWhile (\<lambda>x. x = z) (rev w)) + length t"
    by simp
  then show ?thesis unfolding w_def [symmetric] by (simp add: xs)
qed

lemma significant_span:
  assumes "position_ne z xs = Some s" and "rposition_ne z xs = Some l"
  shows "l - s + 1 = length (rev (dropWhile (\<lambda>x. x = z) (rev (dropWhile (\<lambda>x. x = z) xs))))"
proof -
  let ?d = "dropWhile (\<lambda>x. x = z)"
  from assms(1) have s: "s = length xs - length (?d xs)" and ne: "?d xs \<noteq> []"
    using position_ne_Some by fastforce+
  from assms(2) obtain j where j: "position_ne z (rev xs) = Some j" "l = length xs - 1 - j"
    by (auto simp: rposition_ne_def)
  from position_ne_Some [OF j(1)] have jj: "j = length xs - length (?d (rev xs))" "?d (rev xs) \<noteq> []"
    by simp_all
  have b: "length (?d (rev xs)) \<le> length xs" "length (?d xs) \<le> length xs"
    using length_dropWhile_le [of _ "rev xs"] length_dropWhile_le by (simp, metis)
  have t: "length (?d (rev (?d xs))) = length (?d (rev xs)) - s"
    using dropWhile_trim [OF ne] s by simp
  have "?d (rev (?d xs)) \<noteq> []"
    using ne by (simp only: dropWhile_rev_Nil not_False_eq_True)
  then have p: "0 < length (?d (rev (?d xs)))" by simp
  show ?thesis using s jj j(2) b t p by simp
qed

text \<open>
  The size of a plain decimal depends only on its canonical form: one byte per two significant
  digits, one of overhead, one more for a negative number.
\<close>

lemma filter_digits_plain:
  assumes "decimal_parts t = Some (neg, i, f)" and "trim t = t"
  shows "filter is_ascii_digit t = i @ f" and "starts_with_char CHR ''-'' t = neg"
proof -
  from assms(1) obtain rest where s: "split_sign t = (neg, rest)"
    and d: "list_all is_ascii_digit i" "list_all is_ascii_digit f"
    and r: "rest = i \<and> f = [] \<or> rest = i @ CHR ''.'' # f"
    using assms(2) by (metis decimal_parts_SomeE)
  have fr: "filter is_ascii_digit rest = i @ f"
    using r d by (auto simp: filter_id_conv list_all_iff is_ascii_digit_def)
  have "t = rest \<or> t = CHR ''-'' # rest \<or> t = CHR ''+'' # rest" "starts_with_char CHR ''-'' t = neg"
    using s by (cases t; auto simp: split_sign_def starts_with_char_def split: if_splits)+
  with fr show "filter is_ascii_digit t = i @ f" "starts_with_char CHR ''-'' t = neg"
    by (auto simp: is_ascii_digit_def)
qed

lemma number_size_canonical:
  assumes "decimal_parts t \<noteq> None" and "trim t = t" and "canonicalize t = Some (neg, ex, ds)"
  shows "number_size t = (if ds = [] then 1 else (length ds + 1) div 2 + 1 + (if neg then 1 else 0))"
proof -
  from assms(1) obtain n0 i f where p: "decimal_parts t = Some (n0, i, f)" by auto
  note fd = filter_digits_plain [OF p assms(2)]
  let ?d = "dropWhile (\<lambda>c. c = CHR ''0'')" and ?ds = "trim_end_matches CHR ''0'' (dropWhile (\<lambda>c. c = CHR ''0'') (i @ f))"
  from assms(3) decimal_parts_parse [OF p] have ds: "ds = map digit_val ?ds" and ng: "?ds \<noteq> [] \<Longrightarrow> neg = n0"
    by (auto elim!: canonicalize_SomeE split: if_splits)
  show ?thesis
  proof (cases "?ds = []")
    case True
    then have "?d (i @ f) = []"
      by (simp only: trim_end_matches_def rev_is_Nil_conv dropWhile_rev_Nil)
    then have "position_ne CHR ''0'' (i @ f) = None" by (simp only: position_ne_None)
    with True ds show ?thesis by (simp add: number_size_def fd)
  next
    case False
    then have "?d (i @ f) \<noteq> []"
      by (simp only: trim_end_matches_def rev_is_Nil_conv dropWhile_rev_Nil not_False_eq_True)
    then obtain s where s: "position_ne CHR ''0'' (i @ f) = Some s"
      by (metis position_ne_None not_None_eq)
    have "?d (rev (i @ f)) \<noteq> []"
      using \<open>?d (i @ f) \<noteq> []\<close> by (simp only: dropWhile_eq_Nil_conv set_rev not_False_eq_True)
    then obtain l where l: "rposition_ne CHR ''0'' (i @ f) = Some l"
      by (metis position_ne_None rposition_ne_def not_None_eq option.map_disc_iff)
    have "l - s + 1 = length ?ds"
      using significant_span [OF s l] by (simp only: trim_end_matches_def)
    with False ds ng s l show ?thesis by (simp add: number_size_def fd Let_def)
  qed
qed

section \<open>Correctness of item keys\<close>

text \<open>C24: storage keys sort by partition key and then by sort key, in the byte order of the two key
  encodings, and two items share a storage key only when both keys agree.\<close>

theorem storage_key_order:
  "(storage_key pk sk < storage_key pk' sk' \<longleftrightarrow>
      key_bytes pk < key_bytes pk' \<or> key_bytes pk = key_bytes pk' \<and> sort_bytes sk < sort_bytes sk') \<and>
   (storage_key pk sk = storage_key pk' sk' \<longleftrightarrow> key_bytes pk = key_bytes pk' \<and> sort_bytes sk = sort_bytes sk')"
  using storage_key_less storage_key_eq by blast

end
