(* ===== verification/Condition.thy ===== *)
theory Condition
  imports Item_Model
begin

unbundle bit_operations_syntax

text \<open>
  Sort-key conditions and condition expressions (\<^verbatim>\<open>crates/animus-item/src/condition.rs\<close>). The
  evaluator returns \<open>Inl\<close> an operand-type error or \<open>Inr\<close> the truth value. The lemmas show that
  sort keys compare by value whatever their spelling, that a condition on stored key bytes is the
  condition on the value they encode, and what an evaluation can depend on.
\<close>

section \<open>Comparators\<close>

datatype Comparator = Eq | Ne | Lt | Le | Gt | Ge

fun holds_ord :: "Comparator \<Rightarrow> Ordering \<Rightarrow> bool" where
  "holds_ord Eq ord = (ord = Equal)"
| "holds_ord Ne ord = (ord \<noteq> Equal)"
| "holds_ord Lt ord = (ord = Less)"
| "holds_ord Le ord = (ord \<noteq> Greater)"
| "holds_ord Gt ord = (ord = Greater)"
| "holds_ord Ge ord = (ord \<noteq> Less)"

definition holds :: "Comparator \<Rightarrow> Ordering option \<Rightarrow> bool" where
  "holds op ord = (case ord of None \<Rightarrow> False | Some ord \<Rightarrow> holds_ord op ord)"

definition compare_values :: "AttributeValue \<Rightarrow> AttributeValue \<Rightarrow> Ordering option" where
  "compare_values a b =
     (case (a, b) of
        (N x, N y) \<Rightarrow> compare_numeric x y
      | (S x, S y) \<Rightarrow> Some (cmp (into_bytes x) (into_bytes y))
      | (B x, B y) \<Rightarrow> Some (cmp x y)
      | _ \<Rightarrow> None)"

definition values_equal :: "AttributeValue \<Rightarrow> AttributeValue \<Rightarrow> bool" where
  "values_equal a b = (case compare_values a b of Some ord \<Rightarrow> ord = Equal | None \<Rightarrow> a = b)"

section \<open>Sort-key conditions\<close>

datatype SortKeyCondition =
    SkCompare Comparator AttributeValue
  | SkBetween AttributeValue AttributeValue
  | SkBeginsWith AttributeValue

definition sort_key_cmp :: "AttributeValue \<Rightarrow> AttributeValue \<Rightarrow> Ordering" where
  "sort_key_cmp a b =
     (case (a, b) of
        (N x, N y) \<Rightarrow>
          (case compare_numeric x y of
             Some ord \<Rightarrow> ord
           | None \<Rightarrow> cmp (key_bytes a) (key_bytes b))
      | _ \<Rightarrow> cmp (key_bytes a) (key_bytes b))"

fun matches :: "SortKeyCondition \<Rightarrow> AttributeValue \<Rightarrow> bool" where
  "matches (SkCompare op target) v = holds op (Some (sort_key_cmp v target))"
| "matches (SkBetween lo hi) v = (sort_key_cmp v lo \<noteq> Less \<and> sort_key_cmp v hi \<noteq> Greater)"
| "matches (SkBeginsWith pre) v = prefix (key_bytes pre) (key_bytes v)"

fun is_n :: "AttributeValue \<Rightarrow> bool" where
  "is_n (N _) = True"
| "is_n _ = False"

fun is_numeric :: "SortKeyCondition \<Rightarrow> bool" where
  "is_numeric (SkCompare _ v) = is_n v"
| "is_numeric (SkBetween lo hi) = (is_n lo \<or> is_n hi)"
| "is_numeric (SkBeginsWith _) = False"

definition matches_raw :: "SortKeyCondition \<Rightarrow> bytes \<Rightarrow> bool" where
  "matches_raw cond raw =
     (let value = (if is_numeric cond then
                     (case decode raw of Some text \<Rightarrow> N text | None \<Rightarrow> B raw)
                   else B raw)
      in matches cond value)"

section \<open>Type codes and sizes\<close>

fun type_code :: "AttributeValue \<Rightarrow> string" where
  "type_code (S _) = ''S''"
| "type_code (N _) = ''N''"
| "type_code (B _) = ''B''"
| "type_code (Bool _) = ''BOOL''"
| "type_code Null = ''NULL''"
| "type_code (M _) = ''M''"
| "type_code (L _) = ''L''"
| "type_code (SS _) = ''SS''"
| "type_code (NS _) = ''NS''"
| "type_code (BS _) = ''BS''"

fun operand_type_codes :: "SortKeyCondition \<Rightarrow> string list" where
  "operand_type_codes (SkCompare _ v) = [type_code v]"
| "operand_type_codes (SkBetween lo hi) = [type_code lo, type_code hi]"
| "operand_type_codes (SkBeginsWith v) = [type_code v]"

fun size_of :: "AttributeValue \<Rightarrow> nat option" where
  "size_of (S s) = Some (length s)"
| "size_of (B b) = Some (length b)"
| "size_of (M m) = Some (length m)"
| "size_of (L l) = Some (length l)"
| "size_of (SS v) = Some (length v)"
| "size_of (NS v) = Some (length v)"
| "size_of (BS v) = Some (length v)"
| "size_of _ = None"

section \<open>Condition expressions\<close>

text \<open>The error carries the function and the operand type its message names.\<close>

datatype ConditionError = InvalidOperandType string string

definition invalid_operand_type :: "string \<Rightarrow> AttributeValue \<Rightarrow> ConditionError" where
  "invalid_operand_type fn actual = InvalidOperandType fn (type_code actual)"

datatype ConditionExpression =
    AttributeNotExists string
  | AttributeExists string
  | Compare string Comparator AttributeValue
  | Between string AttributeValue AttributeValue
  | In string "AttributeValue list"
  | BeginsWith string AttributeValue
  | Contains string AttributeValue
  | AttributeType string string
  | Size string Comparator AttributeValue
  | And ConditionExpression ConditionExpression
  | Or ConditionExpression ConditionExpression
  | Not ConditionExpression

text \<open>\<^verbatim>\<open>slice::windows\<close> and the two uses of it: byte subsequence and substring.\<close>

definition windows :: "nat \<Rightarrow> 'a list \<Rightarrow> 'a list list" where
  "windows n v = map (\<lambda>i. take n (drop i v)) [0 ..< length v + 1 - n]"

definition contains_window :: "'a list \<Rightarrow> 'a list \<Rightarrow> bool" where
  "contains_window v needle \<longleftrightarrow> needle = [] \<or> needle \<in> set (windows (length needle) v)"

text \<open>The arms of \<^verbatim>\<open>begins_with\<close> and \<^verbatim>\<open>contains\<close> on an attribute that exists.\<close>

definition eval_begins_with :: "AttributeValue \<Rightarrow> AttributeValue \<Rightarrow> ConditionError + bool" where
  "eval_begins_with actual pre =
     (case actual of
        S v \<Rightarrow> Inr (case pre of S p \<Rightarrow> prefix p v | _ \<Rightarrow> False)
      | B v \<Rightarrow> Inr (case pre of B p \<Rightarrow> prefix p v | _ \<Rightarrow> False)
      | _ \<Rightarrow> Inl (invalid_operand_type ''begins_with'' actual))"

definition eval_contains :: "AttributeValue \<Rightarrow> AttributeValue \<Rightarrow> ConditionError + bool" where
  "eval_contains actual operand =
     (case actual of
        S v \<Rightarrow> Inr (case operand of S needle \<Rightarrow> contains_window v needle | _ \<Rightarrow> False)
      | B v \<Rightarrow> Inr (case operand of B needle \<Rightarrow> contains_window v needle | _ \<Rightarrow> False)
      | SS vs \<Rightarrow> Inr (case operand of S needle \<Rightarrow> needle \<in> set vs | _ \<Rightarrow> False)
      | NS vs \<Rightarrow> Inr (case operand of
                         N needle \<Rightarrow> list_ex (\<lambda>v. compare_numeric v needle = Some Equal) vs
                       | _ \<Rightarrow> False)
      | BS vs \<Rightarrow> Inr (case operand of B needle \<Rightarrow> needle \<in> set vs | _ \<Rightarrow> False)
      | L items \<Rightarrow> Inr (list_ex (\<lambda>i. values_equal i operand) items)
      | _ \<Rightarrow> Inl (invalid_operand_type ''contains'' actual))"

abbreviation get_attr :: "Item option \<Rightarrow> string \<Rightarrow> AttributeValue option" where
  "get_attr current attr \<equiv> Option.bind current (\<lambda>item. bm_get item attr)"

fun evaluate :: "ConditionExpression \<Rightarrow> Item option \<Rightarrow> ConditionError + bool" where
  "evaluate (AttributeNotExists attr) current =
     Inr (case current of None \<Rightarrow> True | Some item \<Rightarrow> \<not> bm_contains item attr)"
| "evaluate (AttributeExists attr) current =
     Inr (case current of None \<Rightarrow> False | Some item \<Rightarrow> bm_contains item attr)"
| "evaluate (Compare attr op value) current =
     (case get_attr current attr of
        None \<Rightarrow> Inr False
      | Some actual \<Rightarrow>
          Inr (case op of
                 Eq \<Rightarrow> values_equal actual value
               | Ne \<Rightarrow> \<not> values_equal actual value
               | _ \<Rightarrow> holds op (compare_values actual value)))"
| "evaluate (Between attr lo hi) current =
     (case get_attr current attr of
        None \<Rightarrow> Inr False
      | Some actual \<Rightarrow>
          Inr (holds Ge (compare_values actual lo) \<and> holds Le (compare_values actual hi)))"
| "evaluate (In attr values) current =
     Inr (case get_attr current attr of
            None \<Rightarrow> False
          | Some actual \<Rightarrow> list_ex (\<lambda>v. values_equal actual v) values)"
| "evaluate (BeginsWith attr pre) current =
     (case get_attr current attr of None \<Rightarrow> Inr False | Some actual \<Rightarrow> eval_begins_with actual pre)"
| "evaluate (Contains attr operand) current =
     (case get_attr current attr of None \<Rightarrow> Inr False | Some actual \<Rightarrow> eval_contains actual operand)"
| "evaluate (AttributeType attr code) current =
     Inr (case get_attr current attr of None \<Rightarrow> False | Some actual \<Rightarrow> type_code actual = code)"
| "evaluate (Size attr op value) current =
     (case get_attr current attr of
        None \<Rightarrow> Inr False
      | Some actual \<Rightarrow>
          (case size_of actual of
             None \<Rightarrow> Inl (invalid_operand_type ''size'' actual)
           | Some sz \<Rightarrow> Inr (holds op (compare_values (N (to_string sz)) value))))"
| "evaluate (And a b) current =
     (case evaluate a current of
        Inl e \<Rightarrow> Inl e
      | Inr x \<Rightarrow> if x then evaluate b current else Inr False)"
| "evaluate (Or a b) current =
     (case evaluate a current of
        Inl e \<Rightarrow> Inl e
      | Inr x \<Rightarrow> if x then Inr True else evaluate b current)"
| "evaluate (Not a) current =
     (case evaluate a current of Inl e \<Rightarrow> Inl e | Inr x \<Rightarrow> Inr (\<not> x))"

section \<open>Sort keys compare by value\<close>

lemma sort_key_cmp_value:
  assumes "encode x = Some ex" and "encode y = Some ey"
  shows "\<exists>a b. text_value x = Some a \<and> text_value y = Some b \<and>
           sort_key_cmp (N x) (N y) = cmp a b \<and> cmp ex ey = cmp a b"
proof -
  from encode_less [OF assms] encode_less [OF assms(2,1)]
  obtain a b where v: "text_value x = Some a" "text_value y = Some b"
    and l: "ex < ey \<longleftrightarrow> a < b" "ey < ex \<longleftrightarrow> b < a" by auto
  from l have c: "cmp ex ey = cmp a b" by (rule cmp_eqI)
  show ?thesis
  proof (cases "compare_numeric x y")
    case None
    with v c assms show ?thesis by (auto simp: sort_key_cmp_def)
  next
    case (Some ord)
    with compare_numeric_value [OF this] v c show ?thesis by (auto simp: sort_key_cmp_def)
  qed
qed

lemma sort_key_cmp_bytes:
  assumes "encode x \<noteq> None" and "encode y \<noteq> None"
  shows "sort_key_cmp (N x) (N y) = cmp (key_bytes (N x)) (key_bytes (N y))"
proof -
  from assms obtain ex ey where e: "encode x = Some ex" "encode y = Some ey" by auto
  from sort_key_cmp_value [OF e] e show ?thesis by auto
qed

lemma canonicalize_encode: "canonicalize t = canonicalize n \<Longrightarrow> encode t = encode n"
  by (simp add: encode_def)

text \<open>Both operands of the condition are encodable numbers.\<close>

definition encodable :: "AttributeValue \<Rightarrow> bool" where
  "encodable v \<longleftrightarrow> (case v of N y \<Rightarrow> encode y \<noteq> None | _ \<Rightarrow> False)"

fun numeric_operands :: "SortKeyCondition \<Rightarrow> bool" where
  "numeric_operands (SkCompare _ v) = encodable v"
| "numeric_operands (SkBetween lo hi) = (encodable lo \<and> encodable hi)"
| "numeric_operands (SkBeginsWith _) = False"

lemma matches_raw_number:
  assumes "encode n = Some e" and "numeric_operands cond"
  shows "matches_raw cond e = matches cond (N n)"
proof -
  from decode_encode [OF assms(1)] obtain t where t: "decode e = Some t" "encode t = Some e"
    using canonicalize_encode assms(1) by metis
  have same: "sort_key_cmp (N t) y = sort_key_cmp (N n) y" if "encodable y" for y
    using that t(2) assms(1) by (auto simp: encodable_def sort_key_cmp_bytes split: AttributeValue.splits)
  have "is_n v" if "encodable v" for v using that by (auto simp: encodable_def split: AttributeValue.splits)
  then have "is_numeric cond" using assms(2) by (cases cond) simp_all
  then show ?thesis
    using assms(2) same t(1) by (cases cond) (simp_all add: matches_raw_def)
qed

section \<open>Evaluation\<close>

lemma contains_window_sublist: "contains_window v needle \<longleftrightarrow> sublist needle v"
proof
  assume "contains_window v needle"
  then consider "needle = []" | i where "needle = take (length needle) (drop i v)"
    by (auto simp: contains_window_def windows_def)
  then show "sublist needle v"
  proof cases
    case 1
    then show ?thesis by simp
  next
    case 2
    have "v = take i v @ take (length needle) (drop i v) @ drop (length needle) (drop i v)"
      by (metis append_take_drop_id)
    with 2 show ?thesis by (metis sublist_def)
  qed
next
  assume "sublist needle v"
  then obtain a b where v: "v = a @ needle @ b" by (auto simp: sublist_def)
  then have "needle = take (length needle) (drop (length a) v)" "length a < length v + 1 - length needle"
    by simp_all
  then show "contains_window v needle"
    unfolding contains_window_def windows_def set_map set_upt image_iff
    by (intro disjI2 bexI [of _ "length a"]) simp_all
qed

text \<open>The attributes an expression names.\<close>

fun attrs :: "ConditionExpression \<Rightarrow> string set" where
  "attrs (AttributeNotExists a) = {a}"
| "attrs (AttributeExists a) = {a}"
| "attrs (Compare a _ _) = {a}"
| "attrs (Between a _ _) = {a}"
| "attrs (In a _) = {a}"
| "attrs (BeginsWith a _) = {a}"
| "attrs (Contains a _) = {a}"
| "attrs (AttributeType a _) = {a}"
| "attrs (Size a _ _) = {a}"
| "attrs (And c d) = attrs c \<union> attrs d"
| "attrs (Or c d) = attrs c \<union> attrs d"
| "attrs (Not c) = attrs c"

lemma evaluate_local:
  assumes "\<forall>a \<in> attrs c. get_attr cur a = get_attr cur' a"
  shows "evaluate c cur = evaluate c cur'"
  using assms
proof (induction c)
  case (AttributeNotExists a)
  then show ?case by (cases cur; cases cur') (auto simp: bm_contains_def)
next
  case (AttributeExists a)
  then show ?case by (cases cur; cases cur') (auto simp: bm_contains_def)
qed (auto split: sum.splits)

lemma evaluate_absent: "\<exists>b. evaluate c None = Inr b"
  by (induction c) (auto split: if_splits)

text \<open>The operand types each function accepts.\<close>

definition in_domain :: "string \<Rightarrow> AttributeValue \<Rightarrow> bool" where
  "in_domain fn v \<longleftrightarrow>
     (if fn = ''size'' then \<not> (type_code v \<in> {''N'', ''BOOL'', ''NULL''})
      else if fn = ''begins_with'' then type_code v \<in> {''S'', ''B''}
      else \<not> (type_code v \<in> {''N'', ''BOOL'', ''NULL'', ''M''}))"

lemma evaluate_error:
  assumes "evaluate c cur = Inl (InvalidOperandType fn ty)"
  shows "\<exists>a \<in> attrs c. \<exists>v. get_attr cur a = Some v \<and> ty = type_code v \<and> \<not> in_domain fn v"
  using assms
proof (induction c)
  case (BeginsWith a p)
  then obtain x where x: "get_attr cur a = Some x" "eval_begins_with x p = Inl (InvalidOperandType fn ty)"
    by (auto split: option.splits)
  then show ?case by (cases x) (auto simp: eval_begins_with_def invalid_operand_type_def in_domain_def)
next
  case (Contains a p)
  then obtain x where x: "get_attr cur a = Some x" "eval_contains x p = Inl (InvalidOperandType fn ty)"
    by (auto split: option.splits)
  then show ?case by (cases x) (auto simp: eval_contains_def invalid_operand_type_def in_domain_def)
next
  case (Size a op v)
  then obtain x where x: "get_attr cur a = Some x" "size_of x = None" "fn = ''size''" "ty = type_code x"
    by (auto simp: invalid_operand_type_def split: option.splits)
  then show ?case by (cases x) (simp_all add: in_domain_def)
next
  case (And c d)
  then show ?case by (cases "evaluate c cur") (auto split: if_splits)
next
  case (Or c d)
  then show ?case by (cases "evaluate c cur") (auto split: if_splits)
next
  case (Not c)
  then show ?case by (cases "evaluate c cur") auto
qed (simp_all split: option.splits)

section \<open>Correctness of conditions\<close>

text \<open>C22: a sort-key condition evaluated on the stored bytes of a number key gives the same verdict as
  on the number itself.\<close>

theorem raw_condition_agrees:
  assumes "encode n = Some e" and "numeric_operands cond"
  shows "matches_raw cond e = matches cond (N n)"
  using assms by (rule matches_raw_number)

theorem raw_condition_agrees_witness:
  "matches_raw (SkBetween (N ''-1'') (N ''2.50'')) (the (encode ''2.5'')) =
     matches (SkBetween (N ''-1'') (N ''2.50'')) (N ''2.5'')"
proof (rule raw_condition_agrees)
  show "encode ''2.5'' = Some (the (encode ''2.5''))" by code_simp
  show "numeric_operands (SkBetween (N ''-1'') (N ''2.50''))" by code_simp
qed

text \<open>C23: a condition fails with an operand-type error only for a present attribute whose type the
  function does not take, and an absent item never causes an error.\<close>

theorem condition_error_sound:
  assumes "evaluate c cur = Inl (InvalidOperandType fn ty)"
  shows "cur \<noteq> None \<and> (\<exists>a \<in> attrs c. \<exists>v. get_attr cur a = Some v \<and> ty = type_code v \<and> \<not> in_domain fn v)"
  using evaluate_error [OF assms] evaluate_absent [of c] assms by (metis Inl_Inr_False)

theorem condition_error_sound_witness:
  "Some [(''n'', N ''5'')] \<noteq> None \<and>
    (\<exists>a \<in> attrs (Size ''n'' Eq (N ''1'')). \<exists>v. get_attr (Some [(''n'', N ''5'')]) a = Some v \<and>
       ''N'' = type_code v \<and> \<not> in_domain ''size'' v)"
proof (rule condition_error_sound)
  show "evaluate (Size ''n'' Eq (N ''1'')) (Some [(''n'', N ''5'')]) = Inl (InvalidOperandType ''size'' ''N'')"
    by code_simp
qed

end
