(* ===== verification/Update.thy ===== *)
theory Update
  imports Condition
begin

unbundle bit_operations_syntax

text \<open>
  The update-expression evaluator (\<^verbatim>\<open>crates/animus-item/src/update.rs\<close>): document paths, operands,
  \<^verbatim>\<open>SET\<close>, \<^verbatim>\<open>REMOVE\<close>, \<^verbatim>\<open>ADD\<close> and \<^verbatim>\<open>DELETE\<close>, and the post-fold size and depth limits. An error is
  \<open>Inl\<close> of the message's kind with the data the message names. The lemmas show what a write through
  a document path changes and what it leaves alone, that the evaluator keeps items well formed,
  that \<^verbatim>\<open>ADD\<close> is exact, and that an accepted result is within the limits.
\<close>

section \<open>Expressions\<close>

datatype PathSegment = Field string | Index nat

datatype UpdateOperand =
    Value AttributeValue
  | Path "PathSegment list"
  | IfNotExists "PathSegment list" UpdateOperand
  | ListAppend UpdateOperand UpdateOperand

datatype UpdateExpr =
    Operand UpdateOperand
  | AddExpr UpdateOperand UpdateOperand
  | SubExpr UpdateOperand UpdateOperand

datatype UpdateAction =
    Set "PathSegment list" UpdateExpr
  | Remove "PathSegment list"
  | Add "PathSegment list" AttributeValue
  | Delete "PathSegment list" AttributeValue

text \<open>The rendering of a path in messages; \<open>first\<close> is true for the segment at index 0.\<close>

fun format_segments :: "bool \<Rightarrow> PathSegment list \<Rightarrow> string" where
  "format_segments first [] = []"
| "format_segments first (Field name # rest) =
     (if first then [] else ''.'') @ name @ format_segments False rest"
| "format_segments first (Index n # rest) =
     ''['' @ to_string n @ '']'' @ format_segments False rest"

definition format_update_path :: "PathSegment list \<Rightarrow> string" where
  "format_update_path path = format_segments True path"

text \<open>One constructor per message of the code; every one is a \<^verbatim>\<open>ValidationException\<close>.\<close>

datatype UpdateError =
    InvalidPath
  | MissingAttribute
  | ArithmeticOperands string
  | ListAppendMissing
  | ListAppendNotLists
  | AddNotNumbers string string string
  | AddTypes string string string
  | DeleteTypes string string string
  | EmptySet string
  | ItemTooLarge
  | NestingTooDeep

section \<open>Document paths\<close>

fun get_steps :: "AttributeValue \<Rightarrow> PathSegment list \<Rightarrow> AttributeValue option" where
  "get_steps cur [] = Some cur"
| "get_steps cur (Field name # rest) =
     (case cur of
        M m \<Rightarrow> (case bm_get m name of Some x \<Rightarrow> get_steps x rest | None \<Rightarrow> None)
      | _ \<Rightarrow> None)"
| "get_steps cur (Index idx # rest) =
     (case cur of
        L l \<Rightarrow> if idx < length l then get_steps (l ! idx) rest else None
      | _ \<Rightarrow> None)"

definition get_document_path :: "Item \<Rightarrow> PathSegment list \<Rightarrow> AttributeValue option" where
  "get_document_path item path =
     (case path of
        Field first # segments \<Rightarrow>
          (case bm_get item first of Some cur \<Rightarrow> get_steps cur segments | None \<Rightarrow> None)
      | _ \<Rightarrow> None)"

fun set_into_container :: "AttributeValue \<Rightarrow> PathSegment list \<Rightarrow> AttributeValue \<Rightarrow> AttributeValue" where
  "set_into_container c [] v = c"
| "set_into_container c (Field name # rest) v =
     (case c of
        M m \<Rightarrow>
          if rest = [] then M (bm_insert name v m)
          else (case bm_get m name of
                  Some parent \<Rightarrow> M (bm_insert name (set_into_container parent rest v) m)
                | None \<Rightarrow> c)
      | _ \<Rightarrow> c)"
| "set_into_container c (Index idx # rest) v =
     (case c of
        L l \<Rightarrow>
          if rest = [] then L (if idx < length l then l[idx := v] else l @ [v])
          else if idx < length l then L (l[idx := set_into_container (l ! idx) rest v])
          else c
      | _ \<Rightarrow> c)"

definition set_document_path :: "Item \<Rightarrow> PathSegment list \<Rightarrow> AttributeValue \<Rightarrow> Item" where
  "set_document_path item path v =
     (case path of
        Field name # rest \<Rightarrow>
          if rest = [] then bm_insert name v item
          else (case bm_get item name of
                  Some parent \<Rightarrow> bm_insert name (set_into_container parent rest v) item
                | None \<Rightarrow> item)
      | _ \<Rightarrow> item)"

definition document_path_parent_exists :: "Item \<Rightarrow> PathSegment list \<Rightarrow> bool" where
  "document_path_parent_exists item path =
     (if path = [] then True
      else if butlast path = [] then True
      else get_document_path item (butlast path) \<noteq> None)"

fun remove_from_container :: "AttributeValue \<Rightarrow> PathSegment list \<Rightarrow> AttributeValue" where
  "remove_from_container c [] = c"
| "remove_from_container c (Field name # rest) =
     (case c of
        M m \<Rightarrow>
          if rest = [] then M (bm_remove name m)
          else (case bm_get m name of
                  Some parent \<Rightarrow> M (bm_insert name (remove_from_container parent rest) m)
                | None \<Rightarrow> c)
      | _ \<Rightarrow> c)"
| "remove_from_container c (Index idx # rest) =
     (case c of
        L l \<Rightarrow>
          if rest = [] then (if idx < length l then L (take idx l @ drop (Suc idx) l) else c)
          else if idx < length l then L (l[idx := remove_from_container (l ! idx) rest])
          else c
      | _ \<Rightarrow> c)"

definition remove_document_path :: "Item \<Rightarrow> PathSegment list \<Rightarrow> Item" where
  "remove_document_path item path =
     (case path of
        Field name # rest \<Rightarrow>
          if rest = [] then bm_remove name item
          else (case bm_get item name of
                  Some parent \<Rightarrow> bm_insert name (remove_from_container parent rest) item
                | None \<Rightarrow> item)
      | _ \<Rightarrow> item)"

section \<open>Operands and right-hand sides\<close>

fun eval_update_operand :: "Item \<Rightarrow> UpdateOperand \<Rightarrow> UpdateError + AttributeValue option" where
  "eval_update_operand item (Value v) = Inr (Some v)"
| "eval_update_operand item (Path path) = Inr (get_document_path item path)"
| "eval_update_operand item (IfNotExists path dflt) =
     (case get_document_path item path of
        Some v \<Rightarrow> Inr (Some v)
      | None \<Rightarrow> eval_update_operand item dflt)"
| "eval_update_operand item (ListAppend a b) =
     (case eval_update_operand item a of
        Inl e \<Rightarrow> Inl e
      | Inr None \<Rightarrow> Inl ListAppendMissing
      | Inr (Some av) \<Rightarrow>
          (case eval_update_operand item b of
             Inl e \<Rightarrow> Inl e
           | Inr None \<Rightarrow> Inl ListAppendMissing
           | Inr (Some bv) \<Rightarrow>
               (case (av, bv) of
                  (L xs, L ys) \<Rightarrow> Inr (Some (L (xs @ ys)))
                | _ \<Rightarrow> Inl ListAppendNotLists)))"

definition eval_update_arithmetic ::
  "Item \<Rightarrow> UpdateOperand \<Rightarrow> UpdateOperand \<Rightarrow> string \<Rightarrow> UpdateError + AttributeValue" where
  "eval_update_arithmetic item a b op =
     (let operand_error = ArithmeticOperands op in
      case eval_update_operand item a of
        Inl e \<Rightarrow> Inl e
      | Inr None \<Rightarrow> Inl operand_error
      | Inr (Some av) \<Rightarrow>
          (case eval_update_operand item b of
             Inl e \<Rightarrow> Inl e
           | Inr None \<Rightarrow> Inl operand_error
           | Inr (Some bv) \<Rightarrow>
               (case (av, bv) of
                  (N an, N bn) \<Rightarrow>
                    (case (if op = ''-'' then negate_numeric bn else Some bn) of
                       None \<Rightarrow> Inl operand_error
                     | Some rhs \<Rightarrow>
                         (case add_numeric an rhs of
                            None \<Rightarrow> Inl operand_error
                          | Some sm \<Rightarrow> Inr (N sm)))
                | _ \<Rightarrow> Inl operand_error)))"

fun eval_update_expr :: "Item \<Rightarrow> UpdateExpr \<Rightarrow> UpdateError + AttributeValue" where
  "eval_update_expr item (Operand op) =
     (case eval_update_operand item op of
        Inl e \<Rightarrow> Inl e
      | Inr None \<Rightarrow> Inl MissingAttribute
      | Inr (Some v) \<Rightarrow> Inr v)"
| "eval_update_expr item (AddExpr a b) = eval_update_arithmetic item a b ''+''"
| "eval_update_expr item (SubExpr a b) = eval_update_arithmetic item a b ''-''"

section \<open>Sets\<close>

text \<open>\<^verbatim>\<open>sort\<close> then \<^verbatim>\<open>dedup\<close> of the concatenation.\<close>

definition union_sorted :: "'a::linorder list \<Rightarrow> 'a list \<Rightarrow> 'a list" where
  "union_sorted a b = remdups_adj (sort (a @ b))"

definition difference_sorted :: "'a::linorder list \<Rightarrow> 'a list \<Rightarrow> 'a list" where
  "difference_sorted a b = filter (\<lambda>x. x \<notin> set b) a"

fun set_is_empty :: "AttributeValue \<Rightarrow> bool" where
  "set_is_empty (SS s) = (s = [])"
| "set_is_empty (NS s) = (s = [])"
| "set_is_empty (BS s) = (s = [])"
| "set_is_empty _ = False"

definition empty_set_message :: "AttributeValue \<Rightarrow> UpdateError" where
  "empty_set_message v = EmptySet (case v of NS _ \<Rightarrow> ''number'' | BS _ \<Rightarrow> ''binary'' | _ \<Rightarrow> ''string'')"

fun type_name :: "AttributeValue \<Rightarrow> string" where
  "type_name (S _) = ''S''"
| "type_name (N _) = ''N''"
| "type_name (B _) = ''B''"
| "type_name (Bool _) = ''BOOL''"
| "type_name Null = ''NULL''"
| "type_name (M _) = ''M''"
| "type_name (L _) = ''L''"
| "type_name (SS _) = ''SS''"
| "type_name (NS _) = ''NS''"
| "type_name (BS _) = ''BS''"

section \<open>Actions\<close>

text \<open>The \<^verbatim>\<open>match\<close> of the \<^verbatim>\<open>Add\<close> arm and of the \<^verbatim>\<open>Delete\<close> arm.\<close>

definition add_value ::
  "PathSegment list \<Rightarrow> AttributeValue option \<Rightarrow> AttributeValue \<Rightarrow> UpdateError + AttributeValue" where
  "add_value path existing operand =
     (case existing of
        None \<Rightarrow> if set_is_empty operand then Inl (empty_set_message operand) else Inr operand
      | Some old \<Rightarrow>
          (case (old, operand) of
             (N cur, N delta) \<Rightarrow>
               (case add_numeric cur delta of
                  None \<Rightarrow> Inl (AddNotNumbers (format_update_path path) cur delta)
                | Some sm \<Rightarrow> Inr (N sm))
           | (SS cur, SS add) \<Rightarrow> Inr (SS (union_sorted cur add))
           | (NS cur, NS add) \<Rightarrow> Inr (NS (union_sorted cur add))
           | (BS cur, BS add) \<Rightarrow> Inr (BS (union_sorted cur add))
           | _ \<Rightarrow> Inl (AddTypes (format_update_path path) (type_name old) (type_name operand))))"

definition delete_value ::
  "PathSegment list \<Rightarrow> AttributeValue \<Rightarrow> AttributeValue \<Rightarrow> UpdateError + AttributeValue" where
  "delete_value path existing operand =
     (case (existing, operand) of
        (SS cur, SS rm) \<Rightarrow> Inr (SS (difference_sorted cur rm))
      | (NS cur, NS rm) \<Rightarrow> Inr (NS (difference_sorted cur rm))
      | (BS cur, BS rm) \<Rightarrow> Inr (BS (difference_sorted cur rm))
      | _ \<Rightarrow> Inl (DeleteTypes (format_update_path path) (type_name existing) (type_name operand)))"

text \<open>One iteration of the loop of \<^verbatim>\<open>apply_update\<close>.\<close>

fun apply_action :: "Item \<Rightarrow> UpdateAction \<Rightarrow> UpdateError + Item" where
  "apply_action item (Set path e) =
     (if \<not> document_path_parent_exists item path then Inl InvalidPath
      else case eval_update_expr item e of
             Inl err \<Rightarrow> Inl err
           | Inr v \<Rightarrow> Inr (set_document_path item path v))"
| "apply_action item (Remove path) = Inr (remove_document_path item path)"
| "apply_action item (Add path operand) =
     (if \<not> document_path_parent_exists item path then Inl InvalidPath
      else case add_value path (get_document_path item path) operand of
             Inl err \<Rightarrow> Inl err
           | Inr updated \<Rightarrow> Inr (set_document_path item path updated))"
| "apply_action item (Delete path operand) =
     (case get_document_path item path of
        None \<Rightarrow> Inr item
      | Some existing \<Rightarrow>
          (case delete_value path existing operand of
             Inl err \<Rightarrow> Inl err
           | Inr remaining \<Rightarrow>
               if set_is_empty remaining then Inr (remove_document_path item path)
               else Inr (set_document_path item path remaining)))"

fun apply_actions :: "Item \<Rightarrow> UpdateAction list \<Rightarrow> UpdateError + Item" where
  "apply_actions item [] = Inr item"
| "apply_actions item (a # as) =
     (case apply_action item a of Inl e \<Rightarrow> Inl e | Inr item' \<Rightarrow> apply_actions item' as)"

definition apply_update :: "Item \<Rightarrow> UpdateAction list \<Rightarrow> UpdateError + Item" where
  "apply_update item actions =
     (case apply_actions item actions of
        Inl e \<Rightarrow> Inl e
      | Inr item' \<Rightarrow>
          if MAX_ITEM_SIZE_BYTES < item_size item' then Inl ItemTooLarge
          else if MAX_NESTING_DEPTH < item_depth item' then Inl NestingTooDeep
          else Inr item')"

section \<open>Writes through a document path\<close>

text \<open>
  The last segment of a path fits its container when it is a field of a map or an index of a list;
  it lands at that field, at that index, or at the end of a shorter list. \<open>written_path\<close> is the path
  a write lands at, \<open>None\<close> where there is no such place: the parent is missing or of the other kind.
\<close>

fun fits :: "AttributeValue \<Rightarrow> PathSegment \<Rightarrow> bool" where
  "fits (M m) (Field _) = True"
| "fits (L l) (Index _) = True"
| "fits _ _ = False"

fun landing :: "AttributeValue \<Rightarrow> PathSegment \<Rightarrow> PathSegment" where
  "landing (L l) (Index i) = Index (min i (length l))"
| "landing _ seg = seg"

fun diverge :: "PathSegment list \<Rightarrow> PathSegment list \<Rightarrow> bool" where
  "diverge (a # p) (b # q) = (if a = b then diverge p q else True)"
| "diverge _ _ = False"

definition written_path :: "Item \<Rightarrow> PathSegment list \<Rightarrow> PathSegment list option" where
  "written_path item p =
     (case p of
        [Field n] \<Rightarrow> Some p
      | _ \<Rightarrow>
          (case get_document_path item (butlast p) of
             Some parent \<Rightarrow> if fits parent (last p) then Some (butlast p @ [landing parent (last p)]) else None
           | None \<Rightarrow> None))"

lemma get_set_into:
  assumes "p \<noteq> []" and "get_steps c (butlast p) = Some parent" and "fits parent (last p)"
  shows "get_steps (set_into_container c p v) (butlast p @ [landing parent (last p)]) = Some v"
  using assms
proof (induction c p v rule: set_into_container.induct)
  case (1 c v)
  then show ?case by simp
next
  case (2 c name rest v)
  then show ?case by (cases "rest = []"; cases c) (auto split: option.splits)
next
  case (3 c idx rest v)
  then show ?case by (cases "rest = []"; cases c) (auto simp: nth_append min_def split: if_splits)
qed

lemma set_into_frame:
  assumes "p \<noteq> []" and "get_steps c (butlast p) = Some parent" and "fits parent (last p)"
    and "diverge (butlast p @ [landing parent (last p)]) q"
  shows "get_steps (set_into_container c p v) q = get_steps c q"
  using assms
proof (induction c p v arbitrary: q rule: set_into_container.induct)
  case (1 c v)
  then show ?case by simp
next
  case (2 c name rest v)
  from 2(2-) obtain b q' where q: "q = b # q'" by (cases q) auto
  from 2 show ?case
    by (cases "rest = []"; cases c; cases b) (auto simp: q split: option.splits if_splits)
next
  case (3 c idx rest v)
  from 3(2-) obtain b q' where q: "q = b # q'" by (cases q) auto
  from 3 show ?case
    by (cases "rest = []"; cases c; cases b)
      (auto simp: q nth_append nth_list_update min_def split: if_splits)
qed

section \<open>Well-formed items\<close>

text \<open>Maps are ordered maps and sets are strictly sorted, at every depth.\<close>

fun value_ok :: "AttributeValue \<Rightarrow> bool" where
  "value_ok (M m) = (bm_ok m \<and> (\<forall>kv \<in> set m. value_ok (snd kv)))"
| "value_ok (L l) = (\<forall>v \<in> set l. value_ok v)"
| "value_ok (SS s) = sorted_wrt (<) s"
| "value_ok (NS s) = sorted_wrt (<) s"
| "value_ok (BS s) = sorted_wrt (<) s"
| "value_ok _ = True"

definition item_ok :: "Item \<Rightarrow> bool" where
  "item_ok item \<longleftrightarrow> value_ok (M item)"

fun operand_ok :: "UpdateOperand \<Rightarrow> bool" where
  "operand_ok (Value v) = value_ok v"
| "operand_ok (Path _) = True"
| "operand_ok (IfNotExists _ d) = operand_ok d"
| "operand_ok (ListAppend a b) = (operand_ok a \<and> operand_ok b)"

fun expr_ok :: "UpdateExpr \<Rightarrow> bool" where
  "expr_ok (Operand x) = operand_ok x"
| "expr_ok (AddExpr a b) = (operand_ok a \<and> operand_ok b)"
| "expr_ok (SubExpr a b) = (operand_ok a \<and> operand_ok b)"

fun action_ok :: "UpdateAction \<Rightarrow> bool" where
  "action_ok (Set _ e) = expr_ok e"
| "action_ok (Remove _) = True"
| "action_ok (Add _ v) = value_ok v"
| "action_ok (Delete _ v) = value_ok v"

lemma value_ok_M_insert: "value_ok (M m) \<Longrightarrow> value_ok v \<Longrightarrow> value_ok (M (bm_insert k v m))"
  using set_bm_insert [of k v m] by auto

lemma value_ok_M_remove: "value_ok (M m) \<Longrightarrow> value_ok (M (bm_remove k m))"
  using set_bm_remove [of k m] by auto

lemma value_ok_M_get: "value_ok (M m) \<Longrightarrow> bm_get m k = Some v \<Longrightarrow> value_ok v"
  by (force dest: bm_get_in_set)

lemma value_ok_update: "\<forall>v \<in> set l. value_ok v \<Longrightarrow> value_ok v \<Longrightarrow> \<forall>x \<in> set (l[i := v]). value_ok x"
  using set_update_subset_insert [of l i v] by blast

lemma value_ok_set_into: "value_ok c \<Longrightarrow> value_ok v \<Longrightarrow> value_ok (set_into_container c p v)"
proof (induction c p v rule: set_into_container.induct)
  case (2 c name rest v)
  then show ?case
    by (cases c) (auto simp del: value_ok.simps(1) split: option.splits intro: value_ok_M_insert value_ok_M_get)
next
  case (3 c idx rest v)
  then show ?case
    by (cases c) (auto dest!: set_update_subset_insert [THEN subsetD])
qed simp

lemma value_ok_remove_from: "value_ok c \<Longrightarrow> value_ok (remove_from_container c p)"
proof (induction c p rule: remove_from_container.induct)
  case (2 c name rest)
  then show ?case
    by (cases c) (auto simp del: value_ok.simps(1) split: option.splits intro: value_ok_M_insert value_ok_M_remove value_ok_M_get)
next
  case (3 c idx rest)
  then show ?case
    by (cases c) (auto dest!: set_update_subset_insert [THEN subsetD] dest: in_set_takeD in_set_dropD)
qed simp

lemma value_ok_get_steps: "value_ok c \<Longrightarrow> get_steps c p = Some v \<Longrightarrow> value_ok v"
proof (induction c p rule: get_steps.induct)
  case (2 cur name rest)
  then show ?case
    by (cases cur) (auto simp del: value_ok.simps(1) split: option.splits intro: value_ok_M_get)
next
  case (3 cur idx rest)
  then show ?case by (cases cur) (auto split: if_splits)
qed simp

lemma item_ok_get: "item_ok item \<Longrightarrow> get_document_path item p = Some v \<Longrightarrow> value_ok v"
  unfolding item_ok_def
  by (auto simp: get_document_path_def simp del: value_ok.simps(1)
      split: list.splits PathSegment.splits option.splits intro: value_ok_get_steps value_ok_M_get)

lemma item_ok_set: "item_ok item \<Longrightarrow> value_ok v \<Longrightarrow> item_ok (set_document_path item p v)"
  unfolding item_ok_def
  by (auto simp: set_document_path_def simp del: value_ok.simps(1)
      split: list.splits PathSegment.splits option.splits
      intro: value_ok_set_into value_ok_M_insert value_ok_M_get)

lemma item_ok_remove: "item_ok item \<Longrightarrow> item_ok (remove_document_path item p)"
  unfolding item_ok_def
  by (auto simp: remove_document_path_def simp del: value_ok.simps(1)
      split: list.splits PathSegment.splits option.splits
      intro: value_ok_remove_from value_ok_M_insert value_ok_M_remove value_ok_M_get)

text \<open>A write that has no place to land changes nothing, and one that has changes nothing beside it.\<close>

lemma bm_insert_same: "bm_ok m \<Longrightarrow> bm_get m k = Some v \<Longrightarrow> bm_insert k v m = m"
  by (rule bm.entries_determined) auto

lemma set_into_nowhere:
  assumes "value_ok c" and "\<And>parent. get_steps c (butlast p) = Some parent \<Longrightarrow> \<not> fits parent (last p)"
  shows "set_into_container c p v = c"
  using assms
proof (induction c p v rule: set_into_container.induct)
  case (1 c v)
  then show ?case by simp
next
  case (2 c name rest v)
  show ?case
  proof (cases c)
    case (M m)
    with 2(3) have ne: "rest \<noteq> []" by auto
    show ?thesis
    proof (cases "bm_get m name")
      case None
      with M ne show ?thesis by simp
    next
      case (Some x)
      have "value_ok x" using 2(2) M Some value_ok_M_get by blast
      with 2(1) [OF M ne Some] 2(3) M ne Some have "set_into_container x rest v = x" by simp
      with 2(2) M ne Some show ?thesis by (simp add: bm_insert_same)
    qed
  qed simp_all
next
  case (3 c idx rest v)
  show ?case
  proof (cases c)
    case (L l)
    with 3(3) have ne: "rest \<noteq> []" by auto
    show ?thesis
    proof (cases "idx < length l")
      case False
      with L ne show ?thesis by simp
    next
      case True
      have "value_ok (l ! idx)" using 3(2) L True by simp
      with 3(1) [OF L ne True] 3(3) L ne True have "set_into_container (l ! idx) rest v = l ! idx" by simp
      with L ne True show ?thesis by simp
    qed
  qed simp_all
qed

lemma written_path_cases:
  obtains (top) n where "p = [Field n]" "written_path item p = Some p"
  | (inside) n rest c parent where "p = Field n # rest" "rest \<noteq> []" "bm_get item n = Some c"
      "get_steps c (butlast rest) = Some parent" "fits parent (last rest)"
      "written_path item p = Some (Field n # butlast rest @ [landing parent (last rest)])"
  | (no_parent) n rest where "p = Field n # rest" "rest \<noteq> []" "bm_get item n = None" "written_path item p = None"
  | (no_fit) n rest c where "p = Field n # rest" "rest \<noteq> []" "bm_get item n = Some c"
      "\<And>parent. get_steps c (butlast rest) = Some parent \<Longrightarrow> \<not> fits parent (last rest)" "written_path item p = None"
  | (no_field) "\<And>n rest. p \<noteq> Field n # rest" "written_path item p = None"
proof (cases p)
  case Nil
  then show ?thesis using no_field by (simp add: written_path_def get_document_path_def)
next
  case (Cons a rest)
  show ?thesis
  proof (cases a)
    case (Index i)
    with Cons no_field show ?thesis
      by (cases rest) (auto simp: written_path_def get_document_path_def)
  next
    case (Field n)
    show ?thesis
    proof (cases "rest = []")
      case True
      with Cons Field top show ?thesis by (simp add: written_path_def)
    next
      case False
      then have w: "written_path item p = (case get_document_path item (butlast p) of
           Some parent \<Rightarrow> if fits parent (last p) then Some (butlast p @ [landing parent (last p)]) else None
         | None \<Rightarrow> None)"
        unfolding written_path_def using Cons Field False by (auto split: list.splits PathSegment.splits)
      show ?thesis
      proof (cases "bm_get item n")
        case None
        with no_parent Cons Field False w show ?thesis by (simp add: get_document_path_def)
      next
        case (Some c)
        with w Cons Field False have v: "written_path item p = (case get_steps c (butlast rest) of
             Some parent \<Rightarrow> if fits parent (last rest) then Some (Field n # butlast rest @ [landing parent (last rest)]) else None
           | None \<Rightarrow> None)"
          by (simp add: get_document_path_def split: option.splits)
        have p: "p = Field n # rest" using Cons Field by simp
        show ?thesis
        proof (cases "\<exists>parent. get_steps c (butlast rest) = Some parent \<and> fits parent (last rest)")
          case True
          then obtain parent where "get_steps c (butlast rest) = Some parent" "fits parent (last rest)" by blast
          with v show ?thesis by (intro inside [OF p False Some]) simp_all
        next
          case none: False
          then show ?thesis by (intro no_fit [OF p False Some]) (auto simp: v split: option.splits)
        qed
      qed
    qed
  qed
qed

lemma operand_value_ok:
  assumes "item_ok item" and "operand_ok x" and "eval_update_operand item x = Inr (Some v)"
  shows "value_ok v"
  using assms(2,3)
proof (induction x arbitrary: v)
  case (ListAppend a b)
  then obtain xs ys where "eval_update_operand item a = Inr (Some (L xs))"
    "eval_update_operand item b = Inr (Some (L ys))" "v = L (xs @ ys)"
    by (auto split: sum.splits option.splits AttributeValue.splits)
  with ListAppend have "value_ok (L xs)" "value_ok (L ys)" by auto
  with \<open>v = L (xs @ ys)\<close> show ?case by auto
qed (auto intro: item_ok_get [OF assms(1)] split: option.splits)

lemma arithmetic_N:
  "eval_update_arithmetic item a b op = Inr v \<Longrightarrow> \<exists>n. v = N n"
  by (auto simp: eval_update_arithmetic_def Let_def
      split: sum.splits option.splits AttributeValue.splits)

lemma expr_value_ok:
  "item_ok item \<Longrightarrow> expr_ok e \<Longrightarrow> eval_update_expr item e = Inr v \<Longrightarrow> value_ok v"
  by (cases e) (auto dest!: arithmetic_N intro: operand_value_ok split: sum.splits option.splits)

lemma sorted_union: "sorted_wrt (<) (union_sorted a b)"
  using sorted_remdups_adj_sort [of "a @ b"] distinct_remdups_adj_sort [of "a @ b"]
  by (simp add: union_sorted_def strict_sorted_iff)

lemma set_union_sorted: "set (union_sorted a b) = set a \<union> set b"
  by (simp add: union_sorted_def)

lemma sorted_difference: "sorted_wrt (<) a \<Longrightarrow> sorted_wrt (<) (difference_sorted a b)"
  by (simp add: difference_sorted_def sorted_wrt_filter)

lemma add_value_ok:
  "value_ok operand \<Longrightarrow> add_value p existing operand = Inr v \<Longrightarrow> value_ok v"
  by (auto simp: add_value_def sorted_union split: option.splits if_splits AttributeValue.splits)

lemma delete_value_ok:
  "value_ok existing \<Longrightarrow> delete_value p existing operand = Inr v \<Longrightarrow> value_ok v"
  by (auto simp: delete_value_def sorted_difference split: AttributeValue.splits)

lemma apply_action_ok:
  assumes "item_ok item" and "action_ok a" and "apply_action item a = Inr item'"
  shows "item_ok item'"
  using assms
  by (cases a) (auto split: if_splits sum.splits option.splits
      intro: item_ok_set item_ok_remove dest: expr_value_ok add_value_ok delete_value_ok item_ok_get)

lemma apply_actions_ok:
  "item_ok item \<Longrightarrow> list_all action_ok as \<Longrightarrow> apply_actions item as = Inr item' \<Longrightarrow> item_ok item'"
  by (induction item as rule: apply_actions.induct) (auto split: sum.splits dest: apply_action_ok)

section \<open>Exact addition and limits\<close>

lemma apply_update_Inr:
  assumes "apply_update item as = Inr item'"
  shows "apply_actions item as = Inr item'" and "item_size item' \<le> MAX_ITEM_SIZE_BYTES"
    and "item_depth item' \<le> MAX_NESTING_DEPTH"
  using assms by (auto simp: apply_update_def split: sum.splits if_splits)

lemma get_top_level [simp]:
  "get_document_path item [Field a] = bm_get item a"
  by (simp add: get_document_path_def split: option.splits)

lemma add_counter:
  assumes "bm_get item a = Some (N cur)" and "apply_action item (Add [Field a] (N delta)) = Inr item'"
  shows "\<exists>x y n. text_value cur = Some x \<and> text_value delta = Some y \<and>
    item' = bm_insert a (N n) item \<and> text_value n = Some (x + y)"
  using assms add_numeric_value
  by (fastforce simp: document_path_parent_exists_def add_value_def set_document_path_def
      split: option.splits)

lemma written_path_get:
  assumes "written_path item p = Some w"
  shows "get_document_path (set_document_path item p v) w = Some v"
proof (cases rule: written_path_cases [of p item])
  case (top n)
  with assms have "w = [Field n]" by simp
  with top show ?thesis by (simp add: get_document_path_def set_document_path_def)
next
  case (inside n rest c parent)
  then have w: "w = Field n # butlast rest @ [landing parent (last rest)]" using assms by simp
  from get_set_into [OF inside(2,4,5)] inside(1-3) show ?thesis
    by (simp add: w get_document_path_def set_document_path_def)
qed (use assms in simp_all)

lemma written_path_None:
  assumes "item_ok item" and "written_path item p = None"
  shows "set_document_path item p v = item"
proof (cases rule: written_path_cases [of p item])
  case (no_fit n rest c)
  have "value_ok c" using assms(1) no_fit(3) value_ok_M_get by (auto simp: item_ok_def)
  from set_into_nowhere [OF this no_fit(4)] no_fit assms(1) show ?thesis
    by (simp add: set_document_path_def bm_insert_same item_ok_def)
next
  case no_field
  then show ?thesis by (auto simp: set_document_path_def split: list.splits PathSegment.splits)
qed (use assms in \<open>simp_all add: set_document_path_def\<close>)

lemma written_path_frame:
  assumes "written_path item p = Some w" and "diverge w q"
  shows "get_document_path (set_document_path item p v) q = get_document_path item q"
proof (cases rule: written_path_cases [of p item])
  case (top n)
  with assms show ?thesis
    by (cases q) (auto simp: get_document_path_def set_document_path_def split: PathSegment.splits if_splits)
next
  case (inside n rest c parent)
  with assms(1) have w: "w = Field n # butlast rest @ [landing parent (last rest)]" by simp
  with assms(2) obtain b q' where q: "q = b # q'" by (cases q) auto
  show ?thesis
  proof (cases "b = Field n")
    case True
    with assms(2) w q have "diverge (butlast rest @ [landing parent (last rest)]) q'" by simp
    from set_into_frame [OF inside(2,4,5) this] True q inside show ?thesis
      by (simp add: get_document_path_def set_document_path_def)
  next
    case False
    with q inside show ?thesis
      by (auto simp: get_document_path_def set_document_path_def split: PathSegment.splits)
  qed
qed (use assms in simp_all)

section \<open>Correctness of updates\<close>

text \<open>C16: after a write at any document path, a read of the place it lands at returns the value: the path
  itself, or the end of the list where the last segment is an index at or past its length. Where there is
  no such place (the parent is missing, or is not a map for a field or a list for an index) the item is
  unchanged.\<close>

theorem set_then_get:
  assumes "item_ok item"
  shows "case written_path item p of
      Some w \<Rightarrow> get_document_path (set_document_path item p v) w = Some v
    | None \<Rightarrow> set_document_path item p v = item"
  using written_path_get written_path_None [OF assms] by (simp split: option.splits)

theorem set_then_get_witness:
  "(case written_path [(''a'', L [Null])] [Field ''a'', Index 7] of
      Some w \<Rightarrow> get_document_path (set_document_path [(''a'', L [Null])] [Field ''a'', Index 7] (Bool True)) w = Some (Bool True)
    | None \<Rightarrow> set_document_path [(''a'', L [Null])] [Field ''a'', Index 7] (Bool True) = [(''a'', L [Null])]) \<and>
   written_path [(''a'', L [Null])] [Field ''a'', Index 7] = Some [Field ''a'', Index 1]"
proof
  show "case written_path [(''a'', L [Null])] [Field ''a'', Index 7] of
      Some w \<Rightarrow> get_document_path (set_document_path [(''a'', L [Null])] [Field ''a'', Index 7] (Bool True)) w = Some (Bool True)
    | None \<Rightarrow> set_document_path [(''a'', L [Null])] [Field ''a'', Index 7] (Bool True) = [(''a'', L [Null])]"
    by (rule set_then_get) (simp add: item_ok_def bm_ok_Cons)
  show "written_path [(''a'', L [Null])] [Field ''a'', Index 7] = Some [Field ''a'', Index 1]" by code_simp
qed

text \<open>C17: a write at a document path changes no read, of a present or of an absent value, at a path that
  diverges from the place the write lands at; a write that lands nowhere changes no read at all.\<close>

theorem set_frame:
  assumes "item_ok item" and "case written_path item p of Some w \<Rightarrow> diverge w q | None \<Rightarrow> True"
  shows "get_document_path (set_document_path item p v) q = get_document_path item q"
  using assms(2) written_path_frame written_path_None [OF assms(1)] by (simp split: option.splits)

theorem set_frame_witness:
  "get_document_path (set_document_path [(''a'', L [Null])] [Field ''a'', Index 7] (Bool True)) [Field ''a'', Index 7] =
     get_document_path [(''a'', L [Null])] [Field ''a'', Index 7]"
proof (rule set_frame)
  show "item_ok [(''a'', L [Null])]" by (simp add: item_ok_def bm_ok_Cons)
  show "case written_path [(''a'', L [Null])] [Field ''a'', Index 7] of
      Some w \<Rightarrow> diverge w [Field ''a'', Index 7] | None \<Rightarrow> True" by code_simp
qed

text \<open>C15: an accepted update of a well-formed item (ordered maps, ordered sets without repetitions)
  yields a well-formed item within the size and nesting limits.\<close>

theorem update_well_formed:
  assumes "item_ok item" and "list_all action_ok actions" and "apply_update item actions = Inr item'"
  shows "item_ok item' \<and> item_size item' \<le> MAX_ITEM_SIZE_BYTES \<and> item_depth item' \<le> MAX_NESTING_DEPTH"
  using apply_update_Inr [OF assms(3)] apply_actions_ok [OF assms(1,2)] by blast

theorem update_well_formed_witness:
  "item_ok [(''s'', SS [''a'', ''b''])] \<and> item_size [(''s'', SS [''a'', ''b''])] \<le> MAX_ITEM_SIZE_BYTES \<and>
    item_depth [(''s'', SS [''a'', ''b''])] \<le> MAX_NESTING_DEPTH"
proof (rule update_well_formed)
  show "item_ok [(''s'', SS [''b''])]" by (simp add: item_ok_def bm_ok_def)
  show "list_all action_ok [Add [Field ''s''] (SS [''a''])]" by simp
  have "apply_actions [(''s'', SS [''b''])] [Add [Field ''s''] (SS [''a''])] = Inr [(''s'', SS [''a'', ''b''])]"
    by code_simp
  then show "apply_update [(''s'', SS [''b''])] [Add [Field ''s''] (SS [''a''])] = Inr [(''s'', SS [''a'', ''b''])]"
    by (simp add: apply_update_def MAX_ITEM_SIZE_BYTES_def MAX_NESTING_DEPTH_def item_size_def item_depth_def max_or_zero_def)
qed

text \<open>C20: an accepted ADD on a number attribute stores the exact sum and touches nothing else.\<close>

theorem add_is_exact:
  assumes "bm_get item a = Some (N cur)" and "apply_action item (Add [Field a] (N delta)) = Inr item'"
  shows "\<exists>x y n. text_value cur = Some x \<and> text_value delta = Some y \<and>
    item' = bm_insert a (N n) item \<and> text_value n = Some (x + y)"
  using assms by (rule add_counter)

theorem add_is_exact_witness:
  "\<exists>x y n. text_value ''1.5'' = Some x \<and> text_value ''-2'' = Some y \<and>
    [(''n'', N ''-0.5'')] = bm_insert ''n'' (N n) [(''n'', N ''1.5'')] \<and> text_value n = Some (x + y)"
proof (rule add_is_exact)
  show "bm_get [(''n'', N ''1.5'')] ''n'' = Some (N ''1.5'')" by simp
  show "apply_action [(''n'', N ''1.5'')] (Add [Field ''n''] (N ''-2'')) = Inr [(''n'', N ''-0.5'')]" by code_simp
qed

end
