(* ===== verification/Index_Keys.thy ===== *)
theory Index_Keys
  imports Item_Model
begin

unbundle bit_operations_syntax

text \<open>
  Secondary-index keys, footprints and change records (\<^verbatim>\<open>crates/animus-item/src/index.rs\<close>), and the
  derivation of index rows and change record from one item write
  (\<^verbatim>\<open>crates/animus-item/src/write_schema.rs\<close>). The lemmas show that row keys parse back to their
  parts, that a prefix and its range end bound exactly the keys under the prefix, that a footprint
  is a map from sort keys to entries, and that the derived writes move the index rows of an item
  from its old image to its new one. JSON serialisation (\<^verbatim>\<open>serde_json\<close>) is a parameter.
\<close>

section \<open>Index table names and ranges\<close>

definition INDEX_TABLE_SEPARATOR :: char where "INDEX_TABLE_SEPARATOR = CHR ''$''"

definition index_table_name :: "string \<Rightarrow> string \<Rightarrow> string" where
  "index_table_name base index = base @ [INDEX_TABLE_SEPARATOR] @ index"

definition is_index_table_name :: "string \<Rightarrow> bool" where
  "is_index_table_name name \<longleftrightarrow> INDEX_TABLE_SEPARATOR \<in> set name"

definition split_index_table_name :: "string \<Rightarrow> (string \<times> string) option" where
  "split_index_table_name name =
     (if INDEX_TABLE_SEPARATOR \<in> set name then Some (split_once_or INDEX_TABLE_SEPARATOR name) else None)"

text \<open>\<open>None\<close> where the code panics: an empty prefix, or one ending in \<open>0xFF\<close>.\<close>

definition range_end :: "bytes \<Rightarrow> bytes option" where
  "range_end pre =
     (if pre = [] then None
      else if last pre = 0xFF then None
      else Some (butlast pre @ [last pre + 1]))"

section \<open>Row keys\<close>

definition base_row_key :: "AttributeValue \<Rightarrow> AttributeValue option \<Rightarrow> bytes" where
  "base_row_key pk sk = storage_key pk sk"

definition base_partition_prefix :: "AttributeValue \<Rightarrow> bytes" where
  "base_partition_prefix pk = item_escape (key_bytes pk)"

definition lsi_index_prefix :: "AttributeValue \<Rightarrow> string \<Rightarrow> bytes" where
  "lsi_index_prefix pk index = item_escape (key_bytes pk) @ item_escape (into_bytes index)"

definition lsi_row_key ::
  "AttributeValue \<Rightarrow> string \<Rightarrow> AttributeValue \<Rightarrow> AttributeValue option \<Rightarrow> bytes" where
  "lsi_row_key pk index alt_sort sk =
     lsi_index_prefix pk index @ item_escape (key_bytes alt_sort) @
     (case sk of Some sk \<Rightarrow> key_bytes sk | None \<Rightarrow> [])"

definition change_prefix :: "AttributeValue \<Rightarrow> bytes" where
  "change_prefix pk = item_escape (key_bytes pk)"

definition change_record_key :: "AttributeValue \<Rightarrow> bytes \<Rightarrow> bytes" where
  "change_record_key pk hlc = change_prefix pk @ hlc"

definition footprint_key :: "AttributeValue \<Rightarrow> bytes" where
  "footprint_key pk = item_escape (key_bytes pk)"

definition gsi_row_key ::
  "AttributeValue \<Rightarrow> AttributeValue option \<Rightarrow> AttributeValue \<Rightarrow> AttributeValue option \<Rightarrow> bytes" where
  "gsi_row_key ihash isort base_pk base_sk =
     item_escape (key_bytes ihash) @
     (case isort of Some isort \<Rightarrow> item_escape (key_bytes isort) | None \<Rightarrow> []) @
     item_escape (key_bytes base_pk) @
     (case base_sk of Some sk \<Rightarrow> key_bytes sk | None \<Rightarrow> [])"

definition gsi_hash_prefix :: "AttributeValue \<Rightarrow> bytes" where
  "gsi_hash_prefix ihash = item_escape (key_bytes ihash)"

definition gsi_hash_sort_prefix :: "AttributeValue \<Rightarrow> AttributeValue \<Rightarrow> bytes" where
  "gsi_hash_sort_prefix ihash isort = item_escape (key_bytes ihash) @ item_escape (key_bytes isort)"

record GsiRowRef =
  gsi_hash :: bytes
  gsi_sort :: "bytes option"
  gsi_base_pk :: bytes
  gsi_base_sk :: bytes

record LsiRowRef =
  lsi_base_pk :: bytes
  lsi_index :: string
  lsi_alt_sort :: bytes
  lsi_base_sk :: bytes

fun peel_escaped :: "bytes \<Rightarrow> (bytes \<times> bytes) option" where
  "peel_escaped [] = None"
| "peel_escaped (b # rest) =
     (if b \<noteq> 0 then
        (case peel_escaped rest of None \<Rightarrow> None | Some (out, r) \<Rightarrow> Some (b # out, r))
      else
        (case rest of
           [] \<Rightarrow> None
         | c # rest' \<Rightarrow>
             if c = 1 then
               (case peel_escaped rest' of None \<Rightarrow> None | Some (out, r) \<Rightarrow> Some (0 # out, r))
             else if c = 0 then Some ([], rest')
             else None))"

definition parse_gsi_row_key :: "bytes \<Rightarrow> bool \<Rightarrow> GsiRowRef option" where
  "parse_gsi_row_key key is_composite =
     (case peel_escaped key of
        None \<Rightarrow> None
      | Some (hash, rest) \<Rightarrow>
          (case (if is_composite then
                   (case peel_escaped rest of None \<Rightarrow> None | Some (s, rest) \<Rightarrow> Some (Some s, rest))
                 else Some (None, rest)) of
             None \<Rightarrow> None
           | Some (srt, rest) \<Rightarrow>
               (case peel_escaped rest of
                  None \<Rightarrow> None
                | Some (base_pk, base_sk) \<Rightarrow>
                    Some \<lparr>gsi_hash = hash, gsi_sort = srt, gsi_base_pk = base_pk, gsi_base_sk = base_sk\<rparr>)))"

text \<open>\<^verbatim>\<open>String::from_utf8\<close>: the well-formed sequences of the Unicode table.\<close>

definition cont :: "u8 \<Rightarrow> u8 \<Rightarrow> u8 \<Rightarrow> bool" where
  "cont lo hi b \<longleftrightarrow> lo \<le> b \<and> b \<le> hi"

fun utf8_ok :: "bytes \<Rightarrow> bool" where
  "utf8_ok [] = True"
| "utf8_ok (b # bs) =
     (if b < 0x80 then utf8_ok bs
      else if cont 0xC2 0xDF b then
        (case bs of c1 # r \<Rightarrow> cont 0x80 0xBF c1 \<and> utf8_ok r | _ \<Rightarrow> False)
      else if cont 0xE0 0xEF b then
        (case bs of
           c1 # c2 # r \<Rightarrow>
             cont (if b = 0xE0 then 0xA0 else 0x80) (if b = 0xED then 0x9F else 0xBF) c1 \<and>
             cont 0x80 0xBF c2 \<and> utf8_ok r
         | _ \<Rightarrow> False)
      else if cont 0xF0 0xF4 b then
        (case bs of
           c1 # c2 # c3 # r \<Rightarrow>
             cont (if b = 0xF0 then 0x90 else 0x80) (if b = 0xF4 then 0x8F else 0xBF) c1 \<and>
             cont 0x80 0xBF c2 \<and> cont 0x80 0xBF c3 \<and> utf8_ok r
         | _ \<Rightarrow> False)
      else False)"

definition from_utf8 :: "bytes \<Rightarrow> string option" where
  "from_utf8 bs = (if utf8_ok bs then Some (map (\<lambda>b. char_of (unat b)) bs) else None)"

definition parse_lsi_row_key :: "bytes \<Rightarrow> LsiRowRef option" where
  "parse_lsi_row_key key =
     (case peel_escaped key of
        None \<Rightarrow> None
      | Some (base_pk, rest) \<Rightarrow>
          (case peel_escaped rest of
             None \<Rightarrow> None
           | Some (index, rest) \<Rightarrow>
               (case peel_escaped rest of
                  None \<Rightarrow> None
                | Some (alt_sort, base_sk) \<Rightarrow>
                    (case from_utf8 index of
                       None \<Rightarrow> None
                     | Some index \<Rightarrow>
                         Some \<lparr>lsi_base_pk = base_pk, lsi_index = index,
                               lsi_alt_sort = alt_sort, lsi_base_sk = base_sk\<rparr>))))"

section \<open>Row keys parse back\<close>

lemma peel_escape: "peel_escaped (item_escape a @ x) = Some (a, x)"
  unfolding item_escape_eq by (induction a) simp_all

lemma from_utf8_into_bytes: "utf8_ok (into_bytes s) \<Longrightarrow> from_utf8 (into_bytes s) = Some s"
proof -
  assume "utf8_ok (into_bytes s)"
  moreover have "char_of (unat (of_char c :: u8)) = c" for c :: char
  proof -
    have "(of_char c :: u8) = word_of_nat (of_char c)"
      by (simp add: of_char_def horner_sum_foldr)
    then have "unat (of_char c :: u8) = of_char c mod 256" by (simp add: unat_of_nat)
    then show ?thesis by simp
  qed
  ultimately show ?thesis by (simp add: from_utf8_def into_bytes_def comp_def)
qed

lemma parse_gsi_row:
  "parse_gsi_row_key (gsi_row_key ihash isort base_pk base_sk) (isort \<noteq> None) =
     Some \<lparr>gsi_hash = key_bytes ihash, gsi_sort = map_option key_bytes isort,
           gsi_base_pk = key_bytes base_pk, gsi_base_sk = sort_bytes base_sk\<rparr>"
  by (cases isort) (simp_all add: parse_gsi_row_key_def gsi_row_key_def peel_escape)

lemma parse_lsi_row:
  "utf8_ok (into_bytes index) \<Longrightarrow>
   parse_lsi_row_key (lsi_row_key pk index alt sk) =
     Some \<lparr>lsi_base_pk = key_bytes pk, lsi_index = index, lsi_alt_sort = key_bytes alt,
           lsi_base_sk = sort_bytes sk\<rparr>"
  by (simp add: parse_lsi_row_key_def lsi_row_key_def lsi_index_prefix_def peel_escape from_utf8_into_bytes)

lemma split_index_table_name_join:
  assumes "\<not> is_index_table_name base"
  shows "split_index_table_name (index_table_name base index) = Some (base, index)"
proof -
  have "\<forall>c \<in> set base. c \<noteq> INDEX_TABLE_SEPARATOR" using assms by (auto simp: is_index_table_name_def)
  then have "takeWhile (\<lambda>x. x \<noteq> INDEX_TABLE_SEPARATOR) (base @ INDEX_TABLE_SEPARATOR # index) = base"
    "dropWhile (\<lambda>x. x \<noteq> INDEX_TABLE_SEPARATOR) (base @ INDEX_TABLE_SEPARATOR # index) = INDEX_TABLE_SEPARATOR # index"
    by (induction base) simp_all
  then show ?thesis
    by (simp add: split_index_table_name_def index_table_name_def split_once_or_def)
qed

text \<open>The half-open range from a prefix to its range end holds exactly the keys under the prefix.\<close>

lemma range_end_bounds:
  assumes "range_end pre = Some hi"
  shows "prefix pre key \<longleftrightarrow> pre \<le> key \<and> key < hi"
proof -
  from assms obtain p l where p: "pre = p @ [l]" "l \<noteq> 0xFF" and hi: "hi = p @ [l + 1]"
    by (cases pre rule: rev_cases) (auto simp: range_end_def split: if_splits)
  have "unat l + 1 < 2 ^ LENGTH(8)"
  proof -
    have "unat l \<noteq> 255" using p(2) by (metis of_nat_numeral of_nat_unat ucast_id)
    moreover have "unat l < 256" using unsigned_less [of l] by simp
    ultimately show ?thesis by simp
  qed
  then have l1: "unat (l + 1) = unat l + 1" by (rule unat_Suc_less)
  then have lt: "x < l + 1 \<longleftrightarrow> x \<le> l" for x by (simp add: word_less_nat_alt word_le_nat_alt less_Suc_eq_le)
  show ?thesis
  proof
    assume "prefix pre key"
    then obtain s where k: "key = p @ l # s" using p(1) by (auto simp: prefix_def)
    show "pre \<le> key \<and> key < hi" by (simp add: k p(1) hi lt)
  next
    assume b: "pre \<le> key \<and> key < hi"
    show "prefix pre key"
    proof (cases "prefix p key")
      case True
      then obtain s where k: "key = p @ s" by (auto simp: prefix_def)
      with b p hi have "[l] \<le> s" "s < [l + 1]" by simp_all
      then obtain x r where s: "s = x # r" "l \<le> x" "x \<le> l"
        by (cases s) (auto simp: lt)
      with k p(1) show ?thesis by simp
    next
      case False
      show ?thesis
      proof (rule ccontr)
        from b have "p \<le> key" using p(1) by (meson le_append order_trans)
        with False have "p @ [l + 1] < key"
          using less_append_not_prefix [of p key "[l + 1]" "[]"] by (cases "p = key") auto
        with b hi show False by (meson order.asym)
      qed
    qed
  qed
qed

section \<open>Footprints\<close>

record FootprintEntry =
  fe_index :: string
  fe_key :: bytes

record ItemFootprint =
  if_base_sk :: bytes
  if_entries :: "FootprintEntry list"

type_synonym IndexFootprint = "ItemFootprint list"

text \<open>\<^verbatim>\<open>slice::binary_search_by\<close>: \<open>Inr\<close> the position found, \<open>Inl\<close> the insertion point.\<close>

definition binary_search :: "'a::linorder list \<Rightarrow> 'a \<Rightarrow> nat + nat" where
  "binary_search xs x =
     (if xs = [] then Inl 0
      else let b = bsearch_base xs x 0 (length xs)
           in if xs ! b = x then Inr b else Inl (if xs ! b < x then b + 1 else b))"

definition for_item :: "IndexFootprint \<Rightarrow> bytes \<Rightarrow> FootprintEntry list" where
  "for_item items base_sk =
     (case binary_search (map if_base_sk items) base_sk of
        Inr pos \<Rightarrow> if_entries (items ! pos)
      | Inl _ \<Rightarrow> [])"

definition set_item :: "IndexFootprint \<Rightarrow> bytes \<Rightarrow> FootprintEntry list \<Rightarrow> IndexFootprint" where
  "set_item items base_sk entries =
     (case binary_search (map if_base_sk items) base_sk of
        Inr pos \<Rightarrow>
          if entries = [] then take pos items @ drop (Suc pos) items
          else items[pos := (items ! pos)\<lparr>if_entries := entries\<rparr>]
      | Inl pos \<Rightarrow>
          if entries = [] then items
          else take pos items @ [\<lparr>if_base_sk = base_sk, if_entries = entries\<rparr>] @ drop pos items)"

definition footprint_is_empty :: "IndexFootprint \<Rightarrow> bool" where
  "footprint_is_empty items \<longleftrightarrow> items = []"

text \<open>The invariant of a footprint: strictly sorted by sort key, no empty entry lists.\<close>

definition footprint_ok :: "IndexFootprint \<Rightarrow> bool" where
  "footprint_ok items \<longleftrightarrow> sorted_wrt (<) (map if_base_sk items) \<and> (\<forall>i \<in> set items. if_entries i \<noteq> [])"

lemma bsearch_base_split:
  assumes "sorted xs" and "0 < sz" and "base + sz \<le> length xs"
    and "\<forall>i < base. xs ! i \<le> x" and "\<forall>i. base + sz \<le> i \<and> i < length xs \<longrightarrow> x < xs ! i"
  shows "(\<forall>i < bsearch_base xs x base sz. xs ! i \<le> x) \<and>
         (\<forall>i. bsearch_base xs x base sz < i \<and> i < length xs \<longrightarrow> x < xs ! i)"
  using assms
proof (induction xs x base sz rule: bsearch_base.induct)
  case (1 xs x base sz)
  show ?case
  proof (cases "sz \<le> 1")
    case True
    with "1.prems" have "sz = 1" by linarith
    from True have "bsearch_base xs x base sz = base" by (simp only: bsearch_base.simps [of xs x base sz] if_True)
    with \<open>sz = 1\<close> "1.prems" show ?thesis by (simp add: Suc_le_eq)
  next
    case False
    let ?mid = "base + sz div 2" and ?sz = "sz - sz div 2"
    let ?b = "if x < xs ! ?mid then base else ?mid"
    have step: "bsearch_base xs x base sz = bsearch_base xs x ?b ?sz"
      using False by (subst bsearch_base.simps) (simp add: Let_def)
    have mid: "?mid < length xs" using "1.prems"(3) False by linarith
    have le: "xs ! i \<le> xs ! j" if "i \<le> j" "j < length xs" for i j
      using sorted_nth_mono [OF "1.prems"(1)] that by simp
    have lo: "\<forall>i < ?b. xs ! i \<le> x"
    proof (intro allI impI)
      fix i assume "i < ?b"
      show "xs ! i \<le> x"
      proof (cases "x < xs ! ?mid")
        case True
        with \<open>i < ?b\<close> "1.prems"(4) show ?thesis by simp
      next
        case False
        with \<open>i < ?b\<close> have "xs ! i \<le> xs ! ?mid" using le [of i ?mid] mid by simp
        with False show ?thesis by simp
      qed
    qed
    have hi: "\<forall>i. ?b + ?sz \<le> i \<and> i < length xs \<longrightarrow> x < xs ! i"
    proof (intro allI impI)
      fix i assume i: "?b + ?sz \<le> i \<and> i < length xs"
      show "x < xs ! i"
      proof (cases "x < xs ! ?mid")
        case True
        with i have "base + ?sz \<le> i" by simp
        then have "?mid \<le> i" by linarith
        with True le [of ?mid i] i show ?thesis by simp
      next
        case False
        with i "1.prems"(5) show ?thesis by simp
      qed
    qed
    have b: "?b + ?sz \<le> length xs" using "1.prems"(3) by auto
    have "0 < ?sz" using False by linarith
    from "1.IH" [OF False refl refl "1.prems"(1) this b lo hi] show ?thesis
      unfolding step .
  qed
qed

lemma binary_search_found:
  assumes "binary_search xs x = Inr i"
  shows "i < length xs \<and> xs ! i = x"
  using assms bsearch_base_bounds [of "length xs" 0 xs x]
  by (auto simp: binary_search_def Let_def split: if_splits)

lemma binary_search_missing:
  assumes "sorted xs" and "binary_search xs x = Inl i"
  shows "i \<le> length xs \<and> (\<forall>y \<in> set (take i xs). y < x) \<and> (\<forall>y \<in> set (drop i xs). x < y)"
proof (cases "xs = []")
  case True
  with assms show ?thesis by (simp add: binary_search_def)
next
  case False
  define b where "b = bsearch_base xs x 0 (length xs)"
  have bl: "b < length xs" using bsearch_base_bounds [of "length xs" 0 xs x] False by (simp add: b_def)
  have spq: "(\<forall>j < b. xs ! j \<le> x) \<and> (\<forall>j. b < j \<and> j < length xs \<longrightarrow> x < xs ! j)"
    unfolding b_def by (rule bsearch_base_split [OF assms(1)]) (use False in auto)
  have sp: "xs ! j \<le> x" if "j < b" for j using spq that by blast
  have sq: "x < xs ! j" if "b < j" "j < length xs" for j using spq that by blast
  from assms(2) False have ne: "xs ! b \<noteq> x" and i: "i = (if xs ! b < x then b + 1 else b)"
    by (auto simp: binary_search_def Let_def b_def [symmetric] split: if_splits)
  have below: "xs ! j < x" if "j < i" for j
  proof (cases "j < b")
    case True
    have "xs ! j \<le> xs ! b" using sorted_nth_mono [OF assms(1)] True bl by simp
    moreover from True have "xs ! j \<le> x" by (rule sp)
    moreover have "xs ! j \<noteq> x"
    proof
      assume j: "xs ! j = x"
      with \<open>xs ! j \<le> xs ! b\<close> ne have "x < xs ! b" by simp
      have "x \<in> set xs" using j True bl by (metis nth_mem order_less_trans)
      then obtain k where "k < length xs" "xs ! k = x" by (auto simp: in_set_conv_nth)
      then have "xs ! b = x"
        using bsearch_base_finds [OF assms(1), of 0 k "length xs" x] by (simp add: b_def)
      with ne show False by simp
    qed
    ultimately show ?thesis by simp
  next
    case F: False
    with that i have "j = b" "xs ! b < x" by (auto split: if_splits)
    then show ?thesis by simp
  qed
  have above: "x < xs ! j" if "i \<le> j" "j < length xs" for j
    using that i sq [of j] ne by (cases "j = b") (auto split: if_splits)
  have "i \<le> length xs" using i bl by simp
  moreover have "\<forall>y \<in> set (take i xs). y < x" using below by (auto simp: in_set_conv_nth)
  moreover have "\<forall>y \<in> set (drop i xs). x < y" using above by (auto simp: in_set_conv_nth)
  ultimately show ?thesis by blast
qed

lemma binary_search_mem:
  assumes "sorted xs" and "x \<in> set xs"
  shows "\<exists>i. binary_search xs x = Inr i"
proof (cases "binary_search xs x")
  case (Inl i)
  from binary_search_missing [OF assms(1) Inl] assms(2) have "x \<notin> set (take i xs)" "x \<notin> set (drop i xs)"
    by auto
  with assms(2) show ?thesis by (metis Un_iff append_take_drop_id set_append)
qed simp

text \<open>A footprint read as a map from sort keys to entries.\<close>

definition footprint_map :: "IndexFootprint \<Rightarrow> bytes \<Rightarrow> FootprintEntry list" where
  "footprint_map items sk =
     (case map_of (map (\<lambda>i. (if_base_sk i, if_entries i)) items) sk of Some e \<Rightarrow> e | None \<Rightarrow> [])"

lemma footprint_map_nth:
  assumes "footprint_ok items" and "i < length items"
  shows "footprint_map items (if_base_sk (items ! i)) = if_entries (items ! i)"
proof -
  have d: "distinct (map fst (map (\<lambda>i. (if_base_sk i, if_entries i)) items))"
    using assms(1) strict_sorted_iff by (auto simp: footprint_ok_def comp_def)
  have "(if_base_sk (items ! i), if_entries (items ! i)) \<in> set (map (\<lambda>i. (if_base_sk i, if_entries i)) items)"
    using assms(2) by auto
  from map_of_is_SomeI [OF d this] show ?thesis by (simp add: footprint_map_def)
qed

lemma footprint_map_absent: "sk \<notin> if_base_sk ` set items \<Longrightarrow> footprint_map items sk = []"
  by (auto simp: footprint_map_def split: option.splits dest!: map_of_SomeD)

lemma for_item_map:
  assumes "footprint_ok items"
  shows "for_item items sk = footprint_map items sk"
proof (cases "binary_search (map if_base_sk items) sk")
  case (Inl pos)
  have s: "sorted (map if_base_sk items)" using assms by (simp add: footprint_ok_def strict_sorted_iff)
  then have "sk \<notin> set (map if_base_sk items)"
    using binary_search_mem [OF s] Inl by fastforce
  then show ?thesis using Inl by (simp add: for_item_def footprint_map_absent)
next
  case (Inr pos)
  from binary_search_found [OF Inr] footprint_map_nth [OF assms] Inr show ?thesis
    by (auto simp: for_item_def)
qed

lemma sorted_wrt_insert:
  "sorted_wrt (<) (xs @ ys) \<Longrightarrow> (\<forall>y \<in> set xs. y < x) \<Longrightarrow> (\<forall>y \<in> set ys. x < y)
    \<Longrightarrow> sorted_wrt (<) (xs @ x # ys)"
  for x :: "'a::linorder"
  by (auto simp: sorted_wrt_append)

lemma footprint_map_Cons [simp]:
  "footprint_map [] sk = []"
  "footprint_map (i # is) sk = (if sk = if_base_sk i then if_entries i else footprint_map is sk)"
  by (simp_all add: footprint_map_def)

lemma footprint_map_drop:
  "footprint_map (xs @ ys) sk =
     (if sk \<in> if_base_sk ` set xs then footprint_map xs sk else footprint_map ys sk)"
  by (induction xs) auto

text \<open>Both operations refine the map: the invariant is kept and only the given key changes.\<close>

lemma set_item_refines:
  assumes "footprint_ok items"
  shows "footprint_ok (set_item items sk es)"
    and "footprint_map (set_item items sk es) = (footprint_map items)(sk := es)"
proof -
  let ?ks = "map if_base_sk items"
  have ss: "sorted_wrt (<) ?ks" and ne: "\<forall>i \<in> set items. if_entries i \<noteq> []"
    using assms by (auto simp: footprint_ok_def)
  have "footprint_ok (set_item items sk es) \<and>
    footprint_map (set_item items sk es) = (footprint_map items)(sk := es)"
  proof (cases "binary_search ?ks sk")
    case (Inr p)
    from binary_search_found [OF Inr] have p: "p < length items" "if_base_sk (items ! p) = sk" by auto
    define xs it ys where "xs = take p items" and "it = items ! p" and "ys = drop (Suc p) items"
    have items: "items = xs @ it # ys" using p(1) by (simp add: xs_def it_def ys_def id_take_nth_drop)
    have lx: "length xs = p" using p(1) by (simp add: xs_def)
    have sk: "if_base_sk it = sk" using p(2) by (simp add: it_def)
    have nx: "sk \<notin> if_base_sk ` set xs" "sk \<notin> if_base_sk ` set ys"
      using ss sk by (auto simp: items sorted_wrt_append)
    show ?thesis
    proof (cases "es = []")
      case True
      then have r: "set_item items sk es = xs @ ys" using Inr by (simp add: set_item_def items lx)
      have "footprint_map (xs @ ys) = (footprint_map items)(sk := [])"
        using nx sk footprint_map_absent by (auto simp: items footprint_map_drop fun_eq_iff)
      then show ?thesis
        unfolding r footprint_ok_def using True ss ne by (auto simp: items sorted_wrt_append)
    next
      case False
      then have r: "set_item items sk es = xs @ it\<lparr>if_entries := es\<rparr> # ys"
        using Inr by (simp add: set_item_def items lx nth_append list_update_append)
      have "footprint_map (xs @ it\<lparr>if_entries := es\<rparr> # ys) = (footprint_map items)(sk := es)"
        using nx sk by (auto simp: items footprint_map_drop fun_eq_iff)
      then show ?thesis
        unfolding r footprint_ok_def using False ss ne by (auto simp: items sorted_wrt_append)
    qed
  next
    case (Inl p)
    have s: "sorted ?ks" using ss by (simp add: strict_sorted_iff)
    from binary_search_missing [OF s Inl] have p: "p \<le> length items"
      "\<forall>i \<in> set (take p items). if_base_sk i < sk" "\<forall>i \<in> set (drop p items). sk < if_base_sk i"
      by (auto simp: take_map drop_map)
    then have n: "sk \<notin> if_base_sk ` set (take p items)" "sk \<notin> if_base_sk ` set (drop p items)" by auto
    then have nn: "sk \<notin> if_base_sk ` set items" by (metis append_take_drop_id image_Un set_append Un_iff)
    show ?thesis
    proof (cases "es = []")
      case True
      then show ?thesis
        using Inl assms footprint_map_absent [OF nn] by (auto simp: set_item_def)
    next
      case False
      let ?new = "take p items @ \<lparr>if_base_sk = sk, if_entries = es\<rparr> # drop p items"
      have r: "set_item items sk es = ?new" using False Inl by (simp add: set_item_def)
      have "sorted_wrt (<) (map if_base_sk (take p items) @ map if_base_sk (drop p items))"
        using ss by (simp flip: map_append)
      then have "sorted_wrt (<) (map if_base_sk ?new)"
        using sorted_wrt_insert [of "map if_base_sk (take p items)" "map if_base_sk (drop p items)" sk] p by simp
      moreover have "footprint_map ?new k = ((footprint_map items)(sk := es)) k" for k
        using footprint_map_drop [of "take p items" "drop p items" k] n
        by (auto simp: footprint_map_drop)
      ultimately show ?thesis
        using False ne by (auto simp: r footprint_ok_def dest: in_set_takeD in_set_dropD)
    qed
  qed
  then show "footprint_ok (set_item items sk es)"
    and "footprint_map (set_item items sk es) = (footprint_map items)(sk := es)" by blast+
qed

section \<open>Correctness of index rows\<close>

text \<open>C25: the half-open key range a partition query scans holds exactly the rows of that partition.\<close>

theorem partition_range:
  assumes "range_end (base_partition_prefix pk) = Some hi"
  shows "base_partition_prefix pk \<le> base_row_key pk' sk \<and> base_row_key pk' sk < hi \<longleftrightarrow> key_bytes pk = key_bytes pk'"
  using range_end_bounds [OF assms, of "base_row_key pk' sk"] partition_prefix [of pk pk' sk]
  by (simp add: base_partition_prefix_def base_row_key_def)

theorem partition_range_witness:
  "base_partition_prefix (S ''a'') \<le> base_row_key (S ''ab'') None \<and> base_row_key (S ''ab'') None < [97, 0, 1] \<longleftrightarrow>
    key_bytes (S ''a'') = key_bytes (S ''ab'')"
proof (rule partition_range)
  show "range_end (base_partition_prefix (S ''a'')) = Some [97, 0, 1]" by code_simp
qed

text \<open>C26: a row key of a global index, and the key of a local index with a UTF-8 name, parse back to the
  values they were built from.\<close>

theorem index_row_round_trip:
  assumes "utf8_ok (into_bytes index)"
  shows "parse_gsi_row_key (gsi_row_key ihash isort base_pk base_sk) (isort \<noteq> None) =
     Some \<lparr>gsi_hash = key_bytes ihash, gsi_sort = map_option key_bytes isort,
           gsi_base_pk = key_bytes base_pk, gsi_base_sk = sort_bytes base_sk\<rparr> \<and>
    parse_lsi_row_key (lsi_row_key pk index alt sk) =
     Some \<lparr>lsi_base_pk = key_bytes pk, lsi_index = index, lsi_alt_sort = key_bytes alt,
           lsi_base_sk = sort_bytes sk\<rparr>"
  using parse_gsi_row parse_lsi_row [OF assms] by blast

theorem index_row_round_trip_witness:
  "parse_lsi_row_key (lsi_row_key (S ''p'') ''by-date'' (N ''3'') None) =
     Some \<lparr>lsi_base_pk = key_bytes (S ''p''), lsi_index = ''by-date'', lsi_alt_sort = key_bytes (N ''3''),
           lsi_base_sk = sort_bytes None\<rparr>"
proof -
  have "utf8_ok (into_bytes ''by-date'')" by code_simp
  from index_row_round_trip [OF this] show ?thesis by blast
qed

text \<open>C27: an index footprint kept as a sorted vector refines the map from sort keys to entries: setting an
  item's entries is a map update, reading them is the map's value, and the vector stays ordered
  and free of empty entries.\<close>

theorem footprint_refines_map:
  assumes "footprint_ok items"
  shows "footprint_ok (set_item items sk es) \<and>
    footprint_map (set_item items sk es) = (footprint_map items)(sk := es) \<and>
    for_item (set_item items sk es) k = (if k = sk then es else for_item items k)"
  using set_item_refines [OF assms] for_item_map [OF set_item_refines(1) [OF assms]] for_item_map [OF assms]
  by simp

theorem footprint_refines_map_witness:
  "footprint_ok [\<lparr>if_base_sk = [1], if_entries = [\<lparr>fe_index = ''g'', fe_key = [2]\<rparr>]\<rparr>] \<and>
   for_item (set_item [\<lparr>if_base_sk = [1], if_entries = [\<lparr>fe_index = ''g'', fe_key = [2]\<rparr>]\<rparr>] [1] []) [1] = []"
proof -
  have ok: "footprint_ok [\<lparr>if_base_sk = [1], if_entries = [\<lparr>fe_index = ''g'', fe_key = [2]\<rparr>]\<rparr>]"
    by (simp add: footprint_ok_def)
  with footprint_refines_map [OF ok, of "[1]" "[]" "[1]"] show ?thesis by simp
qed

end
