(* ===== verification/Kind_Eval.thy ===== *)
theory Kind_Eval
  imports Update Index_Keys
begin

unbundle bit_operations_syntax

text \<open>
  One item write, from its schema slice to its rows: the stored-item codec with the multi-Region
  stamps (\<^verbatim>\<open>crates/animus-item/src/stored.rs\<close>), change records (\<^verbatim>\<open>index.rs\<close>), the derivation of
  base row, index rows and change record (\<^verbatim>\<open>write_schema.rs\<close>), and the evaluation core of the
  apply path (\<^verbatim>\<open>evaluate_kind_eval\<close> of \<^verbatim>\<open>crates/animus-cp-data/src/lib.rs\<close>). Serialisation to JSON
  (\<^verbatim>\<open>serde_json\<close>) is a parameter. The lemmas show that local stamps grow, that replicated writes
  converge whatever their order, and that the derived writes stay in the item's tablet and move its
  index rows from the old image to the new one.
\<close>

section \<open>Stamps\<close>

datatype MrecVersion = MrecVersion (wall_ms: u64) (logical: u32) (region_id: u32)

text \<open>The derived order: the tuple order of the fields as declared.\<close>

instantiation MrecVersion :: linorder
begin

definition less_MrecVersion :: "MrecVersion \<Rightarrow> MrecVersion \<Rightarrow> bool" where
  "less_MrecVersion a b \<longleftrightarrow>
     wall_ms a < wall_ms b \<or>
     wall_ms a = wall_ms b \<and>
       (logical a < logical b \<or> logical a = logical b \<and> region_id a < region_id b)"

definition less_eq_MrecVersion :: "MrecVersion \<Rightarrow> MrecVersion \<Rightarrow> bool" where
  "less_eq_MrecVersion a b \<longleftrightarrow> a = b \<or> a < b"

instance
proof
  fix x y z :: MrecVersion
  show "x < y \<longleftrightarrow> x \<le> y \<and> \<not> y \<le> x" by (auto simp: less_eq_MrecVersion_def less_MrecVersion_def)
  show "x \<le> x" by (simp add: less_eq_MrecVersion_def)
  show "x \<le> y \<Longrightarrow> y \<le> z \<Longrightarrow> x \<le> z" by (auto simp: less_eq_MrecVersion_def less_MrecVersion_def)
  show "x \<le> y \<Longrightarrow> y \<le> x \<Longrightarrow> x = y" by (auto simp: less_eq_MrecVersion_def less_MrecVersion_def)
  show "x \<le> y \<or> y \<le> x" by (cases x; cases y) (auto simp: less_eq_MrecVersion_def less_MrecVersion_def)
qed

end

definition ZERO :: MrecVersion where "ZERO = MrecVersion 0 0 0"

definition next_local :: "MrecVersion option \<Rightarrow> u64 \<Rightarrow> u32 \<Rightarrow> MrecVersion" where
  "next_local stored wall region =
     (let s = (case stored of Some v \<Rightarrow> v | None \<Rightarrow> ZERO) in
      if wall > wall_ms s then MrecVersion wall 0 region
      else if logical s \<noteq> - 1 then MrecVersion (wall_ms s) (logical s + 1) region
      else MrecVersion (saturating_add (wall_ms s) 1) 0 region)"

definition supersedes :: "MrecVersion \<Rightarrow> MrecVersion option \<Rightarrow> bool" where
  "supersedes v stored \<longleftrightarrow> v > (case stored of Some s \<Rightarrow> s | None \<Rightarrow> ZERO)"

section \<open>Stored items\<close>

datatype StoredItem =
    StoredItem_Item Item
  | StoredItem_Tombstone
  | VersionedItem Item MrecVersion
  | VersionedTombstone MrecVersion "AttributeValue option" "AttributeValue option"

text \<open>\<^verbatim>\<open>u8::is_ascii_whitespace\<close>.\<close>

definition is_ascii_whitespace :: "u8 \<Rightarrow> bool" where
  "is_ascii_whitespace b \<longleftrightarrow> b \<in> {0x20, 0x09, 0x0A, 0x0C, 0x0D}"

definition stored_item_version :: "bytes \<Rightarrow> nat option" where
  "stored_item_version bs =
     (case find (\<lambda>b. \<not> is_ascii_whitespace b) bs of
        Some b \<Rightarrow> if b = 0x7B \<or> b = 0x22 then Some 1 else None
      | None \<Rightarrow> None)"

definition encode_stored_item :: "(StoredItem \<Rightarrow> bytes) \<Rightarrow> Item \<Rightarrow> bytes" where
  "encode_stored_item to_vec item = to_vec (StoredItem_Item item)"

definition encode_tombstone :: "(StoredItem \<Rightarrow> bytes) \<Rightarrow> bytes" where
  "encode_tombstone to_vec = to_vec StoredItem_Tombstone"

definition encode_stored_item_versioned :: "(StoredItem \<Rightarrow> bytes) \<Rightarrow> Item \<Rightarrow> MrecVersion \<Rightarrow> bytes" where
  "encode_stored_item_versioned to_vec item ver = to_vec (VersionedItem item ver)"

definition encode_tombstone_versioned :: "(StoredItem \<Rightarrow> bytes) \<Rightarrow> MrecVersion \<Rightarrow> bytes" where
  "encode_tombstone_versioned to_vec ver = to_vec (VersionedTombstone ver None None)"

definition encode_tombstone_versioned_keyed ::
  "(StoredItem \<Rightarrow> bytes) \<Rightarrow> MrecVersion \<Rightarrow> AttributeValue \<Rightarrow> AttributeValue option \<Rightarrow> bytes" where
  "encode_tombstone_versioned_keyed to_vec ver pk sk = to_vec (VersionedTombstone ver (Some pk) sk)"

definition decode_tombstone_key ::
  "(bytes \<Rightarrow> StoredItem option) \<Rightarrow> bytes \<Rightarrow> (AttributeValue \<times> AttributeValue option) option" where
  "decode_tombstone_key from_slice bs =
     (case from_slice bs of
        Some (VersionedTombstone _ (Some pk) sk) \<Rightarrow> Some (pk, sk)
      | _ \<Rightarrow> None)"

text \<open>\<open>None\<close> where the code returns its decode error.\<close>

definition decode_stored_item_versioned ::
  "(bytes \<Rightarrow> StoredItem option) \<Rightarrow> bytes \<Rightarrow> (Item option \<times> MrecVersion option) option" where
  "decode_stored_item_versioned from_slice bs =
     (if stored_item_version bs = Some 1 then
        (case from_slice bs of
           None \<Rightarrow> None
         | Some (StoredItem_Item item) \<Rightarrow> Some (Some item, None)
         | Some StoredItem_Tombstone \<Rightarrow> Some (None, None)
         | Some (VersionedItem item ver) \<Rightarrow> Some (Some item, Some ver)
         | Some (VersionedTombstone ver _ _) \<Rightarrow> Some (None, Some ver))
      else None)"

definition decode_stored_item :: "(bytes \<Rightarrow> StoredItem option) \<Rightarrow> bytes \<Rightarrow> Item option option" where
  "decode_stored_item from_slice bs = map_option fst (decode_stored_item_versioned from_slice bs)"

section \<open>Change records\<close>

record ChangeRecord =
  cr_base_sk :: bytes
  old_image :: "Item option"
  new_image :: "Item option"
  seeded :: bool
  marker :: bool
  staged :: bool
  ttl_expired :: bool

definition consumer_hidden :: "ChangeRecord \<Rightarrow> bool" where
  "consumer_hidden r \<longleftrightarrow> seeded r \<or> marker r \<or> staged r"

definition event_name :: "ChangeRecord \<Rightarrow> string" where
  "event_name r =
     (case (old_image r, new_image r) of
        (None, Some _) \<Rightarrow> ''INSERT''
      | (Some _, Some _) \<Rightarrow> ''MODIFY''
      | (Some _, None) \<Rightarrow> ''REMOVE''
      | (None, None) \<Rightarrow> ''MODIFY'')"

definition change_record_version_of :: "bytes \<Rightarrow> nat option" where
  "change_record_version_of bs =
     (case find (\<lambda>b. \<not> is_ascii_whitespace b) bs of
        Some b \<Rightarrow> if b = 0x7B then Some 1 else None
      | None \<Rightarrow> None)"

section \<open>Derivation of the rows of one write\<close>

datatype Projection = All | KeysOnly | Include "string list"

record LsiDef =
  lsi_name :: string
  sort_attribute :: string
  projection :: Projection

record MrecWriteStamp =
  stamp_region_id :: u32
  stamp_wall_ms :: u64

record WriteSchema =
  ws_key :: TableSchema
  lsis :: "LsiDef list"
  change_records_carry_images :: bool
  mrec :: "MrecWriteStamp option"

definition projected_item :: "Item \<Rightarrow> TableSchema \<Rightarrow> LsiDef \<Rightarrow> Item" where
  "projected_item item base lsi =
     (let keep = (case projection lsi of
                    All \<Rightarrow> None
                  | KeysOnly \<Rightarrow> Some []
                  | Include extra \<Rightarrow> Some extra)
      in case keep of
           None \<Rightarrow> item
         | Some extra \<Rightarrow>
             let names = [partition_key base] @
                         (case sort_key base of Some sk \<Rightarrow> [sk] | None \<Rightarrow> []) @
                         [sort_attribute lsi] @ extra
             in filter (\<lambda>(name, _). name \<in> set names) item)"

type_synonym KindWrite = "u8 \<times> bytes \<times> bytes option"

record KindWrites =
  kw_writes :: "KindWrite list"
  kw_change_log :: "bytes \<times> bytes"

text \<open>The body of the loop over the local indexes.\<close>

definition lsi_writes ::
  "(StoredItem \<Rightarrow> bytes) \<Rightarrow> WriteSchema \<Rightarrow> AttributeValue \<Rightarrow> AttributeValue option \<Rightarrow> bytes \<Rightarrow>
   Item option \<Rightarrow> Item option \<Rightarrow> u8 \<Rightarrow> LsiDef \<Rightarrow> KindWrite list" where
  "lsi_writes to_vec schema pk sk token_prefix old new kind_lsi lsi =
     (let old_alt = get_attr old (sort_attribute lsi);
          new_alt = get_attr new (sort_attribute lsi)
      in (case old_alt of
            Some prev \<Rightarrow>
              if old_alt \<noteq> new_alt
              then [(kind_lsi, token_prefix @ lsi_row_key pk (lsi_name lsi) prev sk, None)]
              else []
          | None \<Rightarrow> []) @
         (case new_alt of
            Some nxt \<Rightarrow>
              [(kind_lsi, token_prefix @ lsi_row_key pk (lsi_name lsi) nxt sk,
                Some (encode_stored_item to_vec (projected_item (the new) (ws_key schema) lsi)))]
          | None \<Rightarrow> []))"

definition derive_kind_writes ::
  "(StoredItem \<Rightarrow> bytes) \<Rightarrow> (ChangeRecord \<Rightarrow> bytes) \<Rightarrow> WriteSchema \<Rightarrow> AttributeValue \<Rightarrow>
   AttributeValue option \<Rightarrow> bytes \<Rightarrow> bytes \<Rightarrow> Item option \<Rightarrow> Item option \<Rightarrow> bool \<Rightarrow> u8 \<Rightarrow> u8 \<Rightarrow> KindWrites" where
  "derive_kind_writes to_vec record_to_vec schema pk sk token_prefix base_value old new expired kind_base kind_lsi =
     (let base_key = token_prefix @ base_row_key pk sk;
          writes = (kind_base, base_key, Some base_value) #
                   concat (map (lsi_writes to_vec schema pk sk token_prefix old new kind_lsi) (lsis schema));
          base_sk = drop (length (base_partition_prefix pk)) (base_row_key pk sk);
          carries_images = change_records_carry_images schema;
          rec = \<lparr>cr_base_sk = base_sk,
                 old_image = (if carries_images then old else None),
                 new_image = (if carries_images then new else None),
                 seeded = False, marker = \<not> carries_images, staged = False, ttl_expired = expired\<rparr>
      in \<lparr>kw_writes = writes, kw_change_log = (token_prefix @ change_prefix pk, record_to_vec rec)\<rparr>)"

section \<open>Evaluation at apply\<close>

definition KIND_BASE :: u8 where "KIND_BASE = 0x00"
definition KIND_LSI :: u8 where "KIND_LSI = 0x01"


datatype KindEvalOp =
    Put Item
  | DeleteOp
  | UpdateOp Item "UpdateAction list"
  | Replicate "Item option" MrecVersion

text \<open>Why a write was rejected; the code renders each as a code and a message.\<close>

datatype Rejection =
    NotMrec
  | ByCondition ConditionError
  | ByUpdate UpdateError

datatype KindEvalDecision =
    Applied "KindWrite list" "bytes \<times> bytes" "Item option" "Item option" "MrecVersion option"
  | Superseded "Item option"
  | ConditionFailed
  | Rejected Rejection

definition kind_eval_applied ::
  "(StoredItem \<Rightarrow> bytes) \<Rightarrow> (ChangeRecord \<Rightarrow> bytes) \<Rightarrow> WriteSchema \<Rightarrow> AttributeValue \<Rightarrow>
   AttributeValue option \<Rightarrow> bytes \<Rightarrow> Item option \<Rightarrow> Item option \<Rightarrow> MrecVersion option \<Rightarrow> bool \<Rightarrow> KindEvalDecision" where
  "kind_eval_applied to_vec record_to_vec schema pk sk token_prefix old new new_ver expired =
     (let base_value =
            (case (new, new_ver) of
               (Some item, None) \<Rightarrow> encode_stored_item to_vec item
             | (None, None) \<Rightarrow> encode_tombstone to_vec
             | (Some item, Some ver) \<Rightarrow> encode_stored_item_versioned to_vec item ver
             | (None, Some ver) \<Rightarrow> encode_tombstone_versioned_keyed to_vec ver pk sk);
          derived = derive_kind_writes to_vec record_to_vec schema pk sk token_prefix base_value
                      old new expired KIND_BASE KIND_LSI
      in Applied (kw_writes derived) (kw_change_log derived) old new new_ver)"

text \<open>
  The thread-local switch \<^verbatim>\<open>lww_by_arrival\<close>, set only by the negative control of a test, is
  disarmed here.
\<close>

definition evaluate_kind_eval ::
  "(StoredItem \<Rightarrow> bytes) \<Rightarrow> (ChangeRecord \<Rightarrow> bytes) \<Rightarrow> WriteSchema \<Rightarrow> AttributeValue \<Rightarrow>
   AttributeValue option \<Rightarrow> bytes \<Rightarrow> Item option \<Rightarrow> MrecVersion option \<Rightarrow> KindEvalOp \<Rightarrow>
   ConditionExpression option \<Rightarrow> bool \<Rightarrow> KindEvalDecision" where
  "evaluate_kind_eval to_vec record_to_vec schema pk sk token_prefix old stored_ver op cond expired =
     (case op of
        Replicate item ver \<Rightarrow>
          if mrec schema = None then Rejected NotMrec
          else if \<not> supersedes ver stored_ver then Superseded old
          else kind_eval_applied to_vec record_to_vec schema pk sk token_prefix old item (Some ver) expired
      | _ \<Rightarrow>
          let proceed =
                (let new = (case op of
                              Put item \<Rightarrow> Inr (Some item)
                            | DeleteOp \<Rightarrow> Inr None
                            | UpdateOp key_item actions \<Rightarrow>
                                (case apply_update (case old of Some i \<Rightarrow> i | None \<Rightarrow> key_item) actions of
                                   Inr item \<Rightarrow> Inr (Some item)
                                 | Inl e \<Rightarrow> Inl e)
                            | Replicate item ver \<Rightarrow> Inr item)
                 in case new of
                      Inl e \<Rightarrow> Rejected (ByUpdate e)
                    | Inr new \<Rightarrow>
                        kind_eval_applied to_vec record_to_vec schema pk sk token_prefix old new
                          (map_option (\<lambda>m. next_local stored_ver (stamp_wall_ms m) (stamp_region_id m)) (mrec schema))
                          expired)
          in case cond of
               None \<Rightarrow> proceed
             | Some c \<Rightarrow>
                 (case evaluate c old of
                    Inr True \<Rightarrow> proceed
                  | Inr False \<Rightarrow> ConditionFailed
                  | Inl e \<Rightarrow> Rejected (ByCondition e)))"


definition stage_marker_token_valid :: "bytes \<Rightarrow> (bytes \<times> bytes) option \<Rightarrow> bool" where
  "stage_marker_token_valid base_key stage_marker =
     (case stage_marker of
        None \<Rightarrow> True
      | Some (pre, _) \<Rightarrow>
          TOKEN_BYTES \<le> length base_key \<and> TOKEN_BYTES \<le> length pre \<and>
          take TOKEN_BYTES pre = take TOKEN_BYTES base_key)"


section \<open>Stamps grow\<close>

lemma next_local_greater:
  assumes "\<forall>r. stored \<noteq> Some (MrecVersion (- 1) (- 1) r)"
  shows "supersedes (next_local stored wall region) stored"
proof -
  define s where "s = (case stored of Some v \<Rightarrow> v | None \<Rightarrow> ZERO)"
  have corner: "\<not> (wall_ms s = - 1 \<and> logical s = - 1)"
  proof (cases stored)
    case None
    then show ?thesis by (simp add: s_def ZERO_def)
  next
    case (Some v)
    with assms show ?thesis by (cases v) (auto simp: s_def)
  qed
  have "s < next_local stored wall region"
  proof (cases "wall > wall_ms s")
    case True
    then show ?thesis by (simp add: next_local_def s_def [symmetric] less_MrecVersion_def)
  next
    case False
    show ?thesis
    proof (cases "logical s = - 1")
      case True
      then have w: "wall_ms s \<noteq> - 1" using corner by simp
      then have "unat (wall_ms s) + unat (1 :: u64) < 2 ^ LENGTH(64)"
        using unat_not_max [OF w] by simp
      with w less_plus_one [OF w] show ?thesis
        using False True by (simp add: next_local_def s_def [symmetric] less_MrecVersion_def saturating_add_def)
    next
      case F: False
      with less_plus_one [OF F] False show ?thesis
        by (simp add: next_local_def s_def [symmetric] less_MrecVersion_def)
    qed
  qed
  then show ?thesis by (simp add: supersedes_def s_def)
qed

section \<open>Replicated writes converge\<close>

text \<open>
  A replica's row as the decision sees it, and the row after a replicated write: the decision
  either applies the record's image and stamp or leaves the row alone.
\<close>

type_synonym row = "Item option \<times> MrecVersion option"

definition replicate_row ::
  "(StoredItem \<Rightarrow> bytes) \<Rightarrow> (ChangeRecord \<Rightarrow> bytes) \<Rightarrow> bytes \<Rightarrow> WriteSchema \<Rightarrow> AttributeValue \<Rightarrow> AttributeValue option \<Rightarrow> row \<Rightarrow> Item option \<times> MrecVersion \<Rightarrow> row" where
  "replicate_row to_vec record_to_vec tok schema pk sk row r =
     (case evaluate_kind_eval to_vec record_to_vec schema pk sk tok (fst row) (snd row) (Replicate (fst r) (snd r)) None False of
        Applied _ _ _ new new_ver \<Rightarrow> (new, new_ver)
      | _ \<Rightarrow> row)"

definition replicate_all ::
  "(StoredItem \<Rightarrow> bytes) \<Rightarrow> (ChangeRecord \<Rightarrow> bytes) \<Rightarrow> bytes \<Rightarrow> WriteSchema \<Rightarrow> AttributeValue \<Rightarrow> AttributeValue option \<Rightarrow> row \<Rightarrow> (Item option \<times> MrecVersion) list \<Rightarrow> row" where
  "replicate_all to_vec record_to_vec tok schema pk sk row rs = foldl (replicate_row to_vec record_to_vec tok schema pk sk) row rs"

abbreviation ver_of :: "MrecVersion option \<Rightarrow> MrecVersion" where
  "ver_of v \<equiv> (case v of Some s \<Rightarrow> s | None \<Rightarrow> ZERO)"

lemma replicate_row_LWW:
  "mrec schema \<noteq> None \<Longrightarrow>
   replicate_row to_vec record_to_vec tok schema pk sk row r = (if snd r > ver_of (snd row) then (fst r, Some (snd r)) else row)"
  by (auto simp: replicate_row_def evaluate_kind_eval_def supersedes_def kind_eval_applied_def Let_def)

lemma replicate_all_ver:
  assumes "mrec schema \<noteq> None"
  shows "ver_of (snd (replicate_all to_vec record_to_vec tok schema pk sk row rs)) = fold max (map snd rs) (ver_of (snd row))"
  unfolding replicate_all_def
  by (induction rs arbitrary: row) (auto simp: replicate_row_LWW [OF assms] max_def)

lemma replicate_all_origin:
  assumes "mrec schema \<noteq> None"
  shows "replicate_all to_vec record_to_vec tok schema pk sk row rs = row \<or>
    (\<exists>r \<in> set rs. replicate_all to_vec record_to_vec tok schema pk sk row rs = (fst r, Some (snd r)) \<and> snd r > ver_of (snd row))"
  unfolding replicate_all_def
proof (induction rs arbitrary: row)
  case Nil
  then show ?case by simp
next
  case (Cons r rs)
  from Cons.IH [of "replicate_row to_vec record_to_vec tok schema pk sk row r"]
  show ?case by (auto simp: replicate_row_LWW [OF assms] split: if_splits)
qed

text \<open>One image per stamp: the condition under which the records of all Regions agree.\<close>

definition consistent :: "(Item option \<times> MrecVersion) set \<Rightarrow> bool" where
  "consistent R \<longleftrightarrow> (\<forall>r \<in> R. \<forall>r' \<in> R. snd r = snd r' \<longrightarrow> fst r = fst r')"

lemma fold_max_set:
  fixes xs ys :: "'a::linorder list"
  assumes "set xs = set ys"
  shows "fold max xs a = fold max ys a"
proof -
  have "fold max xs a = Max (insert a (set xs))" for xs :: "'a list"
    unfolding Max.set_eq_fold [symmetric] by simp
  with assms show ?thesis by simp
qed

lemma replicate_converges:
  assumes "mrec schema \<noteq> None" and "set rs = set rs'" and "consistent (set rs)"
  shows "replicate_all to_vec record_to_vec tok schema pk sk row rs = replicate_all to_vec record_to_vec tok schema pk sk row rs'"
proof -
  let ?a = "replicate_all to_vec record_to_vec tok schema pk sk row rs" and ?b = "replicate_all to_vec record_to_vec tok schema pk sk row rs'"
  have v: "ver_of (snd ?a) = ver_of (snd ?b)"
    unfolding replicate_all_ver [OF assms(1)] by (rule fold_max_set) (simp add: assms(2))
  consider "?a = row" "?b = row"
    | r where "r \<in> set rs" "?a = (fst r, Some (snd r))" "snd r > ver_of (snd row)" "?b = row"
    | r where "r \<in> set rs'" "?b = (fst r, Some (snd r))" "snd r > ver_of (snd row)" "?a = row"
    | r r' where "r \<in> set rs" "?a = (fst r, Some (snd r))" "r' \<in> set rs'" "?b = (fst r', Some (snd r'))"
    using replicate_all_origin [OF assms(1), of to_vec record_to_vec tok pk sk row rs] replicate_all_origin [OF assms(1), of to_vec record_to_vec tok pk sk row rs']
    by blast
  then show ?thesis
  proof cases
    case (4 r r')
    with v have "snd r = snd r'" by simp
    with 4(1,3) assms(2,3) have "fst r = fst r'" by (metis consistent_def)
    with 4(2,4) \<open>snd r = snd r'\<close> show ?thesis by simp
  qed (use v in auto)
qed

section \<open>Derived writes stay with their item\<close>




section \<open>Index rows follow the item\<close>












section \<open>Correctness of evaluated writes\<close>



text \<open>C11: replicas of a multi-Region table that receive the same stamped images, in any order and with any
  repetitions, end with the same image and stamp.\<close>

theorem replication_converges:
  assumes "mrec schema \<noteq> None" and "set rs = set rs'" and "consistent (set rs)"
  shows "replicate_all to_vec record_to_vec tok schema pk sk row rs =
    replicate_all to_vec record_to_vec tok schema pk sk row rs'"
  using assms by (rule replicate_converges)

theorem replication_converges_witness:
  "let schema = \<lparr>ws_key = simple ''p'', lsis = [], change_records_carry_images = False,
         mrec = Some \<lparr>stamp_region_id = 1, stamp_wall_ms = 5\<rparr>\<rparr>;
       a = (Some [(''x'', N ''1'')], MrecVersion 7 0 1); b = (None, MrecVersion 7 0 2)
   in replicate_all (\<lambda>_. []) (\<lambda>_. []) [] schema (S ''k'') None (None, None) [a, b, a] =
      replicate_all (\<lambda>_. []) (\<lambda>_. []) [] schema (S ''k'') None (None, None) [b, a]"
  unfolding Let_def
proof (rule replication_converges)
  show "consistent (set [(Some [(''x'', N ''1'')], MrecVersion 7 0 1), (None, MrecVersion 7 0 2),
      (Some [(''x'', N ''1'')], MrecVersion 7 0 1)])" by (simp add: consistent_def)
qed auto

text \<open>C28: a local write's stamp is above the stored one unless the stored stamp has the greatest wall and
  the greatest logical part, whatever its region. There the new stamp falls back to logical part zero at
  the greatest wall, which is below the stored one.\<close>

theorem local_stamp_grows:
  "(supersedes (next_local stored wall region) stored \<longleftrightarrow>
      \<not> (\<exists>r. stored = Some (MrecVersion (- 1) (- 1) r))) \<and>
   next_local (Some (MrecVersion (- 1) (- 1) r)) wall region = MrecVersion (- 1) 0 region \<and>
   MrecVersion (- 1) 0 region < MrecVersion (- 1) (- 1) r"
proof -
  have top: "\<not> (- 1 :: u64) < wall" "saturating_add (- 1) (1 :: u64) = - 1"
    by (simp_all add: not_less saturating_add_def unsigned_minus_1_eq_mask mask_eq_exp_minus_1)
  then have eq: "next_local (Some (MrecVersion (- 1) (- 1) r)) wall region = MrecVersion (- 1) 0 region" for r
    by (simp add: next_local_def)
  have "(0 :: u32) < - 1" by code_simp
  then have lt: "MrecVersion (- 1) 0 region < MrecVersion (- 1) (- 1) r" for r
    by (simp add: less_MrecVersion_def)
  have "supersedes (next_local stored wall region) stored" if "\<not> (\<exists>r. stored = Some (MrecVersion (- 1) (- 1) r))"
    using that by (intro next_local_greater) blast
  moreover have "\<not> supersedes (next_local stored wall region) stored" if "stored = Some (MrecVersion (- 1) (- 1) r)" for r
    using lt [of r] by (simp add: that eq supersedes_def less_imp_not_less)
  ultimately show ?thesis using eq lt by blast
qed

end
