(* ===== verification/Hlc_Clock.thy ===== *)
theory Hlc_Clock
  imports Prelude
begin

unbundle bit_operations_syntax

text \<open>
  The hybrid logical clock of the data plane (\<^verbatim>\<open>crates/animus-cp-data/src/hlc.rs\<close>): timestamps,
  their packing into 64-bit storage versions, and the mint and witness rules. The lemmas show that
  packing is an order isomorphism on the packable timestamps, and that the timestamps a clock hands
  out over any sequence of events grow strictly, exceed every witnessed timestamp and stay packable
  while the clocks they follow do.
\<close>

section \<open>Timestamps and versions\<close>

datatype HlcTimestamp = HlcTimestamp (ts_wall: u64) (ts_logical: u32)

instantiation HlcTimestamp :: linorder
begin

definition less_HlcTimestamp :: "HlcTimestamp \<Rightarrow> HlcTimestamp \<Rightarrow> bool" where
  "less_HlcTimestamp a b \<longleftrightarrow> ts_wall a < ts_wall b \<or> ts_wall a = ts_wall b \<and> ts_logical a < ts_logical b"

definition less_eq_HlcTimestamp :: "HlcTimestamp \<Rightarrow> HlcTimestamp \<Rightarrow> bool" where
  "less_eq_HlcTimestamp a b \<longleftrightarrow> a = b \<or> a < b"

instance
proof
  fix x y z :: HlcTimestamp
  show "x < y \<longleftrightarrow> x \<le> y \<and> \<not> y \<le> x" by (auto simp: less_eq_HlcTimestamp_def less_HlcTimestamp_def)
  show "x \<le> x" by (simp add: less_eq_HlcTimestamp_def)
  show "x \<le> y \<Longrightarrow> y \<le> z \<Longrightarrow> x \<le> z" by (auto simp: less_eq_HlcTimestamp_def less_HlcTimestamp_def)
  show "x \<le> y \<Longrightarrow> y \<le> x \<Longrightarrow> x = y" by (auto simp: less_eq_HlcTimestamp_def less_HlcTimestamp_def)
  show "x \<le> y \<or> y \<le> x" by (cases x; cases y) (auto simp: less_eq_HlcTimestamp_def less_HlcTimestamp_def)
qed

end

definition LOGICAL_BITS :: nat where "LOGICAL_BITS = 20"

definition ts_zero :: HlcTimestamp where "ts_zero = HlcTimestamp 0 0"

text \<open>\<open>None\<close> where one of the two assertions of \<^verbatim>\<open>pack\<close> fails.\<close>

definition pack :: "HlcTimestamp \<Rightarrow> u64 option" where
  "pack ts =
     (if \<not> ts_logical ts < push_bit LOGICAL_BITS 1 then None
      else if \<not> ts_wall ts < push_bit (64 - LOGICAL_BITS) 1 then None
      else Some (push_bit LOGICAL_BITS (ts_wall ts) OR ucast (ts_logical ts)))"

definition unpack :: "u64 \<Rightarrow> HlcTimestamp" where
  "unpack v = HlcTimestamp (drop_bit LOGICAL_BITS v) (ucast (v AND (push_bit LOGICAL_BITS 1 - 1)))"

definition bump_strictly_above :: "HlcTimestamp \<Rightarrow> HlcTimestamp" where
  "bump_strictly_above ts =
     (let bumped_logical = ts_logical ts + 1
      in if bumped_logical \<ge> push_bit LOGICAL_BITS 1 then HlcTimestamp (ts_wall ts + 1) 0
         else HlcTimestamp (ts_wall ts) bumped_logical)"

section \<open>The clock\<close>

text \<open>The pair behind the mutex, and the clock's bound on skew in milliseconds.\<close>

record HlcState =
  st_wall :: u64
  st_logical :: u32

definition hlc_new :: HlcState where "hlc_new = \<lparr>st_wall = 0, st_logical = 0\<rparr>"

definition now_ms :: "u64 \<Rightarrow> u64" where "now_ms now = now div 1000000"

definition carry_overflow :: "u64 \<Rightarrow> u32 \<Rightarrow> u64 \<times> u32" where
  "carry_overflow wall l = (if l \<ge> push_bit LOGICAL_BITS 1 then (wall + 1, 0) else (wall, l))"

definition mint :: "HlcState \<Rightarrow> u64 \<Rightarrow> HlcTimestamp \<times> HlcState" where
  "mint st now =
     (let wall = max (now_ms now) (st_wall st);
          l = (if wall = st_wall st then st_logical st + 1 else 0);
          (wall, l) = carry_overflow wall l
      in (HlcTimestamp wall l, \<lparr>st_wall = wall, st_logical = l\<rparr>))"

definition witness :: "HlcState \<Rightarrow> HlcTimestamp \<Rightarrow> u64 \<Rightarrow> HlcTimestamp \<times> HlcState" where
  "witness st remote now =
     (let wall = max (max (now_ms now) (st_wall st)) (ts_wall remote);
          l = (if wall = st_wall st \<and> wall = ts_wall remote then max (st_logical st) (ts_logical remote) + 1
               else if wall = st_wall st then st_logical st + 1
               else if wall = ts_wall remote then ts_logical remote + 1
               else 0);
          (wall, l) = carry_overflow wall l
      in (HlcTimestamp wall l, \<lparr>st_wall = wall, st_logical = l\<rparr>))"

text \<open>\<open>max_offset_millis\<close> is \<^verbatim>\<open>max_offset.as_millis()\<close>, clamped as the code clamps it.\<close>

definition uncertainty_upper :: "nat \<Rightarrow> HlcTimestamp \<Rightarrow> HlcTimestamp" where
  "uncertainty_upper max_offset_millis ts =
     HlcTimestamp (saturating_add (ts_wall ts) (word_of_nat (min max_offset_millis (2 ^ 64 - 1)))) 0"

section \<open>Packing is an order isomorphism\<close>

definition packable :: "HlcTimestamp \<Rightarrow> bool" where
  "packable ts \<longleftrightarrow> unat (ts_wall ts) < 2 ^ 44 \<and> unat (ts_logical ts) < 2 ^ 20"

lemma or_plus: "l < 2 ^ n \<Longrightarrow> push_bit n w OR l = w * 2 ^ n + (l :: nat)"
proof -
  assume "l < 2 ^ n"
  then have l: "take_bit n l = l" by (simp add: take_bit_nat_eq_self)
  have "push_bit n w + take_bit n l = push_bit n w OR take_bit n l"
    by (rule disjunctive_add) (auto simp: bit_push_bit_iff bit_take_bit_iff)
  then show ?thesis by (simp add: l push_bit_eq_mult)
qed

lemma one_shift [simp]: "unat (push_bit 20 1 :: u32) = 2 ^ 20" "unat (push_bit 44 1 :: u64) = 2 ^ 44"
  "unat (push_bit 20 1 :: u64) = 2 ^ 20"
  by (simp_all add: push_bit_eq_mult)

lemma pack_guards:
  "ts_logical ts < push_bit 20 1 \<longleftrightarrow> unat (ts_logical ts) < 2 ^ 20"
  "ts_wall ts < push_bit 44 1 \<longleftrightarrow> unat (ts_wall ts) < 2 ^ 44"
  by (simp_all only: word_less_nat_alt one_shift)

lemma pack_packable:
  "pack ts = (if packable ts then Some (push_bit 20 (ts_wall ts) OR ucast (ts_logical ts)) else None)"
proof -
  have e: "(64 :: nat) - 20 = 44" by simp
  show ?thesis unfolding pack_def LOGICAL_BITS_def e pack_guards packable_def by auto
qed

lemma pack_Some: "pack ts = Some v \<longleftrightarrow> packable ts \<and> v = push_bit 20 (ts_wall ts) OR ucast (ts_logical ts)"
  unfolding pack_packable by (auto simp del: push_bit_of_0)

lemma pack_None: "pack ts = None \<longleftrightarrow> \<not> packable ts"
  by (simp add: pack_packable)

lemma unat_pack:
  assumes "pack ts = Some v"
  shows "unat v = unat (ts_wall ts) * 2 ^ 20 + unat (ts_logical ts)"
proof -
  from assms have p: "packable ts" and v: "v = push_bit 20 (ts_wall ts) OR ucast (ts_logical ts)"
    by (simp_all add: pack_Some)
  have "unat (ts_wall ts) * 2 ^ 20 < 2 ^ 44 * 2 ^ 20"
    using p by (intro mult_strict_right_mono) (simp_all add: packable_def)
  then have "take_bit LENGTH(64) (push_bit 20 (unat (ts_wall ts))) = push_bit 20 (unat (ts_wall ts))"
    by (intro take_bit_nat_eq_self) (simp add: push_bit_eq_mult)
  then have w: "unat (push_bit 20 (ts_wall ts)) = push_bit 20 (unat (ts_wall ts))"
    by (simp only: unsigned_push_bit_eq)
  have l: "unat (ucast (ts_logical ts) :: u64) = unat (ts_logical ts)"
    using p by (simp add: unsigned_ucast_eq packable_def take_bit_nat_eq_self)
  have "unat (ts_logical ts) < 2 ^ 20" using p by (simp add: packable_def)
  from or_plus [OF this] show ?thesis
    unfolding v unsigned_or_eq w l .
qed

lemma pack_less:
  assumes "pack a = Some va" and "pack b = Some vb"
  shows "va < vb \<longleftrightarrow> a < b"
proof -
  have p: "unat (ts_logical a) < 2 ^ 20" "unat (ts_logical b) < 2 ^ 20"
    using assms by (simp_all add: pack_Some packable_def)
  show ?thesis
    unfolding word_less_nat_alt unat_pack [OF assms(1)] unat_pack [OF assms(2)] less_HlcTimestamp_def
    using p by (auto simp: word_unat_eq_iff)
qed

lemma unpack_pack:
  assumes "pack ts = Some v"
  shows "unpack v = ts"
proof -
  have p: "unat (ts_logical ts) < 2 ^ 20" using assms by (simp add: pack_Some packable_def)
  have v: "unat v = unat (ts_wall ts) * 2 ^ 20 + unat (ts_logical ts)" by (rule unat_pack [OF assms])
  have m: "push_bit 20 1 - 1 = (mask 20 :: u64)" by (simp add: mask_eq_exp_minus_1 push_bit_eq_mult)
  have "unat (drop_bit 20 v) = unat (ts_wall ts)"
    unfolding unat_drop_bit_eq v using p by (simp add: drop_bit_eq_div)
  then have "drop_bit 20 v = ts_wall ts" by (simp only: word_unat_eq_iff)
  moreover have "ucast (v AND (push_bit 20 1 - 1)) = ts_logical ts"
  proof -
    have "unat (take_bit 20 v) = take_bit 20 (unat v)" by (rule unsigned_take_bit_eq)
    also have "\<dots> = unat (ts_logical ts)" unfolding v take_bit_eq_mod using p by simp
    finally have "unat (ucast (take_bit 20 v) :: u32) = unat (ts_logical ts)"
      using p by (simp only: unsigned_ucast_eq) (simp add: take_bit_nat_eq_self)
    then show ?thesis by (simp only: m word_unat_eq_iff flip: take_bit_eq_mask)
  qed
  ultimately show ?thesis by (cases ts) (simp add: unpack_def LOGICAL_BITS_def)
qed

section \<open>Minted timestamps grow\<close>

text \<open>A clock whose logical part fits its field; its last timestamp; one event and its result.\<close>

definition clock_ok :: "HlcState \<Rightarrow> bool" where
  "clock_ok st \<longleftrightarrow> unat (st_logical st) < 2 ^ 20"

definition last_ts :: "HlcState \<Rightarrow> HlcTimestamp" where
  "last_ts st = HlcTimestamp (st_wall st) (st_logical st)"

datatype event = Mint u64 | Witness HlcTimestamp u64

fun clock_step :: "HlcState \<Rightarrow> event \<Rightarrow> HlcTimestamp \<times> HlcState" where
  "clock_step st (Mint now) = mint st now"
| "clock_step st (Witness remote now) = witness st remote now"

fun clock_run :: "HlcState \<Rightarrow> event list \<Rightarrow> HlcTimestamp list" where
  "clock_run st [] = []"
| "clock_run st (e # es) = (let (ts, st') = clock_step st e in ts # clock_run st' es)"

text \<open>The walls an event brings in, and what it must exceed.\<close>

fun event_walls :: "event \<Rightarrow> nat" where
  "event_walls (Mint now) = unat (now_ms now)"
| "event_walls (Witness remote now) = max (unat (now_ms now)) (unat (ts_wall remote))"

fun event_floor :: "event \<Rightarrow> HlcTimestamp \<Rightarrow> bool" where
  "event_floor (Mint now) ts = True"
| "event_floor (Witness remote now) ts = (remote < ts)"

fun event_ok :: "event \<Rightarrow> bool" where
  "event_ok (Mint now) = True"
| "event_ok (Witness remote now) = (unat (ts_logical remote) < 2 ^ 20)"

lemma carry_overflow_above:
  assumes "unat l < 2 ^ 20" and "unat w + 1 < 2 ^ 64" and "carry_overflow w (l + 1) = (w', l')"
  shows "HlcTimestamp w l < HlcTimestamp w' l'" and "unat l' < 2 ^ 20" and "unat w' \<le> unat w + 1" and "w \<le> w'"
proof -
  have l1: "unat (l + 1) = unat l + 1" using assms(1) by (intro unat_Suc_less) simp
  have w1: "unat (w + 1) = unat w + 1" using assms(2) by (intro unat_Suc_less) simp
  have g: "push_bit 20 1 \<le> l + 1 \<longleftrightarrow> 2 ^ 20 \<le> unat l + 1"
    unfolding word_le_nat_alt one_shift l1 ..
  have c: "(w', l') = (if 2 ^ 20 \<le> unat l + 1 then (w + 1, 0) else (w, l + 1))"
    using assms(3) unfolding carry_overflow_def LOGICAL_BITS_def g by simp
  show "HlcTimestamp w l < HlcTimestamp w' l'"
    using c l1 w1 by (auto simp: less_HlcTimestamp_def word_less_nat_alt split: if_splits)
  show "unat l' < 2 ^ 20" using c l1 by (auto split: if_splits)
  show "unat w' \<le> unat w + 1" using c w1 by (auto split: if_splits)
  show "w \<le> w'" using c w1 by (auto simp: word_le_nat_alt split: if_splits)
qed

lemma carry_overflow_zero: "carry_overflow w 0 = (w, 0)"
  by (simp add: carry_overflow_def LOGICAL_BITS_def push_bit_eq_mult)

lemma unat_max: "unat (max a b) = max (unat a) (unat b)"
  by (auto simp: max_def word_le_nat_alt)

lemma mint_step:
  assumes "clock_ok st" and "mint st now = (ts, st')" and "max (unat (now_ms now)) (unat (st_wall st)) + 1 < 2 ^ 64"
  shows "last_ts st < ts \<and> ts = last_ts st' \<and> clock_ok st' \<and>
    unat (ts_wall ts) \<le> max (unat (now_ms now)) (unat (st_wall st)) + 1"
proof -
  define w where "w = max (now_ms now) (st_wall st)"
  define l where "l = (if w = st_wall st then st_logical st + 1 else 0)"
  obtain w' l' where c: "carry_overflow w l = (w', l')" by (cases "carry_overflow w l") auto
  have t: "ts = HlcTimestamp w' l'" "st' = \<lparr>st_wall = w', st_logical = l'\<rparr>"
    using assms(2) c by (auto simp: mint_def Let_def w_def l_def)
  have uw: "unat w = max (unat (now_ms now)) (unat (st_wall st))" by (simp add: w_def unat_max)
  show ?thesis
  proof (cases "w = st_wall st")
    case True
    with c have "carry_overflow (st_wall st) (st_logical st + 1) = (w', l')" by (simp add: l_def)
    moreover have "unat (st_wall st) + 1 < 2 ^ 64" using assms(3) by simp
    ultimately show ?thesis
      using carry_overflow_above [of "st_logical st" "st_wall st" w' l'] assms(1) True uw
      by (auto simp: t last_ts_def clock_ok_def)
  next
    case False
    then have "st_wall st < w" by (auto simp: w_def max_def split: if_splits)
    with c False t uw show ?thesis
      by (auto simp: l_def carry_overflow_zero last_ts_def clock_ok_def less_HlcTimestamp_def)
  qed
qed

lemma witness_step:
  assumes "clock_ok st" and "unat (ts_logical remote) < 2 ^ 20" and "witness st remote now = (ts, st')"
    and "max (max (unat (now_ms now)) (unat (st_wall st))) (unat (ts_wall remote)) + 1 < 2 ^ 64"
  shows "last_ts st < ts \<and> remote < ts \<and> ts = last_ts st' \<and> clock_ok st' \<and>
    unat (ts_wall ts) \<le> max (max (unat (now_ms now)) (unat (st_wall st))) (unat (ts_wall remote)) + 1"
proof -
  define w where "w = max (max (now_ms now) (st_wall st)) (ts_wall remote)"
  define l where "l = (if w = st_wall st \<and> w = ts_wall remote then max (st_logical st) (ts_logical remote)
      else if w = st_wall st then st_logical st else ts_logical remote)"
  define z where "z \<longleftrightarrow> w \<noteq> st_wall st \<and> w \<noteq> ts_wall remote"
  obtain w' l' where c: "carry_overflow w (if z then 0 else l + 1) = (w', l')"
    by (cases "carry_overflow w (if z then 0 else l + 1)") auto
  have t: "ts = HlcTimestamp w' l'" "st' = \<lparr>st_wall = w', st_logical = l'\<rparr>"
    using assms(3) c unfolding witness_def Let_def w_def [symmetric] z_def l_def
    by (auto split: if_splits)
  have uw: "unat w = max (max (unat (now_ms now)) (unat (st_wall st))) (unat (ts_wall remote))"
    by (simp add: w_def unat_max)
  have wb: "st_wall st \<le> w" "ts_wall remote \<le> w" by (auto simp: w_def le_max_iff_disj)
  show ?thesis
  proof (cases z)
    case True
    then have "st_wall st < w" "ts_wall remote < w" using wb by (auto simp: z_def)
    with c True t uw show ?thesis
      by (auto simp: carry_overflow_zero last_ts_def clock_ok_def less_HlcTimestamp_def)
  next
    case False
    have lb: "unat l < 2 ^ 20" using assms(1,2) by (auto simp: l_def clock_ok_def unat_max)
    have cc: "carry_overflow w (l + 1) = (w', l')" using c False by simp
    have wl: "unat w + 1 < 2 ^ 64" using assms(4) uw by simp
    note ab = carry_overflow_above [OF lb wl cc]
    have "last_ts st \<le> HlcTimestamp w l" "remote \<le> HlcTimestamp w l"
      using wb False by (cases remote;
          auto simp: z_def l_def last_ts_def less_eq_HlcTimestamp_def less_HlcTimestamp_def le_max_iff_disj max_def)+
    with ab t uw show ?thesis by (auto simp: last_ts_def clock_ok_def)
  qed
qed

text \<open>
  Along any run whose walls stay at most \<open>W\<close>, each event adds at most one millisecond of carry, so
  \<open>W + length es\<close> bounds every wall and no addition wraps.
\<close>

lemma clock_step_grows:
  assumes "clock_ok st" and "event_ok e" and "clock_step st e = (ts, st')"
    and "event_walls e \<le> W" and "unat (st_wall st) \<le> W" and "W + 1 < 2 ^ 64"
  shows "last_ts st < ts \<and> event_floor e ts \<and> ts = last_ts st' \<and> clock_ok st' \<and> unat (ts_wall ts) \<le> W + 1"
proof (cases e)
  case (Mint now)
  with assms mint_step [of st now ts st'] show ?thesis by auto
next
  case (Witness remote now)
  with assms witness_step [of st remote now ts st'] show ?thesis by auto
qed

lemma clock_run_grows:
  assumes "clock_ok st" and "list_all event_ok es" and "\<forall>e \<in> set es. event_walls e \<le> W"
    and "unat (st_wall st) \<le> W" and "W + length es < 2 ^ 44"
  shows "sorted_wrt (<) (last_ts st # clock_run st es) \<and> list_all packable (clock_run st es) \<and>
    list_all2 event_floor es (clock_run st es)"
  using assms
proof (induction es arbitrary: st W)
  case Nil
  then show ?case by simp
next
  case (Cons e es)
  obtain ts st' where s: "clock_step st e = (ts, st')" by (cases "clock_step st e") auto
  have W: "W + 1 < 2 ^ 64" using Cons.prems(5) by simp
  from clock_step_grows [OF Cons.prems(1) _ s _ Cons.prems(4) W] Cons.prems(2,3)
  have g: "last_ts st < ts" "event_floor e ts" "ts = last_ts st'" "clock_ok st'" "unat (ts_wall ts) \<le> W + 1"
    by auto
  have "unat (st_wall st') \<le> W + 1" using g(3,5) by (simp add: last_ts_def)
  moreover have "\<forall>e \<in> set es. event_walls e \<le> W + 1" using Cons.prems(3) by fastforce
  ultimately have IH: "sorted_wrt (<) (last_ts st' # clock_run st' es) \<and> list_all packable (clock_run st' es) \<and>
      list_all2 event_floor es (clock_run st' es)"
    using Cons.IH [OF g(4)] Cons.prems(2,5) by auto
  have "packable ts" using g(3,4,5) Cons.prems(5) by (simp add: packable_def last_ts_def clock_ok_def)
  with IH g s show ?case by (auto intro: order.strict_trans)
qed

lemma bump_strictly_above_greater:
  assumes "unat (ts_logical ts) < 2 ^ 20" and "unat (ts_wall ts) + 1 < 2 ^ 64"
  shows "ts < bump_strictly_above ts"
proof -
  obtain w' l' where c: "carry_overflow (ts_wall ts) (ts_logical ts + 1) = (w', l')"
    by (cases "carry_overflow (ts_wall ts) (ts_logical ts + 1)") auto
  then have "bump_strictly_above ts = HlcTimestamp w' l'"
    by (auto simp: bump_strictly_above_def carry_overflow_def Let_def split: if_splits)
  with carry_overflow_above(1) [OF assms c] show ?thesis by simp
qed

section \<open>Correctness of the clock\<close>

text \<open>C29: packed timestamps order as the timestamps do and unpack to them.\<close>

theorem pack_order_round_trip:
  assumes "pack a = Some va" and "pack b = Some vb"
  shows "(va < vb \<longleftrightarrow> a < b) \<and> unpack va = a"
  using pack_less [OF assms] unpack_pack [OF assms(1)] by blast

theorem pack_order_round_trip_witness:
  "(the (pack (HlcTimestamp 5 1048575)) < the (pack (HlcTimestamp 6 0)) \<longleftrightarrow> HlcTimestamp 5 1048575 < HlcTimestamp 6 0) \<and>
    unpack (the (pack (HlcTimestamp 5 1048575))) = HlcTimestamp 5 1048575"
proof (rule pack_order_round_trip)
  show "pack (HlcTimestamp 5 1048575) = Some (the (pack (HlcTimestamp 5 1048575)))" by code_simp
  show "pack (HlcTimestamp 6 0) = Some (the (pack (HlcTimestamp 6 0)))" by code_simp
qed

text \<open>C14: over any sequence of minted and witnessed timestamps, with walls below a bound that leaves room
  for one carry per event in the 44 bits of a packed wall, the clock's timestamps strictly increase, exceed every witnessed remote
  timestamp, and fit the packed form.\<close>

theorem clock_monotone:
  assumes "clock_ok st" and "list_all event_ok es" and "\<forall>e \<in> set es. event_walls e \<le> W"
    and "unat (st_wall st) \<le> W" and "W + length es < 2 ^ 44"
  shows "sorted_wrt (<) (last_ts st # clock_run st es) \<and> list_all packable (clock_run st es) \<and>
    list_all2 event_floor es (clock_run st es)"
  using assms by (rule clock_run_grows)

theorem clock_monotone_witness:
  "sorted_wrt (<) (last_ts hlc_new # clock_run hlc_new [Mint 3000000, Witness (HlcTimestamp 9 4) 0, Mint 1]) \<and>
    list_all packable (clock_run hlc_new [Mint 3000000, Witness (HlcTimestamp 9 4) 0, Mint 1]) \<and>
    list_all2 event_floor [Mint 3000000, Witness (HlcTimestamp 9 4) 0, Mint 1]
      (clock_run hlc_new [Mint 3000000, Witness (HlcTimestamp 9 4) 0, Mint 1])"
proof (rule clock_monotone [where W = 9])
  show "\<forall>e \<in> set [Mint 3000000, Witness (HlcTimestamp 9 4) 0, Mint 1]. event_walls e \<le> 9"
    by (simp add: now_ms_def)
qed (simp_all add: clock_ok_def hlc_new_def)

end
