(* ===== verification/Ts_Cache.thy ===== *)
theory Ts_Cache
  imports Hlc_Clock Ordered_Map "HOL-Library.Product_Lexorder" "HOL-Library.Option_ord"
begin

unbundle bit_operations_syntax

text \<open>
  The read-timestamp cache (\<^verbatim>\<open>crates/animus-cp-data/src/ts_cache.rs\<close>) and its two clients in
  \<^verbatim>\<open>lib.rs\<close>: the write push \<^verbatim>\<open>mint_pushed\<close> and the ceiling ratchet \<^verbatim>\<open>next_ceiling_candidate\<close>. The
  lemmas show that no sequence of reads, rotations and ceiling raises loses a read: the floor of a
  key is at least every timestamp at which a span with that key was read, so a pushed write always
  lands strictly above it.
\<close>

section \<open>The cache\<close>

definition ROTATION_BOUND :: nat where "ROTATION_BOUND = 4096"

type_synonym Span = "bytes \<times> bytes option"

definition point_span :: "bytes \<Rightarrow> Span" where
  "point_span key = (key, Some (key @ [0]))"

definition span_contains :: "bytes \<Rightarrow> bytes option \<Rightarrow> bytes \<Rightarrow> bool" where
  "span_contains start stop key \<longleftrightarrow> start \<le> key \<and> (case stop of Some e \<Rightarrow> key < e | None \<Rightarrow> True)"

record TsCache =
  current :: "(Span, HlcTimestamp) bmap"
  previous :: "(Span, HlcTimestamp) bmap"
  low_water :: HlcTimestamp

definition ts_cache_new :: TsCache where
  "ts_cache_new = \<lparr>current = [], previous = [], low_water = ts_zero\<rparr>"

definition rotate :: "TsCache \<Rightarrow> TsCache" where
  "rotate c =
     (let dropped_max = (if previous c = [] then None else Some (Max (set (map snd (previous c)))));
          lw = (case dropped_max of Some m \<Rightarrow> if m > low_water c then m else low_water c | None \<Rightarrow> low_water c)
      in c\<lparr>low_water := lw, previous := current c, current := []\<rparr>)"

definition bump :: "TsCache \<Rightarrow> bytes \<Rightarrow> bytes option \<Rightarrow> HlcTimestamp \<Rightarrow> TsCache" where
  "bump c start stop ts =
     (let slot = (case bm_get (current c) (start, stop) of Some old \<Rightarrow> old | None \<Rightarrow> ts);
          slot = (if ts > slot then ts else slot);
          c' = c\<lparr>current := bm_insert (start, stop) slot (current c)\<rparr>
      in if length (current c') > ROTATION_BOUND then rotate c' else c')"

text \<open>The three nested loops: keys, then the two generations, then their entries.\<close>

definition scan_generation :: "bytes \<Rightarrow> (Span, HlcTimestamp) bmap \<Rightarrow> HlcTimestamp \<Rightarrow> HlcTimestamp" where
  "scan_generation key gen flr =
     fold (\<lambda>((start, stop), ts) flr. if ts > flr \<and> span_contains start stop key then ts else flr) gen flr"

definition max_overlapping :: "TsCache \<Rightarrow> bytes list \<Rightarrow> HlcTimestamp" where
  "max_overlapping c keys =
     fold (\<lambda>key flr. scan_generation key (previous c) (scan_generation key (current c) flr)) keys (low_water c)"

definition raise_low_water :: "TsCache \<Rightarrow> HlcTimestamp \<Rightarrow> TsCache" where
  "raise_low_water c ts = (if ts > low_water c then c\<lparr>low_water := ts\<rparr> else c)"

section \<open>Its clients\<close>

text \<open>The leader state \<^verbatim>\<open>mint_pushed\<close> reads and writes; the two atomics hold packed timestamps.\<close>

record Leader =
  ld_hlc :: HlcState
  ld_cache :: TsCache
  last_absorbed_term :: u64
  committed_ceiling :: u64
  last_proposed_ts :: u64
  last_ceiling_candidate :: u64

text \<open>\<open>None\<close> where the assertion that the bump exceeds the floor fails.\<close>

definition mint_pushed :: "Leader \<Rightarrow> u64 \<Rightarrow> u64 \<Rightarrow> bytes list \<Rightarrow> (HlcTimestamp \<times> Leader) option" where
  "mint_pushed ld now term keys =
     (let (ts, hlc) = mint (ld_hlc ld) now;
          cache = (if last_absorbed_term ld \<noteq> term
                   then raise_low_water (ld_cache ld) (unpack (committed_ceiling ld))
                   else ld_cache ld);
          cache_floor = max_overlapping cache keys;
          ld' = ld\<lparr>ld_hlc := hlc, ld_cache := cache, last_absorbed_term := term\<rparr>;
          flr = max cache_floor (unpack (last_proposed_ts ld))
      in if ts > flr then Some (ts, ld')
         else let pushed = bump_strictly_above flr
              in if pushed > flr then Some (pushed, ld') else None)"

text \<open>
  The successful round of the compare-and-swap loop: \<open>None\<close> where packing the candidate panics.
\<close>

definition next_ceiling_candidate :: "Leader \<Rightarrow> HlcTimestamp \<Rightarrow> (HlcTimestamp \<times> Leader) option" where
  "next_ceiling_candidate ld margin =
     (let last = max (unpack (last_ceiling_candidate ld)) (unpack (last_proposed_ts ld));
          candidate = (if margin > last then margin else bump_strictly_above last)
      in case pack candidate of
           None \<Rightarrow> None
         | Some v \<Rightarrow> Some (candidate, ld\<lparr>last_ceiling_candidate := v\<rparr>))"

section \<open>The floor is the greatest overlapping read\<close>

lemma point_span_singleton: "(case point_span key of (s, e) \<Rightarrow> span_contains s e k) \<longleftrightarrow> k = key"
  by (auto simp: point_span_def span_contains_def less_successor le_successor_iff)

lemma scan_generation_Cons:
  "scan_generation key (((s, e), t) # gen) flr =
     scan_generation key gen (if t > flr \<and> span_contains s e key then t else flr)"
  by (simp add: scan_generation_def)

lemma scan_generation_le: "flr \<le> scan_generation key gen flr"
proof (induction gen arbitrary: flr)
  case Nil
  then show ?case by (simp add: scan_generation_def)
next
  case (Cons x gen)
  obtain s e t where x: "x = ((s, e), t)" by (cases x) auto
  let ?f = "if t > flr \<and> span_contains s e key then t else flr"
  have "flr \<le> ?f" by (simp add: less_imp_le)
  also have "\<dots> \<le> scan_generation key gen ?f" by (rule Cons.IH)
  finally show ?case unfolding x scan_generation_Cons .
qed

lemma scan_generation_ge:
  "((s, e), ts) \<in> set gen \<Longrightarrow> span_contains s e key \<Longrightarrow> ts \<le> scan_generation key gen flr"
proof (induction gen arbitrary: flr)
  case Nil
  then show ?case by simp
next
  case (Cons x gen)
  show ?case
  proof (cases "x = ((s, e), ts)")
    case True
    have "ts \<le> (if ts > flr then ts else flr)" by (simp add: not_less)
    also have "\<dots> \<le> scan_generation key (x # gen) flr"
      using scan_generation_le [of "if ts > flr then ts else flr" key gen] True Cons.prems(2)
      by (simp add: scan_generation_def)
    finally show ?thesis .
  next
    case False
    obtain s' e' t' where x: "x = ((s', e'), t')" by (cases x) auto
    from False Cons.prems(1) have "((s, e), ts) \<in> set gen" by auto
    from Cons.IH [OF this Cons.prems(2)] show ?thesis unfolding x scan_generation_Cons .
  qed
qed

lemma scan_generation_mem:
  "scan_generation key gen flr = flr \<or>
   (\<exists>s e. ((s, e), scan_generation key gen flr) \<in> set gen \<and> span_contains s e key)"
proof (induction gen arbitrary: flr)
  case Nil
  then show ?case by (simp add: scan_generation_def)
next
  case (Cons x gen)
  obtain s e t where x: "x = ((s, e), t)" by (cases x) auto
  let ?f = "if t > flr \<and> span_contains s e key then t else flr"
  have r: "scan_generation key (x # gen) flr = scan_generation key gen ?f"
    by (simp only: x scan_generation_Cons)
  show ?case
  proof (cases "t > flr \<and> span_contains s e key")
    case True
    then have f: "?f = t" by simp
    from Cons.IH [of t] show ?thesis
    proof
      assume "scan_generation key gen t = t"
      then have "((s, e), scan_generation key (x # gen) flr) \<in> set (x # gen)" unfolding r f by (simp add: x)
      with True show ?thesis by blast
    next
      assume "\<exists>s e. ((s, e), scan_generation key gen t) \<in> set gen \<and> span_contains s e key"
      then show ?thesis unfolding r f by auto
    qed
  next
    case False
    then have f: "?f = flr" by (rule if_not_P)
    from Cons.IH [of flr] show ?thesis unfolding r f by auto
  qed
qed

text \<open>An entry of either generation.\<close>

definition entry :: "TsCache \<Rightarrow> Span \<Rightarrow> HlcTimestamp \<Rightarrow> bool" where
  "entry c sp ts \<longleftrightarrow> (sp, ts) \<in> set (current c) \<or> (sp, ts) \<in> set (previous c)"

lemma scan_keys_le:
  "flr \<le> fold (\<lambda>key flr. scan_generation key p (scan_generation key q flr)) keys flr"
proof (induction keys arbitrary: flr)
  case (Cons k keys)
  have "flr \<le> scan_generation k p (scan_generation k q flr)"
    using scan_generation_le order_trans by metis
  with Cons show ?case by (simp add: order_trans)
qed simp

lemma scan_keys_ge:
  "key \<in> set keys \<Longrightarrow> ((s, e), ts) \<in> set p \<union> set q \<Longrightarrow> span_contains s e key \<Longrightarrow>
   ts \<le> fold (\<lambda>key flr. scan_generation key p (scan_generation key q flr)) keys flr"
proof (induction keys arbitrary: flr)
  case (Cons k keys)
  show ?case
  proof (cases "k = key")
    case True
    have "ts \<le> scan_generation k p (scan_generation k q flr)"
    proof (cases "((s, e), ts) \<in> set p")
      case True
      then show ?thesis using Cons.prems(3) \<open>k = key\<close> by (simp add: scan_generation_ge)
    next
      case False
      with Cons.prems(2) have "((s, e), ts) \<in> set q" by simp
      then have "ts \<le> scan_generation k q flr" using Cons.prems(3) \<open>k = key\<close> by (simp add: scan_generation_ge)
      also have "\<dots> \<le> scan_generation k p (scan_generation k q flr)" by (rule scan_generation_le)
      finally show ?thesis .
    qed
    also have "\<dots> \<le> fold (\<lambda>key flr. scan_generation key p (scan_generation key q flr)) (k # keys) flr"
      using scan_keys_le [of "scan_generation k p (scan_generation k q flr)" p q keys] by simp
    finally show ?thesis .
  next
    case False
    with Cons show ?thesis by simp
  qed
qed simp

lemma scan_keys_mem:
  "fold (\<lambda>key flr. scan_generation key p (scan_generation key q flr)) keys flr = flr \<or>
   (\<exists>key \<in> set keys. \<exists>s e. ((s, e), fold (\<lambda>key flr. scan_generation key p (scan_generation key q flr)) keys flr)
      \<in> set p \<union> set q \<and> span_contains s e key)"
proof (induction keys arbitrary: flr)
  case (Cons k keys)
  let ?f = "scan_generation k p (scan_generation k q flr)"
  let ?r = "fold (\<lambda>key flr. scan_generation key p (scan_generation key q flr)) keys ?f"
  have f: "?f = flr \<or> (\<exists>s e. ((s, e), ?f) \<in> set p \<union> set q \<and> span_contains s e k)"
    using scan_generation_mem [of k p "scan_generation k q flr"] scan_generation_mem [of k q flr]
    by (metis Un_iff)
  have r: "fold (\<lambda>key flr. scan_generation key p (scan_generation key q flr)) (k # keys) flr = ?r" by simp
  from Cons.IH [of ?f] show ?case
  proof
    assume e: "?r = ?f"
    from f show ?thesis
    proof
      assume "?f = flr"
      with e have "?r = flr" by (rule trans)
      then show ?thesis unfolding r by (rule disjI1)
    next
      assume "\<exists>s e. ((s, e), ?f) \<in> set p \<union> set q \<and> span_contains s e k"
      then have "\<exists>s e. ((s, e), ?r) \<in> set p \<union> set q \<and> span_contains s e k" unfolding e .
      then show ?thesis unfolding r by (intro disjI2 bexI [of _ k]) simp_all
    qed
  next
    assume "\<exists>key \<in> set keys. \<exists>s e. ((s, e), ?r) \<in> set p \<union> set q \<and> span_contains s e key"
    then obtain key where "key \<in> set keys" "\<exists>s e. ((s, e), ?r) \<in> set p \<union> set q \<and> span_contains s e key"
      by blast
    then show ?thesis unfolding r by (intro disjI2 bexI [of _ key]) simp_all
  qed
qed simp

lemma max_overlapping_ge:
  "key \<in> set keys \<Longrightarrow> entry c (s, e) ts \<Longrightarrow> span_contains s e key \<Longrightarrow> ts \<le> max_overlapping c keys"
  unfolding max_overlapping_def entry_def by (rule scan_keys_ge) auto

lemma max_overlapping_low_water: "low_water c \<le> max_overlapping c keys"
  unfolding max_overlapping_def by (rule scan_keys_le)

section \<open>No read is forgotten\<close>

definition recorded :: "TsCache \<Rightarrow> Span \<Rightarrow> HlcTimestamp \<Rightarrow> bool" where
  "recorded c sp ts \<longleftrightarrow> ts \<le> low_water c \<or> (\<exists>ts'. ts \<le> ts' \<and> entry c sp ts')"

lemma recorded_rotate:
  assumes "recorded c sp ts"
  shows "recorded (rotate c) sp ts"
proof -
  let ?lw = "low_water (rotate c)"
  have lw: "low_water c \<le> ?lw" by (auto simp: rotate_def Let_def)
  have drop: "t \<le> ?lw" if "(sp, t) \<in> set (previous c)" for t
  proof -
    have "t \<le> Max (set (map snd (previous c)))" using that by (intro Max_ge) force+
    moreover have "previous c \<noteq> []" using that by auto
    ultimately show ?thesis by (auto simp: rotate_def Let_def)
  qed
  from assms consider "ts \<le> low_water c" | ts' where "ts \<le> ts'" "(sp, ts') \<in> set (current c)"
    | ts' where "ts \<le> ts'" "(sp, ts') \<in> set (previous c)"
    by (auto simp: recorded_def entry_def)
  then show ?thesis
  proof cases
    case 1
    from this lw have "ts \<le> ?lw" by (rule order_trans)
    then show ?thesis by (simp add: recorded_def)
  next
    case 2
    then show ?thesis by (auto simp: recorded_def entry_def rotate_def Let_def)
  next
    case 3
    with drop have "ts \<le> ?lw" by (meson order_trans)
    then show ?thesis by (simp add: recorded_def)
  qed
qed

text \<open>An ordered map keeps its other entries across an insert.\<close>

lemma insert_keeps: "bm_ok m \<Longrightarrow> (k', v') \<in> set m \<Longrightarrow> k' \<noteq> k \<Longrightarrow> (k', v') \<in> set (bm_insert k v m)"
  by (simp add: bm_get_mem)

definition cache_ok :: "TsCache \<Rightarrow> bool" where
  "cache_ok c \<longleftrightarrow> bm_ok (current c) \<and> bm_ok (previous c)"

lemma cache_ok_rotate: "cache_ok c \<Longrightarrow> cache_ok (rotate c)"
  by (simp add: cache_ok_def rotate_def Let_def)

lemma cache_ok_bump: "cache_ok c \<Longrightarrow> cache_ok (bump c s e ts)"
  by (auto simp: bump_def Let_def intro!: cache_ok_rotate) (simp_all add: cache_ok_def)

lemma recorded_bump:
  assumes "cache_ok c"
  shows "recorded (bump c s e ts) (s, e) ts"
    and "recorded c sp t \<Longrightarrow> recorded (bump c s e ts) sp t"
proof -
  define slot0 where "slot0 = (case bm_get (current c) (s, e) of Some old \<Rightarrow> old | None \<Rightarrow> ts)"
  define slot where "slot = (if ts > slot0 then ts else slot0)"
  define c' where "c' = c\<lparr>current := bm_insert (s, e) slot (current c)\<rparr>"
  have b: "bump c s e ts = (if length (current c') > ROTATION_BOUND then rotate c' else c')"
    by (simp add: bump_def Let_def c'_def slot_def slot0_def)
  have ok: "bm_ok (current c)" using assms by (simp add: cache_ok_def)
  then have ok': "bm_ok (bm_insert (s, e) slot (current c))" by simp
  have new: "((s, e), slot) \<in> set (current c')"
    using ok' by (simp add: c'_def bm_get_mem)
  have slot_ge: "ts \<le> slot" "slot0 \<le> slot" by (auto simp: slot_def not_less)
  from slot_ge new have "recorded c' (s, e) ts" by (auto simp: recorded_def entry_def)
  then show "recorded (bump c s e ts) (s, e) ts" by (simp add: b recorded_rotate)
  assume r: "recorded c sp t"
  have "recorded c' sp t"
  proof (cases "t \<le> low_water c")
    case True
    then show ?thesis by (simp add: recorded_def c'_def)
  next
    case False
    with r obtain t' where t': "t \<le> t'" "entry c sp t'" by (auto simp: recorded_def)
    show ?thesis
    proof (cases "(sp, t') \<in> set (current c) \<and> sp = (s, e)")
      case True
      then have "bm_get (current c) (s, e) = Some t'" using bm_get_mem [OF ok] by blast
      then have "t' \<le> slot" using slot_ge(2) by (simp add: slot0_def)
      with t'(1) new True show ?thesis by (auto simp: recorded_def entry_def)
    next
      case False
      with t' insert_keeps [OF ok, of sp t' "(s, e)" slot] show ?thesis
        by (auto simp: recorded_def entry_def c'_def)
    qed
  qed
  then show "recorded (bump c s e ts) sp t" by (simp add: b recorded_rotate)
qed

text \<open>The operations a leader performs on its cache, in any order.\<close>

datatype cache_op = Bump bytes "bytes option" HlcTimestamp | Raise HlcTimestamp

fun cache_step :: "TsCache \<Rightarrow> cache_op \<Rightarrow> TsCache" where
  "cache_step c (Bump s e ts) = bump c s e ts"
| "cache_step c (Raise ts) = raise_low_water c ts"

lemma recorded_raise: "recorded c sp t \<Longrightarrow> recorded (raise_low_water c ts) sp t"
proof -
  assume "recorded c sp t"
  moreover have "low_water c \<le> low_water (raise_low_water c ts)" by (simp add: raise_low_water_def less_imp_le)
  moreover have "entry (raise_low_water c ts) = entry c"
    by (simp add: entry_def raise_low_water_def fun_eq_iff)
  ultimately show ?thesis unfolding recorded_def by (metis order_trans)
qed

lemma cache_ok_step: "cache_ok c \<Longrightarrow> cache_ok (cache_step c x)"
  by (cases x) (simp_all add: cache_ok_bump, simp add: cache_ok_def raise_low_water_def)

lemma recorded_steps:
  "cache_ok c \<Longrightarrow> recorded c sp t \<Longrightarrow> recorded (foldl cache_step c ops) sp t"
proof (induction ops arbitrary: c)
  case (Cons x ops)
  have "recorded (cache_step c x) sp t"
  proof (cases x)
    case (Bump s e u)
    then show ?thesis using recorded_bump(2) [OF Cons.prems] by simp
  next
    case (Raise u)
    then show ?thesis using recorded_raise [OF Cons.prems(2)] by simp
  qed
  from Cons.IH [OF cache_ok_step [OF Cons.prems(1)] this] show ?case by simp
qed simp

lemma bump_recorded:
  assumes "cache_ok c" and "Bump s e ts \<in> set ops"
  shows "recorded (foldl cache_step c ops) (s, e) ts"
  using assms
proof (induction ops arbitrary: c)
  case (Cons x ops)
  show ?case
  proof (cases "x = Bump s e ts")
    case True
    with recorded_steps [OF cache_ok_bump [OF Cons.prems(1)] recorded_bump(1) [OF Cons.prems(1)]]
    show ?thesis by simp
  next
    case False
    with Cons.prems(2) have "Bump s e ts \<in> set ops" by auto
    from Cons.IH [OF cache_ok_step [OF Cons.prems(1)] this] show ?thesis by simp
  qed
qed simp

lemma recorded_floor:
  assumes "recorded c (s, e) ts" and "span_contains s e key" and "key \<in> set keys"
  shows "ts \<le> max_overlapping c keys"
  using assms(1) max_overlapping_ge [OF assms(3) _ assms(2)] max_overlapping_low_water [of c keys]
  unfolding recorded_def by (metis order_trans)

section \<open>Pushed writes and ceilings\<close>

lemma unpack_bounds: "unat (ts_logical (unpack v)) < 2 ^ 20" "unat (ts_wall (unpack v)) < 2 ^ 44"
proof -
  have m: "push_bit 20 1 - 1 = (mask 20 :: u64)" by (simp add: mask_eq_exp_minus_1 push_bit_eq_mult)
  have t: "unat (take_bit 20 v) < 2 ^ 20"
    unfolding unsigned_take_bit_eq by (rule take_bit_nat_less_exp)
  then have "unat (ucast (take_bit 20 v) :: u32) = unat (take_bit 20 v)"
    by (simp only: unsigned_ucast_eq) (simp add: take_bit_nat_eq_self)
  with t have "unat (ucast (take_bit 20 v) :: u32) < 2 ^ 20" by simp
  then show "unat (ts_logical (unpack v)) < 2 ^ 20"
    by (simp only: unpack_def LOGICAL_BITS_def m HlcTimestamp.sel flip: take_bit_eq_mask)
  have "unat v < 2 ^ 20 * 2 ^ 44" using unsigned_less [of v] by simp
  then have "unat v div 2 ^ 20 < 2 ^ 44" by (rule less_mult_imp_div_less [OF order_less_le_trans]) simp
  then show "unat (ts_wall (unpack v)) < 2 ^ 44"
    unfolding unpack_def LOGICAL_BITS_def HlcTimestamp.sel unat_drop_bit_eq by (simp only: drop_bit_eq_div)
qed

text \<open>Every timestamp in the cache fits a packed version.\<close>

definition cache_packable :: "TsCache \<Rightarrow> bool" where
  "cache_packable c \<longleftrightarrow> packable (low_water c) \<and> (\<forall>sp ts. entry c sp ts \<longrightarrow> packable ts)"

lemma max_overlapping_packable: "cache_packable c \<Longrightarrow> packable (max_overlapping c keys)"
  using scan_keys_mem [of "previous c" "current c" keys "low_water c"]
  by (auto simp: cache_packable_def max_overlapping_def entry_def)

lemma packable_bump: "packable ts \<Longrightarrow> ts < bump_strictly_above ts"
  by (rule bump_strictly_above_greater) (auto simp: packable_def)

lemma packable_unpack: "packable (unpack v)"
  using unpack_bounds by (simp add: packable_def)

lemma mint_pushed_floor:
  assumes "cache_packable (ld_cache ld)"
  shows "\<exists>ts ld'. mint_pushed ld now term keys = Some (ts, ld') \<and>
    unpack (last_proposed_ts ld) < ts \<and> max_overlapping (ld_cache ld) keys < ts \<and>
    (last_absorbed_term ld \<noteq> term \<longrightarrow> unpack (committed_ceiling ld) < ts)"
proof -
  obtain ts hlc where m: "mint (ld_hlc ld) now = (ts, hlc)" by (cases "mint (ld_hlc ld) now") auto
  define cache where "cache = (if last_absorbed_term ld \<noteq> term
    then raise_low_water (ld_cache ld) (unpack (committed_ceiling ld)) else ld_cache ld)"
  define flr where "flr = max (max_overlapping cache keys) (unpack (last_proposed_ts ld))"
  define out where "out = (if ts > flr then ts else bump_strictly_above flr)"
  define ld' where "ld' = ld\<lparr>ld_hlc := hlc, ld_cache := cache, last_absorbed_term := term\<rparr>"
  have "cache_packable cache"
    using assms packable_unpack by (auto simp: cache_def cache_packable_def raise_low_water_def entry_def)
  then have "packable flr"
    using max_overlapping_packable packable_unpack by (auto simp: flr_def max_def)
  then have out: "flr < out" using packable_bump by (auto simp: out_def)
  then have r: "mint_pushed ld now term keys = Some (out, ld')"
    unfolding mint_pushed_def Let_def m prod.case cache_def [symmetric] flr_def [symmetric] ld'_def
    by (auto simp: out_def split: if_splits)
  have mono: "max_overlapping (ld_cache ld) keys \<le> max_overlapping cache keys"
  proof -
    let ?m = "max_overlapping (ld_cache ld) keys"
    from scan_keys_mem [of "previous (ld_cache ld)" "current (ld_cache ld)" keys "low_water (ld_cache ld)"]
    consider "?m = low_water (ld_cache ld)"
      | key s e where "key \<in> set keys" "entry (ld_cache ld) (s, e) ?m" "span_contains s e key"
      by (auto simp: max_overlapping_def entry_def)
    then show ?thesis
    proof cases
      case 1
      have "low_water (ld_cache ld) \<le> low_water cache" by (auto simp: cache_def raise_low_water_def)
      with 1 max_overlapping_low_water [of cache keys] show ?thesis by (metis order_trans)
    next
      case 2
      then have "entry cache (s, e) ?m" by (simp add: cache_def entry_def raise_low_water_def)
      with 2 show ?thesis by (meson max_overlapping_ge)
    qed
  qed
  have ceil: "unpack (committed_ceiling ld) \<le> max_overlapping cache keys" if "last_absorbed_term ld \<noteq> term"
  proof -
    have "unpack (committed_ceiling ld) \<le> low_water cache"
      using that by (auto simp: cache_def raise_low_water_def not_less)
    then show ?thesis using max_overlapping_low_water by (rule order_trans)
  qed
  have "max_overlapping cache keys \<le> flr" "unpack (last_proposed_ts ld) \<le> flr" by (simp_all add: flr_def)
  with out mono ceil r show ?thesis by (meson order_le_less_trans order_trans)
qed

lemma next_ceiling_candidate_above:
  assumes "next_ceiling_candidate ld margin = Some (c, ld')"
  shows "unpack (last_ceiling_candidate ld) < c" and "unpack (last_proposed_ts ld) < c"
    and "margin \<le> c" and "unpack (last_ceiling_candidate ld') = c"
proof -
  define l where "l = max (unpack (last_ceiling_candidate ld)) (unpack (last_proposed_ts ld))"
  from assms obtain v where c: "c = (if margin > l then margin else bump_strictly_above l)" "pack c = Some v"
    "ld' = ld\<lparr>last_ceiling_candidate := v\<rparr>"
    unfolding next_ceiling_candidate_def Let_def l_def [symmetric] by (auto split: option.splits)
  have "packable l" using packable_unpack by (auto simp: l_def max_def)
  then have lc: "l < c" using c(1) packable_bump by auto
  then show "unpack (last_ceiling_candidate ld) < c" "unpack (last_proposed_ts ld) < c"
    by (auto simp: l_def)
  show "margin \<le> c" using c(1) lc by (auto simp: not_less split: if_splits)
  show "unpack (last_ceiling_candidate ld') = c" using c(2,3) by (simp add: unpack_pack)
qed

section \<open>Correctness of the timestamp cache\<close>

text \<open>C8: once a read of a span at a timestamp is recorded, then after any further operations of the cache, through
  any number of rotations, a leader's write to a key of that span gets a timestamp above the read.\<close>

theorem write_above_reads:
  assumes "cache_ok c" and "Bump s e ts \<in> set ops" and "span_contains s e key" and "key \<in> set keys"
    and "ld_cache ld = foldl cache_step c ops" and "cache_packable (ld_cache ld)"
  shows "\<exists>w ld'. mint_pushed ld now term keys = Some (w, ld') \<and> ts < w"
proof -
  have "ts \<le> max_overlapping (ld_cache ld) keys"
    using recorded_floor [OF bump_recorded [OF assms(1,2)] assms(3,4)] assms(5) by simp
  with mint_pushed_floor [OF assms(6), of now "term" keys] show ?thesis by (meson order_le_less_trans)
qed

theorem write_above_reads_witness:
  "\<exists>w ld'. mint_pushed \<lparr>ld_hlc = hlc_new, ld_cache = foldl cache_step ts_cache_new [Bump [1] None (HlcTimestamp 4 2)],
      last_absorbed_term = 0, committed_ceiling = 0, last_proposed_ts = 0, last_ceiling_candidate = 0\<rparr> 0 0 [[3]] =
    Some (w, ld') \<and> HlcTimestamp 4 2 < w"
proof (rule write_above_reads)
  show "cache_ok ts_cache_new" by (simp add: cache_ok_def ts_cache_new_def)
  show "Bump [1] None (HlcTimestamp 4 2) \<in> set [Bump [1] None (HlcTimestamp 4 2)]" by simp
  show "span_contains [1] None [3]" by code_simp
qed (simp_all add: cache_packable_def packable_def ts_cache_new_def bump_def entry_def Let_def ts_zero_def ROTATION_BOUND_def)

text \<open>C30: a proposed ceiling is above the previous candidate and the last proposed write, at least the
  requested margin, and becomes the candidate the next one must exceed.\<close>

theorem ceiling_grows:
  assumes "next_ceiling_candidate ld margin = Some (c, ld')"
  shows "unpack (last_ceiling_candidate ld) < c \<and> unpack (last_proposed_ts ld) < c \<and> margin \<le> c \<and>
    unpack (last_ceiling_candidate ld') = c"
  using next_ceiling_candidate_above [OF assms] by blast

theorem ceiling_grows_witness:
  "unpack 9 < HlcTimestamp 7 0 \<and> unpack 5 < HlcTimestamp 7 0 \<and> unpack 7340032 = HlcTimestamp 7 0"
proof -
  let ?ld = "\<lparr>ld_hlc = hlc_new, ld_cache = ts_cache_new, last_absorbed_term = 0, committed_ceiling = 0,
     last_proposed_ts = 5, last_ceiling_candidate = 9\<rparr>"
  have "next_ceiling_candidate ?ld (HlcTimestamp 7 0) =
      Some (HlcTimestamp 7 0, ?ld\<lparr>last_ceiling_candidate := 7340032\<rparr>)" by code_simp
  from ceiling_grows [OF this] show ?thesis by simp
qed

end
