(* ===== verification/Storage.thy ===== *)
theory Storage
  imports Ordered_Map
begin

text \<open>
  The storage-engine interface (\<^verbatim>\<open>crates/animus-storage/src/lib.rs\<close>): versions, write and merge
  operations, errors, the batch builder, and the methods the trait itself provides on top of an
  engine's own. The locale \<open>mvcc\<close> is the contract the data plane relies on: reads are determined
  by the recorded slots of a key, and a merge records its slot exactly when it is strictly newer
  than everything the key has. From it follow the stability of reads below a merged version and the
  convergence of merges, whatever their order.
\<close>

section \<open>Types of the interface\<close>

type_synonym Key = bytes
type_synonym Value = bytes
type_synonym Version = u64

datatype VersionedValue = VersionedValue (vv_version: Version) (vv_value: Value)

datatype WriteOp =
    WPut Key Value
  | WDelete Key
  | WDeleteRange Key Key

record MergeOp =
  mo_key :: Key
  mo_value :: "Value option"
  mo_version :: Version

definition merge_put :: "Key \<Rightarrow> Value \<Rightarrow> Version \<Rightarrow> MergeOp" where
  "merge_put k x v = \<lparr>mo_key = k, mo_value = Some x, mo_version = v\<rparr>"

definition merge_tomb :: "Key \<Rightarrow> Version \<Rightarrow> MergeOp" where
  "merge_tomb k v = \<lparr>mo_key = k, mo_value = None, mo_version = v\<rparr>"

record WriteBatch =
  wb_version :: Version
  wb_ops :: "WriteOp list"

definition batch_new :: "Version \<Rightarrow> WriteBatch" where
  "batch_new v = \<lparr>wb_version = v, wb_ops = []\<rparr>"

definition batch_put :: "WriteBatch \<Rightarrow> Key \<Rightarrow> Value \<Rightarrow> WriteBatch" where
  "batch_put b k x = b\<lparr>wb_ops := wb_ops b @ [WPut k x]\<rparr>"

definition batch_delete :: "WriteBatch \<Rightarrow> Key \<Rightarrow> WriteBatch" where
  "batch_delete b k = b\<lparr>wb_ops := wb_ops b @ [WDelete k]\<rparr>"

definition batch_delete_range :: "WriteBatch \<Rightarrow> Key \<Rightarrow> Key \<Rightarrow> WriteBatch" where
  "batch_delete_range b s e = b\<lparr>wb_ops := wb_ops b @ [WDeleteRange s e]\<rparr>"

text \<open>The errors of the engines modelled here; the others come from files and options.\<close>

datatype StorageError =
    InvalidRange
  | NonMonotonicVersion Version Version

section \<open>Methods the trait provides\<close>

text \<open>\<^verbatim>\<open>merge_batch\<close>: the engine's two merges, stopping at the first error.\<close>

fun default_merge_batch ::
  "(Key \<Rightarrow> Value \<Rightarrow> Version \<Rightarrow> 's \<Rightarrow> ('e + bool) \<times> 's) \<Rightarrow> (Key \<Rightarrow> Version \<Rightarrow> 's \<Rightarrow> ('e + bool) \<times> 's) \<Rightarrow>
   MergeOp list \<Rightarrow> 's \<Rightarrow> ('e + unit) \<times> 's" where
  "default_merge_batch merge tomb [] s = (Inr (), s)"
| "default_merge_batch merge tomb (m # ms) s =
     (let (r, s') = (case mo_value m of
                       Some x \<Rightarrow> merge (mo_key m) x (mo_version m) s
                     | None \<Rightarrow> tomb (mo_key m) (mo_version m) s)
      in case r of Inl e \<Rightarrow> (Inl e, s') | Inr _ \<Rightarrow> default_merge_batch merge tomb ms s')"

type_synonym row3 = "Key \<times> Value option \<times> Version"

definition default_scan_with_tombstones :: "row3 list \<Rightarrow> Key \<Rightarrow> Key \<Rightarrow> row3 list" where
  "default_scan_with_tombstones entries start stop = filter (\<lambda>(k, _, _). start \<le> k \<and> k < stop) entries"

definition default_latest_version_incl_tombstone :: "(Key \<Rightarrow> Key \<Rightarrow> row3 list) \<Rightarrow> Key \<Rightarrow> Version option" where
  "default_latest_version_incl_tombstone scan key =
     map_option (\<lambda>(_, _, v). v) (find (\<lambda>(k, _, _). k = key) (scan key (key @ [0])))"

text \<open>The sum of 64-bit lengths, wrapping as \<^verbatim>\<open>u64\<close> addition does in a release build.\<close>

definition default_approx_bytes_in_range ::
  "(Key \<Rightarrow> Key \<Rightarrow> (Key \<times> VersionedValue) list) \<Rightarrow> (Key \<times> VersionedValue) list \<Rightarrow> Key \<Rightarrow> Key option \<Rightarrow> u64" where
  "default_approx_bytes_in_range scan entries start stop =
     (let rows = (case stop of
                    Some e \<Rightarrow> scan start e
                  | None \<Rightarrow> filter (\<lambda>(k, _). start \<le> k) entries)
      in sum_list (map (\<lambda>(k, v). word_of_nat (length k + length (vv_value v))) rows))"

section \<open>The contract\<close>

text \<open>A list of merges in order, and the versions a key can end with.\<close>

definition merge_all :: "(MergeOp \<Rightarrow> 's \<Rightarrow> bool \<times> 's) \<Rightarrow> MergeOp list \<Rightarrow> 's \<Rightarrow> 's" where
  "merge_all merge ms s = fold (\<lambda>m s. snd (merge m s)) ms s"

definition newest :: "('s \<Rightarrow> Key \<Rightarrow> Version option) \<Rightarrow> MergeOp set \<Rightarrow> 's \<Rightarrow> Key \<Rightarrow> Version set" where
  "newest latest ms s k = set_option (latest s k) \<union> mo_version ` {m \<in> ms. mo_key m = k}"

text \<open>Merges that agree wherever they collide.\<close>

definition merges_agree :: "MergeOp set \<Rightarrow> bool" where
  "merges_agree ms \<longleftrightarrow>
     (\<forall>m \<in> ms. \<forall>m' \<in> ms. mo_key m = mo_key m' \<and> mo_version m = mo_version m' \<longrightarrow> mo_value m = mo_value m')"

text \<open>\<open>slot s k v\<close> is what the engine recorded for key \<open>k\<close> at version \<open>v\<close>, a value or a tombstone.\<close>

locale mvcc =
  fixes slot :: "'s \<Rightarrow> Key \<Rightarrow> Version \<Rightarrow> Value option option"
    and read :: "'s \<Rightarrow> Key \<Rightarrow> Version \<Rightarrow> VersionedValue option"
    and latest :: "'s \<Rightarrow> Key \<Rightarrow> Version option"
    and merge :: "MergeOp \<Rightarrow> 's \<Rightarrow> bool \<times> 's"
    and inv :: "'s \<Rightarrow> bool"
  assumes latest_Some: "inv s \<Longrightarrow> latest s k = Some v \<longleftrightarrow> slot s k v \<noteq> None \<and> (\<forall>u > v. slot s k u = None)"
    and latest_None: "inv s \<Longrightarrow> latest s k = None \<longleftrightarrow> (\<forall>u. slot s k u = None)"
    and read_Some: "inv s \<Longrightarrow> read s k v = Some (VersionedValue w x) \<longleftrightarrow>
          w \<le> v \<and> slot s k w = Some (Some x) \<and> (\<forall>u. w < u \<and> u \<le> v \<longrightarrow> slot s k u = None)"
    and merge_inv: "inv s \<Longrightarrow> inv (snd (merge m s))"
    and merge_taken: "inv s \<Longrightarrow> fst (merge m s) \<longleftrightarrow>
          (case latest s (mo_key m) of Some v \<Rightarrow> v < mo_version m | None \<Rightarrow> True)"
    and merge_slot: "inv s \<Longrightarrow> slot (snd (merge m s)) k v =
          (if fst (merge m s) \<and> k = mo_key m \<and> v = mo_version m then Some (mo_value m) else slot s k v)"
begin

lemma merge_latest:
  assumes "inv s"
  shows "latest (snd (merge m s)) k = (if k = mo_key m \<and> fst (merge m s) then Some (mo_version m) else latest s k)"
proof -
  let ?s = "snd (merge m s)"
  have i: "inv ?s" by (rule merge_inv [OF assms])
  show ?thesis
  proof (cases "k = mo_key m \<and> fst (merge m s)")
    case True
    then have above: "slot s k u = None" if "u > mo_version m" for u
    proof (cases "latest s k")
      case None
      then show ?thesis using latest_None [OF assms, of k] by simp
    next
      case (Some w)
      with True merge_taken [OF assms, of m] that have "w < u" by auto
      with Some latest_Some [OF assms, of k w] show ?thesis by blast
    qed
    have "slot ?s k (mo_version m) \<noteq> None" using True by (simp add: merge_slot [OF assms])
    moreover have "\<forall>u > mo_version m. slot ?s k u = None" using above by (simp add: merge_slot [OF assms])
    ultimately show ?thesis using latest_Some [OF i, of k] True by simp
  next
    case False
    then have "slot ?s k = slot s k" by (auto simp: merge_slot [OF assms] fun_eq_iff)
    with False latest_Some [OF i, of k] latest_Some [OF assms, of k] latest_None [OF i, of k] latest_None [OF assms, of k]
    show ?thesis by (cases "latest s k") (simp_all, metis)
  qed
qed

text \<open>A merge above a version changes no read at it.\<close>

lemma merge_read_below:
  assumes "inv s" and "v < mo_version m"
  shows "read (snd (merge m s)) k v = read s k v"
proof -
  let ?s = "snd (merge m s)"
  have same: "slot ?s k u = slot s k u" if "u \<le> v" for u
    using that assms(2) by (auto simp: merge_slot [OF assms(1)])
  have "read ?s k v = Some (VersionedValue w x) \<longleftrightarrow> read s k v = Some (VersionedValue w x)" for w x
    using same by (auto simp: read_Some [OF assms(1)] read_Some [OF merge_inv [OF assms(1)]])
  then show ?thesis by (metis VersionedValue.exhaust not_Some_eq)
qed

lemma merge_all_Cons: "merge_all merge (m # ms) s = merge_all merge ms (snd (merge m s))"
  by (simp add: merge_all_def)

lemma merge_all_inv: "inv s \<Longrightarrow> inv (merge_all merge ms s)"
  by (induction ms arbitrary: s) (simp_all add: merge_all_def merge_inv)

lemma newest_step: "inv s \<Longrightarrow> v \<in> newest latest ms (snd (merge m s)) k \<Longrightarrow> v \<in> newest latest (insert m ms) s k"
  by (auto simp: newest_def merge_latest split: if_splits)

lemma merge_all_latest:
  assumes "inv s"
  shows "latest (merge_all merge ms s) k =
    (if newest latest (set ms) s k = {} then None else Some (Max (newest latest (set ms) s k)))"
  using assms
proof (induction ms arbitrary: s)
  case Nil
  then show ?case by (cases "latest s k") (auto simp: newest_def merge_all_def)
next
  case (Cons m ms)
  let ?s = "snd (merge m s)"
  let ?N = "newest latest (set (m # ms)) s k" and ?N' = "newest latest (set ms) ?s k"
  have fin: "finite (newest latest (set xs) t k)" for xs t
    by (simp add: newest_def)
  have IH: "latest (merge_all merge ms ?s) k = (if ?N' = {} then None else Some (Max ?N'))"
    by (rule Cons.IH [OF merge_inv [OF Cons.prems]])
  have sub: "?N' \<subseteq> ?N" using newest_step [OF Cons.prems, of _ "set ms"] by auto
  have dom: "\<exists>w \<in> ?N'. v \<le> w" if "v \<in> ?N" for v
  proof -
    from that consider "latest s k = Some v" | "mo_key m = k" "v = mo_version m"
      | m' where "m' \<in> set ms" "mo_key m' = k" "v = mo_version m'"
      by (auto simp: newest_def)
    then show ?thesis
    proof cases
      case 1
      then show ?thesis
        using merge_latest [OF Cons.prems, of m k] merge_taken [OF Cons.prems, of m]
        by (cases "k = mo_key m \<and> fst (merge m s)") (auto simp: newest_def)
    next
      case 2
      then show ?thesis
        using merge_latest [OF Cons.prems, of m k] merge_taken [OF Cons.prems, of m]
        by (cases "fst (merge m s)") (auto simp: newest_def not_less split: option.splits)
    next
      case 3
      then show ?thesis by (auto simp: newest_def)
    qed
  qed
  show ?case
  proof (cases "?N = {}")
    case True
    with sub IH show ?thesis by (auto simp: merge_all_Cons)
  next
    case False
    then obtain v where "v \<in> ?N" by blast
    with dom have ne: "?N' \<noteq> {}" by blast
    have "Max ?N' = Max ?N"
    proof (rule antisym)
      show "Max ?N' \<le> Max ?N" by (rule Max_mono [OF sub ne fin])
      obtain w where "w \<in> ?N'" "Max ?N \<le> w" using dom Max_in [OF fin False] by blast
      then show "Max ?N \<le> Max ?N'" using Max_ge [OF fin] order_trans by blast
    qed
    with IH ne False show ?thesis by (simp add: merge_all_Cons)
  qed
qed

text \<open>A slot at or below a key's newest version never changes again.\<close>

lemma merge_all_old_slot:
  assumes "inv s" and "latest s k = Some w" and "u \<le> w"
  shows "slot (merge_all merge ms s) k u = slot s k u"
  using assms
proof (induction ms arbitrary: s w)
  case Nil
  then show ?case by (simp add: merge_all_def)
next
  case (Cons m ms)
  let ?s = "snd (merge m s)"
  obtain w' where w': "latest ?s k = Some w'" "w \<le> w'"
    using merge_latest [OF Cons.prems(1), of m k] merge_taken [OF Cons.prems(1), of m] Cons.prems(2)
    by (cases "k = mo_key m \<and> fst (merge m s)") auto
  have "slot ?s k u = slot s k u"
    using merge_slot [OF Cons.prems(1), of m k u] merge_taken [OF Cons.prems(1), of m] Cons.prems(2,3) by auto
  with Cons.IH [OF merge_inv [OF Cons.prems(1)] w'(1)] w'(2) Cons.prems(3) show ?case
    by (simp add: merge_all_Cons)
qed

lemma merge_all_new_slot:
  assumes "inv s" and "merges_agree (set ms)" and "m \<in> set ms" and "mo_key m = k"
    and "latest (merge_all merge ms s) k = Some (mo_version m)" and "latest s k \<noteq> Some (mo_version m)"
  shows "slot (merge_all merge ms s) k (mo_version m) = Some (mo_value m)"
  using assms
proof (induction ms arbitrary: s)
  case Nil
  then show ?case by simp
next
  case (Cons m0 ms)
  let ?s = "snd (merge m0 s)"
  have i: "inv ?s" by (rule merge_inv [OF Cons.prems(1)])
  show ?case
  proof (cases "latest ?s k = Some (mo_version m)")
    case True
    with Cons.prems(6) merge_latest [OF Cons.prems(1), of m0 k]
    have m0: "mo_key m0 = k" "fst (merge m0 s)" "mo_version m0 = mo_version m" by (auto split: if_splits)
    with Cons.prems(2,3,4) have v: "mo_value m0 = mo_value m" by (auto simp: merges_agree_def)
    have "slot (merge_all merge ms ?s) k (mo_version m) = slot ?s k (mo_version m)"
      by (rule merge_all_old_slot [OF i True]) simp
    then show ?thesis using m0 v by (simp add: merge_all_Cons merge_slot [OF Cons.prems(1)])
  next
    case False
    have "m \<in> set ms"
    proof (rule ccontr)
      assume "m \<notin> set ms"
      with Cons.prems(3) have m: "m = m0" by simp
      have "fst (merge m0 s) = False" using False m Cons.prems(4) merge_latest [OF Cons.prems(1), of m0 k] by auto
      then have "case latest s k of Some v \<Rightarrow> \<not> v < mo_version m | None \<Rightarrow> False"
        using merge_taken [OF Cons.prems(1), of m0] m Cons.prems(4) by (auto split: option.splits)
      then obtain w where w: "latest s k = Some w" "mo_version m \<le> w" by (auto split: option.splits)
      with Cons.prems(6) have "mo_version m < w" by auto
      have "w \<in> newest latest (set (m0 # ms)) s k" using w by (simp add: newest_def)
      then have "w \<le> mo_version m"
        using merge_all_latest [OF Cons.prems(1), of "m0 # ms" k] Cons.prems(5)
        by (auto simp: newest_def split: if_splits)
      with \<open>mo_version m < w\<close> show False by simp
    qed
    moreover have "merges_agree (set ms)"
      using Cons.prems(2) unfolding merges_agree_def by (meson list.set_intros(2))
    moreover have "latest (merge_all merge ms ?s) k = Some (mo_version m)"
      using Cons.prems(5) by (simp only: merge_all_Cons)
    ultimately show ?thesis
      unfolding merge_all_Cons using Cons.IH [OF i _ _ Cons.prems(4) _ False] by blast
  qed
qed

text \<open>Replicas that merge the same operations agree on every key's newest slot.\<close>

lemma merges_converge:
  assumes "inv s" and "set ms = set ms'" and "merges_agree (set ms)"
  shows "latest (merge_all merge ms s) k = latest (merge_all merge ms' s) k"
    and "latest (merge_all merge ms s) k = Some v \<Longrightarrow>
      slot (merge_all merge ms s) k v = slot (merge_all merge ms' s) k v"
proof -
  show l: "latest (merge_all merge ms s) k = latest (merge_all merge ms' s) k"
    by (simp only: merge_all_latest [OF assms(1)] assms(2))
  assume v: "latest (merge_all merge ms s) k = Some v"
  with l have v': "latest (merge_all merge ms' s) k = Some v" by simp
  show "slot (merge_all merge ms s) k v = slot (merge_all merge ms' s) k v"
  proof (cases "latest s k = Some v")
    case True
    then show ?thesis using merge_all_old_slot [OF assms(1) True order_refl] by simp
  next
    case False
    have "v \<in> newest latest (set ms) s k"
      using v merge_all_latest [OF assms(1), of ms k] Max_in [of "newest latest (set ms) s k"]
      by (auto simp: newest_def split: if_splits)
    with False obtain m where m: "m \<in> set ms" "mo_key m = k" "mo_version m = v"
      by (auto simp: newest_def)
    with merge_all_new_slot [OF assms(1,3) m(1,2)] merge_all_new_slot [OF assms(1), of ms' m k] assms v v' False
    show ?thesis by simp
  qed
qed

end

end
