(* ===== verification/Memory_Engine.thy ===== *)
theory Memory_Engine
  imports Storage
begin

text \<open>
  The in-memory MVCC engine (\<^verbatim>\<open>crates/animus-storage/src/memory.rs\<close>): per-key version histories in
  ordered maps, the monotonic write paths, the per-key last-writer-wins merges, reads, scans and
  snapshots. Each method runs under the engine's mutex, so a method is one step on the state. The
  engine interprets the contract \<open>mvcc\<close>; the lemmas give the functional behaviour of the write
  paths, the meaning of scans, and the stability of snapshots.
\<close>

section \<open>State and methods\<close>

type_synonym History = "(Version, Value option) bmap"

record Inner =
  data :: "(Key, History) bmap"
  max_version :: Version

definition mem_new :: Inner where "mem_new = \<lparr>data = [], max_version = 0\<rparr>"

definition read_at :: "Inner \<Rightarrow> Key \<Rightarrow> Version \<Rightarrow> VersionedValue option" where
  "read_at s key v =
     (case bm_get (data s) key of
        None \<Rightarrow> None
      | Some history \<Rightarrow>
          (case next_back (bm_range_to history v) of
             None \<Rightarrow> None
           | Some (w, sl) \<Rightarrow> map_option (VersionedValue w) sl))"

definition latest_version_of :: "Inner \<Rightarrow> Key \<Rightarrow> Version option" where
  "latest_version_of s key =
     (case bm_get (data s) key of None \<Rightarrow> None | Some history \<Rightarrow> map_option fst (next_back history))"

text \<open>Rows whose value is visible at a version, in key order.\<close>

definition visible :: "Inner \<Rightarrow> Version \<Rightarrow> Key list \<Rightarrow> (Key \<times> VersionedValue) list" where
  "visible s v keys = List.map_filter (\<lambda>k. map_option (Pair k) (read_at s k v)) keys"

definition inner_scan_at :: "Inner \<Rightarrow> Key \<Rightarrow> Key \<Rightarrow> Version \<Rightarrow> (Key \<times> VersionedValue) list" where
  "inner_scan_at s start stop v = visible s v (map fst (bm_range (data s) start stop))"

text \<open>\<^verbatim>\<open>entry(key).or_default().insert(version, slot)\<close>.\<close>

definition record_slot :: "Key \<Rightarrow> Version \<Rightarrow> Value option \<Rightarrow> Inner \<Rightarrow> Inner" where
  "record_slot key v sl s =
     (let history = (case bm_get (data s) key of Some h \<Rightarrow> h | None \<Rightarrow> [])
      in s\<lparr>data := bm_insert key (bm_insert v sl history) (data s)\<rparr>)"

fun apply_op :: "WriteOp \<Rightarrow> Version \<Rightarrow> Inner \<Rightarrow> Inner" where
  "apply_op (WPut key x) v s = record_slot key v (Some x) s"
| "apply_op (WDelete key) v s = record_slot key v None s"
| "apply_op (WDeleteRange start stop) v s =
     fold (\<lambda>key. record_slot key v None) (map fst (bm_range (data s) start stop)) s"

definition check_monotonic :: "Inner \<Rightarrow> Version \<Rightarrow> StorageError option" where
  "check_monotonic s v = (if v > max_version s then None else Some (NonMonotonicVersion v (max_version s)))"

definition mem_put :: "Key \<Rightarrow> Value \<Rightarrow> Version \<Rightarrow> Inner \<Rightarrow> (StorageError + unit) \<times> Inner" where
  "mem_put key x v s =
     (case check_monotonic s v of
        Some e \<Rightarrow> (Inl e, s)
      | None \<Rightarrow> (Inr (), (apply_op (WPut key x) v s)\<lparr>max_version := v\<rparr>))"

definition mem_merge :: "Key \<Rightarrow> Value \<Rightarrow> Version \<Rightarrow> Inner \<Rightarrow> (StorageError + bool) \<times> Inner" where
  "mem_merge key x v s =
     (if (case latest_version_of s key of Some cur \<Rightarrow> v \<le> cur | None \<Rightarrow> False) then (Inr False, s)
      else let s' = apply_op (WPut key x) v s
           in (Inr True, s'\<lparr>max_version := max (max_version s') v\<rparr>))"

definition mem_merge_tombstone :: "Key \<Rightarrow> Version \<Rightarrow> Inner \<Rightarrow> (StorageError + bool) \<times> Inner" where
  "mem_merge_tombstone key v s =
     (if (case latest_version_of s key of Some cur \<Rightarrow> v \<le> cur | None \<Rightarrow> False) then (Inr False, s)
      else let s' = apply_op (WDelete key) v s
           in (Inr True, s'\<lparr>max_version := max (max_version s') v\<rparr>))"

definition mem_delete :: "Key \<Rightarrow> Version \<Rightarrow> Inner \<Rightarrow> (StorageError + unit) \<times> Inner" where
  "mem_delete key v s =
     (case check_monotonic s v of
        Some e \<Rightarrow> (Inl e, s)
      | None \<Rightarrow> (Inr (), (apply_op (WDelete key) v s)\<lparr>max_version := v\<rparr>))"

definition mem_delete_range :: "Key \<Rightarrow> Key \<Rightarrow> Version \<Rightarrow> Inner \<Rightarrow> (StorageError + unit) \<times> Inner" where
  "mem_delete_range start stop v s =
     (if start > stop then (Inl InvalidRange, s)
      else case check_monotonic s v of
             Some e \<Rightarrow> (Inl e, s)
           | None \<Rightarrow> (Inr (), (apply_op (WDeleteRange start stop) v s)\<lparr>max_version := v\<rparr>))"

fun bad_range :: "WriteOp \<Rightarrow> bool" where
  "bad_range (WDeleteRange start stop) = (start > stop)"
| "bad_range _ = False"

definition mem_write_batch :: "WriteBatch \<Rightarrow> Inner \<Rightarrow> (StorageError + unit) \<times> Inner" where
  "mem_write_batch b s =
     (case check_monotonic s (wb_version b) of
        Some e \<Rightarrow> (Inl e, s)
      | None \<Rightarrow>
          if list_ex bad_range (wb_ops b) then (Inl InvalidRange, s)
          else (Inr (), (fold (\<lambda>x. apply_op x (wb_version b)) (wb_ops b) s)\<lparr>max_version := wb_version b\<rparr>))"

definition mem_get :: "Inner \<Rightarrow> Key \<Rightarrow> VersionedValue option" where
  "mem_get s key = read_at s key (- 1)"

definition mem_get_at :: "Inner \<Rightarrow> Key \<Rightarrow> Version \<Rightarrow> VersionedValue option" where
  "mem_get_at s key v = read_at s key v"

definition mem_scan_at :: "Inner \<Rightarrow> Key \<Rightarrow> Key \<Rightarrow> Version \<Rightarrow> StorageError + (Key \<times> VersionedValue) list" where
  "mem_scan_at s start stop v = (if start > stop then Inl InvalidRange else Inr (inner_scan_at s start stop v))"

definition mem_scan :: "Inner \<Rightarrow> Key \<Rightarrow> Key \<Rightarrow> StorageError + (Key \<times> VersionedValue) list" where
  "mem_scan s start stop = (if start > stop then Inl InvalidRange else Inr (inner_scan_at s start stop (- 1)))"

definition mem_entries :: "Inner \<Rightarrow> (Key \<times> VersionedValue) list" where
  "mem_entries s = visible s (- 1) (map fst (data s))"

definition mem_entries_at :: "Inner \<Rightarrow> Version \<Rightarrow> (Key \<times> VersionedValue) list" where
  "mem_entries_at s v = visible s v (map fst (data s))"

definition newest_rows :: "(Key, History) bmap \<Rightarrow> row3 list" where
  "newest_rows m = List.map_filter (\<lambda>(k, h). map_option (\<lambda>(v, sl). (k, sl, v)) (next_back h)) m"

definition mem_entries_with_tombstones :: "Inner \<Rightarrow> row3 list" where
  "mem_entries_with_tombstones s = newest_rows (data s)"

text \<open>\<open>None\<close> where \<^verbatim>\<open>BTreeMap::range\<close> panics, on a start above the end.\<close>

definition mem_scan_with_tombstones :: "Inner \<Rightarrow> Key \<Rightarrow> Key \<Rightarrow> row3 list option" where
  "mem_scan_with_tombstones s start stop =
     (if start > stop then None else Some (newest_rows (bm_range (data s) start stop)))"

text \<open>A snapshot is the shared state and the version it pins.\<close>

definition mem_snapshot :: "Inner \<Rightarrow> Version" where "mem_snapshot s = max_version s"

definition snapshot_get :: "Version \<Rightarrow> Inner \<Rightarrow> Key \<Rightarrow> VersionedValue option" where
  "snapshot_get v s key = read_at s key v"

definition snapshot_scan :: "Version \<Rightarrow> Inner \<Rightarrow> Key \<Rightarrow> Key \<Rightarrow> StorageError + (Key \<times> VersionedValue) list" where
  "snapshot_scan v s start stop = (if start > stop then Inl InvalidRange else Inr (inner_scan_at s start stop v))"

definition mem_latest_version :: "Inner \<Rightarrow> Version" where "mem_latest_version s = max_version s"

section \<open>The engine meets the contract\<close>

text \<open>Ordered maps throughout, no empty history, and \<open>max_version\<close> bounds every recorded version.\<close>

definition mem_slot :: "Inner \<Rightarrow> Key \<Rightarrow> Version \<Rightarrow> Value option option" where
  "mem_slot s k v = Option.bind (bm_get (data s) k) (\<lambda>h. bm_get h v)"

definition mem_ok :: "Inner \<Rightarrow> bool" where
  "mem_ok s \<longleftrightarrow> bm_ok (data s) \<and> (\<forall>(k, h) \<in> set (data s). bm_ok h \<and> h \<noteq> []) \<and>
     (\<forall>(k, h) \<in> set (data s). \<forall>(v, x) \<in> set h. v \<le> max_version s)"

definition mem_step :: "MergeOp \<Rightarrow> Inner \<Rightarrow> bool \<times> Inner" where
  "mem_step m s =
     (case (case mo_value m of
              Some x \<Rightarrow> mem_merge (mo_key m) x (mo_version m) s
            | None \<Rightarrow> mem_merge_tombstone (mo_key m) (mo_version m) s) of
        (Inr taken, s') \<Rightarrow> (taken, s')
      | (Inl _, s') \<Rightarrow> (False, s'))"

lemma mem_ok_get: "mem_ok s \<Longrightarrow> bm_get (data s) k = Some h \<Longrightarrow> bm_ok h \<and> h \<noteq> []"
  using bm_get_in_set unfolding mem_ok_def by fastforce

lemma mem_slot_record [simp]:
  "mem_slot (record_slot k v sl s) k' v' = (if k' = k \<and> v' = v then Some sl else mem_slot s k' v')"
  by (auto simp: mem_slot_def record_slot_def Let_def split: option.splits)

lemma max_version_record [simp]: "max_version (record_slot k v sl s) = max_version s"
  by (simp add: record_slot_def Let_def)

lemma mem_slot_max_version [simp]: "mem_slot (s\<lparr>max_version := v\<rparr>) = mem_slot s"
  by (simp add: mem_slot_def fun_eq_iff)

lemma bm_insert_ne [simp]: "bm_insert k v m \<noteq> []"
  by (cases m) (auto split: if_splits)

text \<open>The shape of the invariant without the bound, and the bound through the slots.\<close>

lemma mem_ok_slots:
  "mem_ok s \<longleftrightarrow> bm_ok (data s) \<and> (\<forall>(k, h) \<in> set (data s). bm_ok h \<and> h \<noteq> []) \<and>
     (\<forall>k v. mem_slot s k v \<noteq> None \<longrightarrow> v \<le> max_version s)"
proof -
  have "(\<forall>(k, h) \<in> set (data s). \<forall>(v, x) \<in> set h. v \<le> max_version s) \<longleftrightarrow>
      (\<forall>k v. mem_slot s k v \<noteq> None \<longrightarrow> v \<le> max_version s)"
    if ok: "bm_ok (data s)" "\<forall>(k, h) \<in> set (data s). bm_ok h \<and> h \<noteq> []"
  proof
    assume b: "\<forall>(k, h) \<in> set (data s). \<forall>(v, x) \<in> set h. v \<le> max_version s"
    show "\<forall>k v. mem_slot s k v \<noteq> None \<longrightarrow> v \<le> max_version s"
    proof (intro allI impI)
      fix k v assume "mem_slot s k v \<noteq> None"
      then obtain h x where "bm_get (data s) k = Some h" "bm_get h v = Some x"
        by (auto simp: mem_slot_def split: option.splits bind_splits)
      then have "(k, h) \<in> set (data s)" "(v, x) \<in> set h" by (simp_all add: bm_get_in_set)
      with b show "v \<le> max_version s" by auto
    qed
  next
    assume b: "\<forall>k v. mem_slot s k v \<noteq> None \<longrightarrow> v \<le> max_version s"
    show "\<forall>(k, h) \<in> set (data s). \<forall>(v, x) \<in> set h. v \<le> max_version s"
    proof clarify
      fix k h v x assume in_data: "(k, h) \<in> set (data s)" and in_h: "(v, x) \<in> set h"
      from in_data ok(2) have "bm_ok h" by auto
      with in_data in_h have "bm_get (data s) k = Some h" "bm_get h v = Some x"
        by (simp_all add: ok(1) flip: bm_get_mem)
      then have "mem_slot s k v = Some x" by (simp add: mem_slot_def)
      with b show "v \<le> max_version s" by blast
    qed
  qed
  then show ?thesis unfolding mem_ok_def by blast
qed

lemma mem_ok_record:
  assumes "mem_ok s" and "v \<le> m" and "max_version s \<le> m"
  shows "mem_ok ((record_slot k v sl s)\<lparr>max_version := m\<rparr>)"
proof -
  let ?h = "case bm_get (data s) k of Some h \<Rightarrow> h | None \<Rightarrow> []"
  have h: "bm_ok ?h" using mem_ok_get [OF assms(1), of k] by (auto split: option.splits)
  have d: "data (record_slot k v sl s) = bm_insert k (bm_insert v sl ?h) (data s)"
    by (simp add: record_slot_def Let_def)
  have "\<forall>(k', h') \<in> set (data (record_slot k v sl s)). bm_ok h' \<and> h' \<noteq> []"
  proof clarify
    fix k' h' assume "(k', h') \<in> set (data (record_slot k v sl s))"
    then have "(k', h') = (k, bm_insert v sl ?h) \<or> (k', h') \<in> set (data s)"
      using set_bm_insert [of k "bm_insert v sl ?h" "data s"] unfolding d by blast
    then show "bm_ok h' \<and> h' \<noteq> []"
      using assms(1) h unfolding mem_ok_def by auto
  qed
  moreover have "bm_ok (data (record_slot k v sl s))" using assms(1) by (simp add: d mem_ok_def)
  moreover have "\<forall>k' v'. mem_slot (record_slot k v sl s) k' v' \<noteq> None \<longrightarrow> v' \<le> m"
  proof (intro allI impI)
    fix k' v' assume "mem_slot (record_slot k v sl s) k' v' \<noteq> None"
    then have "v' = v \<or> mem_slot s k' v' \<noteq> None" by (auto split: if_splits)
    then have "v' = v \<or> v' \<le> max_version s" using assms(1) unfolding mem_ok_slots by blast
    then show "v' \<le> m" using assms(2) order_trans [OF _ assms(3)] by blast
  qed
  ultimately show ?thesis by (simp add: mem_ok_slots)
qed

lemma mem_step_eq:
  "mem_step m s =
     (if (case latest_version_of s (mo_key m) of Some cur \<Rightarrow> mo_version m \<le> cur | None \<Rightarrow> False) then (False, s)
      else (True, (record_slot (mo_key m) (mo_version m) (mo_value m) s)\<lparr>max_version := max (max_version s) (mo_version m)\<rparr>))"
  by (auto simp: mem_step_def mem_merge_def mem_merge_tombstone_def Let_def split: option.splits)

interpretation mem: mvcc mem_slot read_at latest_version_of mem_step mem_ok
proof
  fix s k v w x m
  assume ok: "mem_ok s"
  show "latest_version_of s k = Some v \<longleftrightarrow> mem_slot s k v \<noteq> None \<and> (\<forall>u > v. mem_slot s k u = None)"
  proof (cases "bm_get (data s) k")
    case None
    then show ?thesis by (simp add: latest_version_of_def mem_slot_def)
  next
    case (Some h)
    with mem_ok_get [OF ok] have "bm_ok h" by blast
    from next_back_keys_Some [OF this] Some show ?thesis
      by (auto simp: latest_version_of_def mem_slot_def not_less)
  qed
  show "latest_version_of s k = None \<longleftrightarrow> (\<forall>u. mem_slot s k u = None)"
  proof (cases "bm_get (data s) k")
    case None
    then show ?thesis by (simp add: latest_version_of_def mem_slot_def)
  next
    case (Some h)
    with mem_ok_get [OF ok] have "h \<noteq> []" by blast
    then obtain u y h' where "h = (u, y) # h'" by (cases h) auto
    then have "bm_get h u = Some y" by simp
    with Some \<open>h \<noteq> []\<close> show ?thesis by (auto simp: latest_version_of_def mem_slot_def next_back_def)
  qed
  show "read_at s k v = Some (VersionedValue w x) \<longleftrightarrow>
      w \<le> v \<and> mem_slot s k w = Some (Some x) \<and> (\<forall>u. w < u \<and> u \<le> v \<longrightarrow> mem_slot s k u = None)"
  proof (cases "bm_get (data s) k")
    case None
    then show ?thesis by (simp add: read_at_def mem_slot_def)
  next
    case (Some h)
    with mem_ok_get [OF ok] have "bm_ok h" by blast
    have "read_at s k v = Some (VersionedValue w x) \<longleftrightarrow> next_back (bm_range_to h v) = Some (w, Some x)"
      using Some by (auto simp: read_at_def split: option.splits)
    also have "\<dots> \<longleftrightarrow> w \<le> v \<and> bm_get h w = Some (Some x) \<and> (\<forall>u. w < u \<and> u \<le> v \<longrightarrow> bm_get h u = None)"
      unfolding next_back_range_to_Some [OF \<open>bm_ok h\<close>] by (auto simp: not_less) (metis not_None_eq not_less)+
    finally show ?thesis using Some by (simp add: mem_slot_def)
  qed
  show "mem_ok (snd (mem_step m s))"
    using ok mem_ok_record [OF ok, of "mo_version m" "max (max_version s) (mo_version m)"] by (simp add: mem_step_eq)
  show "fst (mem_step m s) \<longleftrightarrow> (case latest_version_of s (mo_key m) of Some v \<Rightarrow> v < mo_version m | None \<Rightarrow> True)"
    by (auto simp: mem_step_eq not_le split: option.splits)
  show "mem_slot (snd (mem_step m s)) k v =
      (if fst (mem_step m s) \<and> k = mo_key m \<and> v = mo_version m then Some (mo_value m) else mem_slot s k v)"
    by (simp add: mem_step_eq)
qed

section \<open>The monotonic write paths\<close>

text \<open>What one operation records for a key: a delete of a range writes tombstones on the keys of it
  that have a history.\<close>

fun touches :: "WriteOp \<Rightarrow> Inner \<Rightarrow> Key \<Rightarrow> bool" where
  "touches (WPut key x) s k = (k = key)"
| "touches (WDelete key) s k = (k = key)"
| "touches (WDeleteRange start stop) s k = (start \<le> k \<and> k < stop \<and> bm_get (data s) k \<noteq> None)"

fun op_slot :: "WriteOp \<Rightarrow> Value option" where
  "op_slot (WPut key x) = Some x"
| "op_slot _ = None"

lemma fold_record_slot:
  "mem_slot (fold (\<lambda>key. record_slot key v sl) ks s) k w =
     (if k \<in> set ks \<and> w = v then Some sl else mem_slot s k w)"
  by (induction ks arbitrary: s) auto

lemma fold_record_ok:
  "mem_ok (s\<lparr>max_version := m\<rparr>) \<Longrightarrow> v \<le> m \<Longrightarrow>
    mem_ok ((fold (\<lambda>key. record_slot key v sl) ks s)\<lparr>max_version := m\<rparr>)"
proof (induction ks arbitrary: s)
  case Nil
  then show ?case by simp
next
  case (Cons k ks)
  have "(record_slot k v sl (s\<lparr>max_version := m\<rparr>))\<lparr>max_version := m\<rparr> = (record_slot k v sl s)\<lparr>max_version := m\<rparr>"
    by (simp add: record_slot_def Let_def)
  with mem_ok_record [OF Cons.prems(1), of v m k sl] Cons show ?case by simp
qed

lemma keys_of_range:
  assumes "bm_ok m"
  shows "k \<in> fst ` set (bm_range m lo hi) \<longleftrightarrow> lo \<le> k \<and> k < hi \<and> bm_get m k \<noteq> None"
proof -
  have "k \<in> fst ` set (bm_range m lo hi) \<longleftrightarrow> (\<exists>x. (k, x) \<in> set m) \<and> lo \<le> k \<and> k < hi"
    by (force simp: bm_range_def)
  then show ?thesis using bm_get_mem [OF assms, of k] by auto
qed

lemma apply_op_slot:
  assumes "bm_ok (data s)"
  shows "mem_slot (apply_op x v s) k w = (if touches x s k \<and> w = v then Some (op_slot x) else mem_slot s k w)"
  using assms by (cases x) (auto simp: fold_record_slot keys_of_range)

lemma apply_op_ok:
  assumes "mem_ok (s\<lparr>max_version := m\<rparr>)" and "v \<le> m"
  shows "mem_ok ((apply_op x v s)\<lparr>max_version := m\<rparr>)"
proof (cases x)
  case (WPut k y)
  then show ?thesis using fold_record_ok [OF assms, of "Some y" "[k]"] by simp
next
  case (WDelete k)
  then show ?thesis using fold_record_ok [OF assms, of None "[k]"] by simp
next
  case (WDeleteRange a b)
  then show ?thesis using fold_record_ok [OF assms] by simp
qed

lemma fold_apply_ok:
  "mem_ok (s\<lparr>max_version := m\<rparr>) \<Longrightarrow> v \<le> m \<Longrightarrow> mem_ok ((fold (\<lambda>x. apply_op x v) xs s)\<lparr>max_version := m\<rparr>)"
  by (induction xs arbitrary: s) (simp_all add: apply_op_ok)

lemma mem_ok_raise: "mem_ok s \<Longrightarrow> max_version s \<le> m \<Longrightarrow> mem_ok (s\<lparr>max_version := m\<rparr>)"
  unfolding mem_ok_slots by (simp, meson order_trans)

lemma bm_ok_data: "mem_ok (s\<lparr>max_version := m\<rparr>) \<Longrightarrow> bm_ok (data s)"
  by (simp add: mem_ok_def)

lemma fold_apply_below:
  assumes "mem_ok (s\<lparr>max_version := m\<rparr>)" and "v \<le> m" and "w \<noteq> v"
  shows "mem_slot (fold (\<lambda>x. apply_op x v) xs s) k w = mem_slot s k w"
  using assms
proof (induction xs arbitrary: s)
  case (Cons x xs)
  with apply_op_ok [OF Cons.prems(1,2)] apply_op_slot [OF bm_ok_data [OF Cons.prems(1)]] show ?case by simp
qed simp

text \<open>A write is one of the calls that check the version first; all of them are batches.\<close>

datatype MemWrite =
    MPut Key Value Version
  | MDelete Key Version
  | MDeleteRange Key Key Version
  | MBatch WriteBatch

fun mem_write :: "MemWrite \<Rightarrow> Inner \<Rightarrow> (StorageError + unit) \<times> Inner" where
  "mem_write (MPut k x v) s = mem_put k x v s"
| "mem_write (MDelete k v) s = mem_delete k v s"
| "mem_write (MDeleteRange a b v) s = mem_delete_range a b v s"
| "mem_write (MBatch b) s = mem_write_batch b s"

fun as_batch :: "MemWrite \<Rightarrow> WriteBatch" where
  "as_batch (MPut k x v) = \<lparr>wb_version = v, wb_ops = [WPut k x]\<rparr>"
| "as_batch (MDelete k v) = \<lparr>wb_version = v, wb_ops = [WDelete k]\<rparr>"
| "as_batch (MDeleteRange a b v) = \<lparr>wb_version = v, wb_ops = [WDeleteRange a b]\<rparr>"
| "as_batch (MBatch b) = b"

lemma mem_write_as_batch:
  "snd (mem_write w s) = snd (mem_write_batch (as_batch w) s)"
  "isl (fst (mem_write w s)) = isl (fst (mem_write_batch (as_batch w) s))"
  by (cases w; auto simp: mem_put_def mem_delete_def mem_delete_range_def mem_write_batch_def split: option.splits)+

lemma mem_write_cases:
  obtains (rejected) "isl (fst (mem_write w s))" "snd (mem_write w s) = s"
  | (accepted) "fst (mem_write w s) = Inr ()" "max_version s < wb_version (as_batch w)"
      "snd (mem_write w s) = (fold (\<lambda>x. apply_op x (wb_version (as_batch w))) (wb_ops (as_batch w)) s)
        \<lparr>max_version := wb_version (as_batch w)\<rparr>"
proof (cases "isl (fst (mem_write w s))")
  case True
  then have "snd (mem_write w s) = s"
    unfolding mem_write_as_batch by (auto simp: mem_write_batch_def split: option.splits if_splits)
  with True rejected show ?thesis by blast
next
  case False
  then have "fst (mem_write w s) = Inr ()" by (cases "fst (mem_write w s)") auto
  moreover from False have "max_version s < wb_version (as_batch w)"
    unfolding mem_write_as_batch by (auto simp: mem_write_batch_def check_monotonic_def split: option.splits if_splits)
  moreover from False have "snd (mem_write w s) = (fold (\<lambda>x. apply_op x (wb_version (as_batch w))) (wb_ops (as_batch w)) s)
        \<lparr>max_version := wb_version (as_batch w)\<rparr>"
    unfolding mem_write_as_batch by (auto simp: mem_write_batch_def split: option.splits if_splits)
  ultimately show ?thesis by (rule accepted)
qed

lemma mem_write_ok:
  assumes "mem_ok s"
  shows "mem_ok (snd (mem_write w s))" and "max_version s \<le> max_version (snd (mem_write w s))"
    and "u \<le> max_version s \<Longrightarrow> mem_slot (snd (mem_write w s)) k u = mem_slot s k u"
proof -
  have "mem_ok (snd (mem_write w s)) \<and> max_version s \<le> max_version (snd (mem_write w s)) \<and>
      (u \<le> max_version s \<longrightarrow> mem_slot (snd (mem_write w s)) k u = mem_slot s k u)"
  proof (cases rule: mem_write_cases [of w s])
    case rejected
    then show ?thesis using assms by simp
  next
    case accepted
    then have "mem_ok (s\<lparr>max_version := wb_version (as_batch w)\<rparr>)" by (simp add: mem_ok_raise assms)
    from fold_apply_ok [OF this order_refl] fold_apply_below [OF this order_refl] accepted show ?thesis
      by (auto simp: not_le [symmetric])
  qed
  then show "mem_ok (snd (mem_write w s))" and "max_version s \<le> max_version (snd (mem_write w s))"
    and "u \<le> max_version s \<Longrightarrow> mem_slot (snd (mem_write w s)) k u = mem_slot s k u"
    by blast+
qed

section \<open>Scans and snapshots\<close>

lemma read_at_no_history: "mem_ok s \<Longrightarrow> bm_get (data s) k = None \<Longrightarrow> read_at s k v = None"
  by (simp add: read_at_def)

lemma visible_keys: "sorted_wrt (<) ks \<Longrightarrow> sorted_wrt (<) (map fst (visible s v ks))"
proof (induction ks)
  case (Cons k ks)
  have "fst ` set (visible s v ks) \<subseteq> set ks" by (auto simp: visible_def map_filter_def)
  with Cons show ?case by (auto simp: visible_def map_filter_simps split: option.splits)
qed (simp add: visible_def map_filter_simps)

lemma set_visible: "(k, x) \<in> set (visible s v ks) \<longleftrightarrow> k \<in> set ks \<and> read_at s k v = Some x"
  by (force simp: visible_def map_filter_def)

lemma inner_scan_rows:
  assumes "mem_ok s"
  shows "bm_ok (inner_scan_at s start stop v)"
    and "(k, x) \<in> set (inner_scan_at s start stop v) \<longleftrightarrow> start \<le> k \<and> k < stop \<and> read_at s k v = Some x"
proof -
  have ok: "bm_ok (data s)" using assms by (simp add: mem_ok_def)
  then show "bm_ok (inner_scan_at s start stop v)"
    unfolding inner_scan_at_def bm_ok_def using visible_keys bm_ok_range [OF ok] by (simp add: bm_ok_def)
  show "(k, x) \<in> set (inner_scan_at s start stop v) \<longleftrightarrow> start \<le> k \<and> k < stop \<and> read_at s k v = Some x"
    using read_at_no_history [OF assms, of k v]
    by (cases "bm_get (data s) k") (auto simp: inner_scan_at_def set_visible keys_of_range [OF ok])
qed

lemma bm_rows_eq:
  assumes "bm_ok m" and "bm_ok m'" and "set m = set m'"
  shows "m = m'"
proof (rule map_sorted_distinct_set_unique [of fst])
  show "inj_on fst (set m \<union> set m')"
    using bm_ok_distinct [OF assms(1)] assms(3) by (simp add: distinct_map)
qed (use assms in \<open>auto simp: bm_ok_def strict_sorted_iff\<close>)

lemma inner_scan_same_reads:
  assumes "mem_ok s" and "mem_ok s'" and "\<And>k. read_at s k v = read_at s' k v"
  shows "inner_scan_at s start stop v = inner_scan_at s' start stop v"
  using assms by (intro bm_rows_eq) (auto simp: inner_scan_rows)

lemma read_at_same_slots:
  assumes "mem_ok s" and "mem_ok s'" and "\<And>u. u \<le> v \<Longrightarrow> mem_slot s k u = mem_slot s' k u"
  shows "read_at s k v = read_at s' k v"
proof -
  have "read_at s k v = Some (VersionedValue w x) \<longleftrightarrow> read_at s' k v = Some (VersionedValue w x)" for w x
    using assms(3) by (auto simp: mem.read_Some [OF assms(1)] mem.read_Some [OF assms(2)])
  then show ?thesis by (metis VersionedValue.exhaust not_Some_eq)
qed

text \<open>Every call that changes the engine: the version-checked writes, and the merges, which carry their own version.\<close>

datatype MemCall = Checked MemWrite | Merged MergeOp

fun mem_call :: "MemCall \<Rightarrow> Inner \<Rightarrow> Inner" where
  "mem_call (Checked w) s = snd (mem_write w s)"
| "mem_call (Merged m) s = snd (mem_step m s)"

fun call_above :: "Version \<Rightarrow> MemCall \<Rightarrow> bool" where
  "call_above v (Checked w) = True"
| "call_above v (Merged m) = (v < mo_version m)"

lemma mem_call_frame:
  assumes "mem_ok s" and "v \<le> max_version s" and "call_above v c"
  shows "mem_ok (mem_call c s)" and "v \<le> max_version (mem_call c s)"
    and "read_at (mem_call c s) k v = read_at s k v"
proof -
  have "mem_ok (mem_call c s) \<and> v \<le> max_version (mem_call c s) \<and> read_at (mem_call c s) k v = read_at s k v"
  proof (cases c)
    case (Checked w)
    note step = mem_write_ok [OF assms(1), where w = w]
    have "read_at (snd (mem_write w s)) k v = read_at s k v"
      by (rule read_at_same_slots [OF step(1) assms(1) step(3)]) (rule order_trans [OF _ assms(2)])
    with Checked step(1) order_trans [OF assms(2) step(2)] show ?thesis by simp
  next
    case (Merged m)
    then have "read_at (snd (mem_step m s)) k v = read_at s k v"
      using mem.merge_read_below [OF assms(1)] assms(3) by simp
    moreover have "max_version s \<le> max_version (snd (mem_step m s))" by (simp add: mem_step_eq)
    ultimately show ?thesis using Merged mem.merge_inv [OF assms(1)] order_trans [OF assms(2)] by simp
  qed
  then show "mem_ok (mem_call c s)" and "v \<le> max_version (mem_call c s)"
    and "read_at (mem_call c s) k v = read_at s k v" by blast+
qed

lemma mem_calls_frame:
  assumes "mem_ok s" and "v \<le> max_version s" and "list_all (call_above v) cs"
  shows "mem_ok (fold mem_call cs s) \<and> (\<forall>k. read_at (fold mem_call cs s) k v = read_at s k v)"
  using assms
proof (induction cs arbitrary: s)
  case (Cons c cs)
  then have above: "call_above v c" "list_all (call_above v) cs" by simp_all
  note step = mem_call_frame [OF Cons.prems(1,2) above(1)]
  from Cons.IH [OF step(1,2) above(2)] step(3) show ?case by simp
qed simp

lemma merge_read_other:
  assumes "mem_ok s" and "k \<noteq> mo_key m"
  shows "read_at (snd (mem_step m s)) k v = read_at s k v"
  using assms(2) by (intro read_at_same_slots mem.merge_inv assms(1)) (simp add: mem.merge_slot [OF assms(1)])

text \<open>What a merge at or below a version does to a read at it: the merged value is the newest there.\<close>

lemma merge_read_at:
  assumes "mem_ok s" and "fst (mem_step m s)" and "mo_version m \<le> v"
  shows "read_at (snd (mem_step m s)) (mo_key m) v = map_option (VersionedValue (mo_version m)) (mo_value m)"
proof -
  let ?s = "snd (mem_step m s)" and ?k = "mo_key m" and ?n = "mo_version m"
  have ok: "mem_ok ?s" by (rule mem.merge_inv [OF assms(1)])
  have "latest_version_of ?s ?k = Some ?n" using mem.merge_latest [OF assms(1)] assms(2) by simp
  then have above: "\<forall>u > ?n. mem_slot ?s ?k u = None" using mem.latest_Some [OF ok] by blast
  have slot: "mem_slot ?s ?k ?n = Some (mo_value m)" using mem.merge_slot [OF assms(1)] assms(2) by simp
  have "read_at ?s ?k v = Some (VersionedValue w x) \<longleftrightarrow> w = ?n \<and> mo_value m = Some x" for w x
    using above slot assms(3) unfolding mem.read_Some [OF ok]
    by (metis linorder_less_linear option.distinct(1) option.inject)
  then show ?thesis by (cases "mo_value m"; cases "read_at ?s ?k v") (auto, (metis VersionedValue.exhaust)+)
qed

section \<open>Writes refine a map\<close>

text \<open>The client's view: a map from keys to their newest value, updated in the order of a batch.\<close>

type_synonym kv = "Key \<Rightarrow> VersionedValue option"

fun kv_apply :: "Version \<Rightarrow> WriteOp \<Rightarrow> kv \<Rightarrow> kv" where
  "kv_apply v (WPut key x) m = m(key \<mapsto> VersionedValue v x)"
| "kv_apply v (WDelete key) m = m(key := None)"
| "kv_apply v (WDeleteRange start stop) m = (\<lambda>k. if start \<le> k \<and> k < stop then None else m k)"

lemma mem_get_newest:
  assumes "mem_ok s" and "max_version s \<le> v" and "mem_slot s k v = Some sl"
  shows "mem_get s k = map_option (VersionedValue v) sl"
proof -
  have above: "mem_slot s k u = None" if "v < u" for u
  proof (rule ccontr)
    assume "mem_slot s k u \<noteq> None"
    then have "u \<le> max_version s" using assms(1) unfolding mem_ok_slots by blast
    with assms(2) that show False by (simp add: not_le [symmetric])
  qed
  show ?thesis
  proof (cases sl)
    case None
    have "read_at s k (- 1) \<noteq> Some (VersionedValue w x)" for w x
    proof
      assume "read_at s k (- 1) = Some (VersionedValue w x)"
      then have w: "mem_slot s k w = Some (Some x)" "\<forall>u. w < u \<and> u \<le> - 1 \<longrightarrow> mem_slot s k u = None"
        by (simp_all add: mem.read_Some [OF assms(1)])
      with assms(3) None have "w \<noteq> v" by auto
      with w above assms(3) show False by (metis antisym_conv3 option.distinct(1) word_order.extremum)
    qed
    with None show ?thesis by (metis VersionedValue.exhaust mem_get_def not_Some_eq option.simps(8))
  next
    case (Some x)
    with above assms(3) have "read_at s k (- 1) = Some (VersionedValue v x)"
      by (simp add: mem.read_Some [OF assms(1)])
    with Some show ?thesis by (simp add: mem_get_def)
  qed
qed

lemma mem_get_no_history: "bm_get (data s) k = None \<Longrightarrow> mem_get s k = None"
  by (simp add: mem_get_def read_at_def)

lemma mem_get_max_version [simp]: "mem_get (s\<lparr>max_version := m\<rparr>) = mem_get s"
  by (simp add: mem_get_def read_at_def fun_eq_iff)

lemma apply_op_get:
  assumes ok: "mem_ok (s\<lparr>max_version := v\<rparr>)"
  shows "mem_get (apply_op x v s) k = kv_apply v x (mem_get s) k"
proof -
  let ?s = "(apply_op x v s)\<lparr>max_version := v\<rparr>"
  have ok': "mem_ok ?s" by (rule apply_op_ok [OF ok order_refl])
  note sl = apply_op_slot [OF bm_ok_data [OF ok], of x v k]
  show ?thesis
  proof (cases "touches x s k")
    case True
    then have "mem_get ?s k = map_option (VersionedValue v) (op_slot x)"
      by (intro mem_get_newest [OF ok']) (simp_all add: sl)
    with True show ?thesis by (cases x) auto
  next
    case False
    then have "read_at ?s k (- 1) = read_at (s\<lparr>max_version := v\<rparr>) k (- 1)"
      by (intro read_at_same_slots [OF ok' ok]) (simp add: sl)
    then have "mem_get ?s k = mem_get (s\<lparr>max_version := v\<rparr>) k" unfolding mem_get_def .
    then have "mem_get (apply_op x v s) k = mem_get s k" by simp
    with False mem_get_no_history [of s k] show ?thesis by (cases x) auto
  qed
qed

lemma fold_apply_get:
  "mem_ok (s\<lparr>max_version := v\<rparr>) \<Longrightarrow>
    mem_get (fold (\<lambda>x. apply_op x v) xs s) = fold (kv_apply v) xs (mem_get s)"
proof (induction xs arbitrary: s)
  case (Cons x xs)
  have "mem_get (apply_op x v s) = kv_apply v x (mem_get s)"
    using apply_op_get [OF Cons.prems] by (rule ext)
  with Cons.IH [OF apply_op_ok [OF Cons.prems order_refl]] show ?case by simp
qed simp

section \<open>Correctness of the engine\<close>

text \<open>C9: a write call with a version the engine has not passed applies its operations in order to the
  map of newest values and keeps the invariant; a stale version or an inverted range is reported and
  changes nothing.\<close>

theorem writes_refine_map:
  assumes "mem_ok s" and "mem_write w s = (r, s')"
  shows "mem_ok s' \<and>
    (case r of
       Inl e \<Rightarrow> s' = s \<and> (wb_version (as_batch w) \<le> max_version s \<or> list_ex bad_range (wb_ops (as_batch w)))
     | Inr _ \<Rightarrow> max_version s' = wb_version (as_batch w) \<and> max_version s < max_version s' \<and>
         mem_get s' = fold (kv_apply (wb_version (as_batch w))) (wb_ops (as_batch w)) (mem_get s))"
proof -
  have s': "s' = snd (mem_write w s)" and r: "r = fst (mem_write w s)" using assms(2) by simp_all
  have ok: "mem_ok s'" unfolding s' by (rule mem_write_ok(1) [OF assms(1)])
  show ?thesis
  proof (cases rule: mem_write_cases [of w s])
    case rejected
    then have "isl (fst (mem_write_batch (as_batch w) s))" by (simp add: mem_write_as_batch)
    then have "wb_version (as_batch w) \<le> max_version s \<or> list_ex bad_range (wb_ops (as_batch w))"
      by (auto simp: mem_write_batch_def check_monotonic_def split: if_splits)
    with rejected ok show ?thesis by (auto simp: s' r split: sum.splits)
  next
    case accepted
    have "mem_ok (s\<lparr>max_version := wb_version (as_batch w)\<rparr>)"
      using accepted(2) by (simp add: mem_ok_raise assms(1))
    from fold_apply_get [OF this] accepted ok show ?thesis by (simp add: s' r)
  qed
qed

theorem writes_refine_map_witness:
  "mem_get (snd (mem_write (MBatch \<lparr>wb_version = 4, wb_ops = [WPut [1] [9], WDeleteRange [0] [1], WDelete [2]]\<rparr>) mem_new)) =
    fold (kv_apply 4) [WPut [1] [9], WDeleteRange [0] [1], WDelete [2]] (mem_get mem_new)"
proof -
  let ?w = "MBatch \<lparr>wb_version = 4, wb_ops = [WPut [1] [9], WDeleteRange [0] [1], WDelete [2]]\<rparr>"
  have ok: "mem_ok mem_new" by (simp add: mem_ok_def mem_new_def)
  have "fst (mem_write ?w mem_new) = Inr ()" by code_simp
  then have "mem_write ?w mem_new = (Inr (), snd (mem_write ?w mem_new))" by (metis prod.collapse)
  from writes_refine_map [OF ok this] show ?thesis by simp
qed

text \<open>C13: a snapshot keeps returning the same values and the same scans under any sequence of puts, deletes,
  range deletes and batches, accepted or refused, and of merges of versions above the snapshot's. A merge the
  engine takes after them at or below the snapshot's version changes the snapshot's read of the merged key to
  exactly the merged value or tombstone, and no read of another key.\<close>

theorem snapshot_stable:
  assumes "mem_ok s" and "list_all (call_above (mem_snapshot s)) cs"
  shows "snapshot_get (mem_snapshot s) (fold mem_call cs s) key = snapshot_get (mem_snapshot s) s key \<and>
    snapshot_scan (mem_snapshot s) (fold mem_call cs s) start stop = snapshot_scan (mem_snapshot s) s start stop \<and>
    (\<forall>m. fst (mem_step m (fold mem_call cs s)) \<and> mo_version m \<le> mem_snapshot s \<longrightarrow>
       snapshot_get (mem_snapshot s) (mem_call (Merged m) (fold mem_call cs s)) (mo_key m) =
         map_option (VersionedValue (mo_version m)) (mo_value m)) \<and>
    (\<forall>m. mo_key m \<noteq> key \<longrightarrow>
       snapshot_get (mem_snapshot s) (mem_call (Merged m) (fold mem_call cs s)) key = snapshot_get (mem_snapshot s) s key)"
proof -
  note frame = mem_calls_frame [OF assms(1) order_refl assms(2) [unfolded mem_snapshot_def]]
  then have "inner_scan_at (fold mem_call cs s) start stop (max_version s) = inner_scan_at s start stop (max_version s)"
    by (intro inner_scan_same_reads [OF _ assms(1)]) simp_all
  with frame merge_read_at [OF conjunct1 [OF frame]] merge_read_other [OF conjunct1 [OF frame], of key] show ?thesis
    by (simp add: snapshot_get_def snapshot_scan_def mem_snapshot_def)
qed

theorem snapshot_stable_witness:
  "let s = snd (mem_put [1] [2] 7 mem_new);
       cs = [Merged (merge_put [3] [4] 8), Checked (MPut [1] [5] 9), Checked (MDelete [1] 6)]
   in snapshot_get (mem_snapshot s) (fold mem_call cs s) [1] = Some (VersionedValue 7 [2])"
proof -
  let ?s = "snd (mem_put [1] [2] 7 mem_new)"
  have new: "mem_ok mem_new" by (simp add: mem_ok_def mem_new_def)
  then have ok: "mem_ok ?s" using mem_write_ok(1) [OF new, of "MPut [1] [2] 7"] by simp
  have "list_all (call_above (mem_snapshot ?s)) [Merged (merge_put [3] [4] 8), Checked (MPut [1] [5] 9), Checked (MDelete [1] 6)]"
    by code_simp
  moreover have "snapshot_get (mem_snapshot ?s) ?s [1] = Some (VersionedValue 7 [2])" by code_simp
  ultimately show ?thesis using snapshot_stable [OF ok, of _ "[1]"] unfolding Let_def by metis
qed

text \<open>C31: a scan returns, in key order and once each, exactly the keys of the range with a visible value.\<close>

theorem scan_exact:
  assumes "mem_ok s" and "mem_scan_at s start stop v = Inr rows"
  shows "sorted_wrt (<) (map fst rows) \<and>
    ((k, x) \<in> set rows \<longleftrightarrow> start \<le> k \<and> k < stop \<and> mem_get_at s k v = Some x)"
proof -
  have rows: "rows = inner_scan_at s start stop v"
    using assms(2) by (auto simp: mem_scan_at_def split: if_splits)
  then show ?thesis
    using inner_scan_rows [OF assms(1)] by (simp add: bm_ok_def mem_get_at_def)
qed

theorem scan_exact_witness:
  "sorted_wrt (<) (map fst [([1::u8], VersionedValue 7 [2])]) \<and>
    (([1::u8], VersionedValue 7 [2]) \<in> set [([1], VersionedValue 7 [2])] \<longleftrightarrow>
      [0] \<le> [1::u8] \<and> [1::u8] < [5] \<and>
      mem_get_at \<lparr>data = [([1], [(7, Some [2])]), ([3], [(7, None)])], max_version = 7\<rparr> [1] 8 = Some (VersionedValue 7 [2]))"
proof (rule scan_exact)
  show "mem_ok \<lparr>data = [([1], [(7, Some [2])]), ([3], [(7, None)])], max_version = 7\<rparr>"
    by (simp add: mem_ok_def bm_ok_def)
  show "mem_scan_at \<lparr>data = [([1], [(7, Some [2])]), ([3], [(7, None)])], max_version = 7\<rparr> [0] [5] 8 =
      Inr [([1], VersionedValue 7 [2])]" by code_simp
qed

text \<open>C7: engines that merge the same versioned values and tombstones, in any order and with any
  repetitions, agree on the newest version of every key and on what a read of it returns.\<close>

theorem merges_agree_in_any_order:
  assumes "mem_ok s" and "set ms = set ms'" and "merges_agree (set ms)"
  shows "latest_version_of (merge_all mem_step ms s) k = latest_version_of (merge_all mem_step ms' s) k \<and>
    mem_get (merge_all mem_step ms s) k = mem_get (merge_all mem_step ms' s) k"
proof -
  let ?a = "merge_all mem_step ms s" and ?b = "merge_all mem_step ms' s"
  note lat = mem.merges_converge(1) [OF assms, of k]
  note ok = mem.merge_all_inv [OF assms(1)]
  have "mem_get ?a k = mem_get ?b k"
  proof (cases "latest_version_of ?a k")
    case None
    with lat have "mem_slot ?a k u = None" "mem_slot ?b k u = None" for u
      using mem.latest_None [OF ok] by metis+
    then show ?thesis unfolding mem_get_def by (intro read_at_same_slots [OF ok ok]) simp
  next
    case (Some v)
    have same: "mem_slot ?a k v = mem_slot ?b k v" by (rule mem.merges_converge(2) [OF assms Some])
    have newest: "mem_slot ?a k v \<noteq> None" "\<forall>u>v. mem_slot ?a k u = None" "\<forall>u>v. mem_slot ?b k u = None"
      using Some lat mem.latest_Some [OF ok, of ms k v] mem.latest_Some [OF ok, of ms' k v] by simp_all
    have "read_at ?a k (- 1) = Some (VersionedValue w x) \<longleftrightarrow> v = w \<and> mem_slot ?a k v = Some (Some x)"
      "read_at ?b k (- 1) = Some (VersionedValue w x) \<longleftrightarrow> v = w \<and> mem_slot ?b k v = Some (Some x)" for w x
      using newest same unfolding mem.read_Some [OF ok]
      by (metis linorder_less_linear option.distinct(1) word_order.extremum)+
    then show ?thesis unfolding mem_get_def by (metis VersionedValue.exhaust not_Some_eq same)
  qed
  with lat show ?thesis by blast
qed

theorem merges_agree_in_any_order_witness:
  "mem_get (merge_all mem_step [merge_put [1] [5] 3, merge_tomb [1] 9] mem_new) [1] =
   mem_get (merge_all mem_step [merge_tomb [1] 9, merge_put [1] [5] 3, merge_tomb [1] 9] mem_new) [1]"
proof -
  have ok: "mem_ok mem_new" by (simp add: mem_ok_def mem_new_def)
  have s: "set [merge_put [1] [5] 3, merge_tomb [1] 9] = set [merge_tomb [1] 9, merge_put [1] [5] 3, merge_tomb [1] 9]" by auto
  have a: "merges_agree (set [merge_put [1] [5] 3, merge_tomb [1] 9])"
    by (simp add: merges_agree_def merge_put_def merge_tomb_def)
  from merges_agree_in_any_order [OF ok s a] show ?thesis by blast
qed

end
