(* ===== verification/Wal_Format.thy ===== *)
theory Wal_Format
  imports Prelude
begin

text \<open>
  The format tags and the line framing of every control-plane and data-plane log file
  (\<^verbatim>\<open>crates/animus-control/src/format.rs\<close>): tagged blobs, checksummed lines, sync markers, and the
  decoder that tells a torn tail from corruption before a proven durable offset. The checksum
  (\<^verbatim>\<open>crc32fast::hash\<close>) is the parameter \<open>crc\<close>; nothing is assumed of it. The lemmas give the round
  trip of a written file, with or without a torn tail, and the refusal of a damaged durable prefix.
\<close>

section \<open>Tags and errors\<close>

record FormatTag =
  magic :: bytes
  tag_version :: u8
  tag_name :: string

datatype FormatError =
    PreBaselineFormat string
  | UnsupportedFormatVersion string u8 u8
  | Malformed string
  | MidFileCorruption string nat nat
  | BadSyncMarker string nat nat

definition unsupported_version :: "FormatTag \<Rightarrow> u8 \<Rightarrow> FormatError" where
  "unsupported_version tag found = UnsupportedFormatVersion (tag_name tag) found (tag_version tag)"

definition wrap :: "FormatTag \<Rightarrow> bytes \<Rightarrow> bytes" where
  "wrap tag payload = magic tag @ [tag_version tag] @ payload"

definition unwrap :: "FormatTag \<Rightarrow> bytes \<Rightarrow> FormatError + (u8 \<times> bytes)" where
  "unwrap tag bs =
     (if length bs < 5 \<or> take 4 bs \<noteq> magic tag then Inl (PreBaselineFormat (tag_name tag))
      else let version = bs ! 4 in
           if version = 0 \<or> version > tag_version tag
           then Inl (UnsupportedFormatVersion (tag_name tag) version (tag_version tag))
           else Inr (version, drop 5 bs))"

section \<open>Hexadecimal and decimal text\<close>

text \<open>\<^verbatim>\<open>format!("{:0wx}")\<close> for values that fit the width, \<^verbatim>\<open>from_str_radix(_, 16)\<close> for texts too short to
  overflow, and \<^verbatim>\<open>str::parse::<u64>\<close>. The digits are ASCII, so the conversion of the bytes to UTF-8
  text before parsing rejects nothing that parsing would accept.\<close>

definition hex_digit :: "nat \<Rightarrow> u8" where
  "hex_digit d = (if d < 10 then word_of_nat (48 + d) else word_of_nat (87 + d))"

definition hex_bytes :: "nat \<Rightarrow> nat \<Rightarrow> bytes" where
  "hex_bytes w n = map (\<lambda>i. hex_digit (n div 16 ^ (w - 1 - i) mod 16)) [0..<w]"

definition hex_val :: "u8 \<Rightarrow> nat option" where
  "hex_val b =
     (if 48 \<le> b \<and> b \<le> 57 then Some (unat b - 48)
      else if 97 \<le> b \<and> b \<le> 102 then Some (unat b - 87)
      else if 65 \<le> b \<and> b \<le> 70 then Some (unat b - 55)
      else None)"

fun radix_value :: "nat \<Rightarrow> (u8 \<Rightarrow> nat option) \<Rightarrow> bytes \<Rightarrow> nat \<Rightarrow> nat option" where
  "radix_value r dv [] acc = Some acc"
| "radix_value r dv (b # bs) acc =
     (case dv b of None \<Rightarrow> None | Some d \<Rightarrow> radix_value r dv bs (acc * r + d))"

definition strip_plus :: "bytes \<Rightarrow> bytes option" where
  "strip_plus bs =
     (case bs of [] \<Rightarrow> None | b # r \<Rightarrow> if b = 43 then (if r = [] then None else Some r) else Some bs)"

definition from_str_radix16 :: "bytes \<Rightarrow> nat option" where
  "from_str_radix16 bs = Option.bind (strip_plus bs) (\<lambda>r. radix_value 16 hex_val r 0)"

definition dec_val :: "u8 \<Rightarrow> nat option" where
  "dec_val b = (if 48 \<le> b \<and> b \<le> 57 then Some (unat b - 48) else None)"

definition parse_u64 :: "bytes \<Rightarrow> nat option" where
  "parse_u64 bs =
     Option.bind (Option.bind (strip_plus bs) (\<lambda>r. radix_value 10 dec_val r 0))
       (\<lambda>n. if n < 2 ^ 64 then Some n else None)"

fun dec_bytes :: "nat \<Rightarrow> bytes" where
  "dec_bytes n = (if n < 10 then [word_of_nat (48 + n)] else dec_bytes (n div 10) @ [word_of_nat (48 + n mod 10)])"

declare dec_bytes.simps [simp del]

section \<open>Lines\<close>

abbreviation NL :: u8 where "NL \<equiv> 10"
abbreviation COLON :: u8 where "COLON \<equiv> 58"

definition encode_line :: "(bytes \<Rightarrow> u32) \<Rightarrow> FormatTag \<Rightarrow> bytes \<Rightarrow> bytes" where
  "encode_line crc tag payload =
     (let body = magic tag @ hex_bytes 2 (unat (tag_version tag)) @ payload
      in hex_bytes 8 (unat (crc body)) @ [COLON] @ body @ [NL])"

definition SYNC_MARKER_MIN_VERSION :: u8 where "SYNC_MARKER_MIN_VERSION = 2"

text \<open>\<^verbatim>\<open>!sync:\<close>\<close>

definition SYNC_MARKER_PREFIX :: bytes where "SYNC_MARKER_PREFIX = [33, 115, 121, 110, 99, 58]"

definition encode_sync_marker :: "(bytes \<Rightarrow> u32) \<Rightarrow> FormatTag \<Rightarrow> nat \<Rightarrow> bytes" where
  "encode_sync_marker crc tag durable_to = encode_line crc tag (SYNC_MARKER_PREFIX @ dec_bytes durable_to)"

record DecodedLines =
  dl_lines :: "(u8 \<times> bytes) list"
  valid_len :: nat

definition repaired_image :: "bytes \<Rightarrow> nat \<Rightarrow> bytes option" where
  "repaired_image bs n =
     (let clean = take n bs;
          clean = (if clean \<noteq> [] \<and> last clean \<noteq> NL then clean @ [NL] else clean)
      in if clean \<noteq> bs then Some clean else None)"

definition frame_body :: "(bytes \<Rightarrow> u32) \<Rightarrow> bytes \<Rightarrow> bytes option" where
  "frame_body crc line =
     (let hex = takeWhile (\<lambda>b. b \<noteq> COLON) line; rest = dropWhile (\<lambda>b. b \<noteq> COLON) line
      in if rest = [] then None
         else if length hex \<noteq> 8 then None
         else case from_str_radix16 hex of
                None \<Rightarrow> None
              | Some expected \<Rightarrow>
                  let body = tl rest
                  in if unat (crc body) \<noteq> expected then None
                     else if 6 \<le> length body then Some body else None)"

definition body_version :: "FormatTag \<Rightarrow> bytes \<Rightarrow> FormatError + u8" where
  "body_version tag body =
     (if take 4 body \<noteq> magic tag then Inl (PreBaselineFormat (tag_name tag))
      else case from_str_radix16 (take 2 (drop 4 body)) of
             None \<Rightarrow> Inl (Malformed (tag_name tag))
           | Some v \<Rightarrow>
               if v = 0 \<or> v > unat (tag_version tag)
               then Inl (UnsupportedFormatVersion (tag_name tag) (word_of_nat v) (tag_version tag))
               else Inr (word_of_nat v))"

definition parse_marker :: "FormatTag \<Rightarrow> bytes \<Rightarrow> FormatError + nat option" where
  "parse_marker tag payload =
     (if take 6 payload \<noteq> SYNC_MARKER_PREFIX then Inr None
      else case parse_u64 (drop 6 payload) of
             Some n \<Rightarrow> Inr (Some n)
           | None \<Rightarrow> Inl (Malformed (tag_name tag)))"

definition check_marker :: "FormatTag \<Rightarrow> nat \<Rightarrow> nat \<Rightarrow> FormatError + nat" where
  "check_marker tag start claimed =
     (if claimed = start then Inr start else Inl (BadSyncMarker (tag_name tag) start claimed))"

text \<open>The variables of the decoding loop.\<close>

record Scan =
  sc_lines :: "(u8 \<times> bytes) list"
  first_bad :: "nat option"
  durable_to :: "nat option"

text \<open>One line, starting at an offset; \<open>Inl\<close> where the loop returns an error.\<close>

definition scan_marker :: "FormatTag \<Rightarrow> nat \<Rightarrow> bytes \<Rightarrow> Scan \<Rightarrow> FormatError + Scan option" where
  "scan_marker tag start payload st =
     (case parse_marker tag payload of
        Inl e \<Rightarrow> Inl e
      | Inr None \<Rightarrow> Inr None
      | Inr (Some claimed) \<Rightarrow>
          (case check_marker tag start claimed of
             Inl e \<Rightarrow> Inl e
           | Inr m \<Rightarrow> Inr (Some (st\<lparr>durable_to := Some m\<rparr>))))"

definition scan_line :: "(bytes \<Rightarrow> u32) \<Rightarrow> FormatTag \<Rightarrow> nat \<Rightarrow> bytes \<Rightarrow> Scan \<Rightarrow> FormatError + Scan" where
  "scan_line crc tag start line st =
     (if line = [] then Inr st
      else case frame_body crc line of
        None \<Rightarrow> Inr (st\<lparr>first_bad := (case first_bad st of Some b \<Rightarrow> Some b | None \<Rightarrow> Some start)\<rparr>)
      | Some body \<Rightarrow>
          if first_bad st \<noteq> None then
            (if take 4 body \<noteq> magic tag then Inr st
             else case from_str_radix16 (take 2 (drop 4 body)) of
                    None \<Rightarrow> Inr st
                  | Some v \<Rightarrow>
                      if \<not> (unat SYNC_MARKER_MIN_VERSION \<le> v \<and> v \<le> unat (tag_version tag)) then Inr st
                      else (case scan_marker tag start (drop 6 body) st of
                              Inl e \<Rightarrow> Inl e | Inr None \<Rightarrow> Inr st | Inr (Some st') \<Rightarrow> Inr st'))
          else
            (case body_version tag body of
               Inl e \<Rightarrow> Inl e
             | Inr version \<Rightarrow>
                 (case (if version \<ge> SYNC_MARKER_MIN_VERSION then scan_marker tag start (drop 6 body) st else Inr None) of
                    Inl e \<Rightarrow> Inl e
                  | Inr (Some st') \<Rightarrow> Inr st'
                  | Inr None \<Rightarrow> Inr (st\<lparr>sc_lines := sc_lines st @ [(version, drop 6 body)]\<rparr>))))"

text \<open>The loop over the buffer: the rest of it and the offset where that rest starts.\<close>

function scan_lines :: "(bytes \<Rightarrow> u32) \<Rightarrow> FormatTag \<Rightarrow> nat \<Rightarrow> bytes \<Rightarrow> Scan \<Rightarrow> FormatError + Scan" where
  "scan_lines crc tag pos bs st =
     (if bs = [] then Inr st
      else let line = takeWhile (\<lambda>b. b \<noteq> NL) bs;
               rest = drop (Suc (length line)) bs
           in case scan_line crc tag pos line st of
                Inl e \<Rightarrow> Inl e
              | Inr st' \<Rightarrow> scan_lines crc tag (pos + (length bs - length rest)) rest st')"
  by pat_completeness auto
termination
  by (relation "measure (\<lambda>(crc, tag, pos, bs, st). length bs)") auto

declare scan_lines.simps [simp del]

definition decode_lines_extent :: "(bytes \<Rightarrow> u32) \<Rightarrow> FormatTag \<Rightarrow> bytes \<Rightarrow> FormatError + DecodedLines" where
  "decode_lines_extent crc tag bs =
     (case scan_lines crc tag 0 bs \<lparr>sc_lines = [], first_bad = None, durable_to = None\<rparr> of
        Inl e \<Rightarrow> Inl e
      | Inr st \<Rightarrow>
          (case (first_bad st, durable_to st) of
             (Some bad, Some durable) \<Rightarrow>
               if bad < durable then Inl (MidFileCorruption (tag_name tag) bad durable)
               else Inr \<lparr>dl_lines = sc_lines st, valid_len = bad\<rparr>
           | (Some bad, None) \<Rightarrow> Inr \<lparr>dl_lines = sc_lines st, valid_len = bad\<rparr>
           | (None, _) \<Rightarrow> Inr \<lparr>dl_lines = sc_lines st, valid_len = length bs\<rparr>))"

definition decode_lines :: "(bytes \<Rightarrow> u32) \<Rightarrow> FormatTag \<Rightarrow> bytes \<Rightarrow> FormatError + (u8 \<times> bytes) list" where
  "decode_lines crc tag bs =
     (case decode_lines_extent crc tag bs of Inl e \<Rightarrow> Inl e | Inr d \<Rightarrow> Inr (dl_lines d))"

section \<open>Digits read back\<close>

lemma hex_val_digit [simp]: "d < 16 \<Longrightarrow> hex_val (hex_digit d) = Some d"
proof -
  assume "d < 16"
  then have "d \<in> {0..<16}" by simp
  moreover have "\<forall>d \<in> set [0..<16]. hex_val (hex_digit d) = Some d" by code_simp
  ultimately show ?thesis by (simp del: upt_Suc)
qed

lemma hex_digit_plain [simp]: "d < 16 \<Longrightarrow> hex_digit d \<noteq> 43 \<and> hex_digit d \<noteq> COLON \<and> hex_digit d \<noteq> NL"
proof -
  assume "d < 16"
  then have "d \<in> {0..<16}" by simp
  moreover have "\<forall>d \<in> set [0..<16]. hex_digit d \<noteq> 43 \<and> hex_digit d \<noteq> COLON \<and> hex_digit d \<noteq> NL" by code_simp
  ultimately show ?thesis by (simp del: upt_Suc)
qed

lemma hex_bytes_0 [simp]: "hex_bytes 0 n = []"
  by (simp add: hex_bytes_def)

lemma hex_bytes_Suc: "hex_bytes (Suc w) n = hex_bytes w (n div 16) @ [hex_digit (n mod 16)]"
proof -
  have "16 ^ (Suc w - 1 - i) = (16 * 16 ^ (w - 1 - i) :: nat)" if "i < w" for i
  proof -
    have "Suc w - 1 - i = Suc (w - 1 - i)" using that by simp
    then show ?thesis by simp
  qed
  then show ?thesis by (auto simp: hex_bytes_def div_mult2_eq)
qed

lemma length_hex_bytes [simp]: "length (hex_bytes w n) = w"
  by (simp add: hex_bytes_def)

lemma hex_bytes_plain: "b \<in> set (hex_bytes w n) \<Longrightarrow> b \<noteq> 43 \<and> b \<noteq> COLON \<and> b \<noteq> NL"
  by (auto simp: hex_bytes_def)

lemma radix_value_append:
  "radix_value r dv (xs @ ys) a = Option.bind (radix_value r dv xs a) (radix_value r dv ys)"
  by (induction r dv xs a rule: radix_value.induct) (auto split: option.splits)

lemma radix_value_hex: "radix_value 16 hex_val (hex_bytes w n) a = Some (a * 16 ^ w + n mod 16 ^ w)"
proof (induction w arbitrary: n)
  case (Suc w)
  have "n mod (16 * 16 ^ w) = 16 * (n div 16 mod 16 ^ w) + n mod 16" by (rule mod_mult2_eq)
  then show ?case by (simp add: hex_bytes_Suc radix_value_append Suc.IH algebra_simps)
qed simp

lemma from_str_radix16_hex: "0 < w \<Longrightarrow> n < 16 ^ w \<Longrightarrow> from_str_radix16 (hex_bytes w n) = Some n"
proof -
  assume w: "0 < w" and n: "n < 16 ^ w"
  obtain b bs where bs: "hex_bytes w n = b # bs" using w by (cases "hex_bytes w n") (auto dest: arg_cong [where f = length])
  then have "b \<noteq> 43" using hex_bytes_plain [of b w n] by simp
  with bs have "strip_plus (hex_bytes w n) = Some (hex_bytes w n)" by (simp add: strip_plus_def)
  then show ?thesis using n by (simp add: from_str_radix16_def radix_value_hex)
qed

lemma dec_val_digit [simp]: "d < 10 \<Longrightarrow> dec_val (word_of_nat (48 + d)) = Some d"
proof -
  assume "d < 10"
  then have "d \<in> {0..<10}" by simp
  moreover have "\<forall>d \<in> set [0..<10]. dec_val (word_of_nat (48 + d)) = Some d" by code_simp
  ultimately show ?thesis by (simp del: upt_Suc)
qed

lemma dec_digit_plain [simp]: "d < 10 \<Longrightarrow> (word_of_nat (48 + d) :: u8) \<noteq> 43 \<and> (word_of_nat (48 + d) :: u8) \<noteq> NL"
proof -
  assume "d < 10"
  then have "d \<in> {0..<10}" by simp
  moreover have "\<forall>d \<in> set [0..<10]. (word_of_nat (48 + d) :: u8) \<noteq> 43 \<and> (word_of_nat (48 + d) :: u8) \<noteq> NL" by code_simp
  ultimately show ?thesis by (simp del: upt_Suc)
qed

lemma dec_bytes_plain: "b \<in> set (dec_bytes n) \<Longrightarrow> b \<noteq> 43 \<and> b \<noteq> NL"
proof (induction n rule: dec_bytes.induct)
  case (1 n)
  show ?case
  proof (cases "n < 10")
    case True
    then show ?thesis using 1(2) dec_digit_plain [of n] by (simp add: dec_bytes.simps [of n])
  next
    case False
    then show ?thesis using 1 dec_digit_plain [of "n mod 10"] by (auto simp: dec_bytes.simps [of n])
  qed
qed

lemma dec_bytes_ne [simp]: "dec_bytes n \<noteq> []"
  by (simp add: dec_bytes.simps [of n])

lemma radix_value_dec: "radix_value 10 dec_val (dec_bytes n) 0 = Some n"
proof (induction n rule: dec_bytes.induct)
  case (1 n)
  show ?case
  proof (cases "n < 10")
    case True
    then show ?thesis using dec_val_digit [of n] by (simp add: dec_bytes.simps [of n] del: dec_val_digit)
  next
    case False
    then show ?thesis using 1 dec_val_digit [of "n mod 10"]
      by (simp add: dec_bytes.simps [of n] radix_value_append del: dec_val_digit)
  qed
qed

lemma parse_u64_dec: "n < 2 ^ 64 \<Longrightarrow> parse_u64 (dec_bytes n) = Some n"
proof -
  assume n: "n < 2 ^ 64"
  obtain b bs where bs: "dec_bytes n = b # bs" by (cases "dec_bytes n") auto
  then have "b \<noteq> 43" using dec_bytes_plain [of b n] by simp
  with bs have "strip_plus (dec_bytes n) = Some (dec_bytes n)" by (simp add: strip_plus_def)
  then show ?thesis using n by (simp add: parse_u64_def radix_value_dec)
qed

section \<open>What a writer leaves behind\<close>

text \<open>A file as the writers produce it: records, and a sync marker at its own offset after each sync.\<close>

datatype FileItem = Record bytes | SyncMark

fun item_line :: "(bytes \<Rightarrow> u32) \<Rightarrow> FormatTag \<Rightarrow> nat \<Rightarrow> FileItem \<Rightarrow> bytes" where
  "item_line crc tag pos (Record p) = encode_line crc tag p"
| "item_line crc tag pos SyncMark = encode_sync_marker crc tag pos"

fun write_items :: "(bytes \<Rightarrow> u32) \<Rightarrow> FormatTag \<Rightarrow> nat \<Rightarrow> FileItem list \<Rightarrow> bytes" where
  "write_items crc tag pos [] = []"
| "write_items crc tag pos (x # xs) =
     item_line crc tag pos x @ write_items crc tag (pos + length (item_line crc tag pos x)) xs"

fun records :: "FileItem list \<Rightarrow> bytes list" where
  "records [] = []"
| "records (Record p # xs) = p # records xs"
| "records (SyncMark # xs) = records xs"

text \<open>A tag of the sources: four magic bytes and a version with sync markers; a record payload is one line
  of JSON, which begins neither with the marker prefix nor contains a line break.\<close>

definition tag_ok :: "FormatTag \<Rightarrow> bool" where
  "tag_ok tag \<longleftrightarrow> length (magic tag) = 4 \<and> NL \<notin> set (magic tag) \<and> SYNC_MARKER_MIN_VERSION \<le> tag_version tag"

fun item_ok :: "FileItem \<Rightarrow> bool" where
  "item_ok (Record p) = (NL \<notin> set p \<and> take 6 p \<noteq> SYNC_MARKER_PREFIX)"
| "item_ok SyncMark = True"

lemma frame_body_encoded:
  assumes "6 \<le> length body"
  shows "frame_body crc (hex_bytes 8 (unat (crc body)) @ COLON # body) = Some body"
proof -
  let ?h = "hex_bytes 8 (unat (crc body))"
  have plain: "\<forall>b \<in> set ?h. b \<noteq> COLON" using hex_bytes_plain by blast
  then have t: "takeWhile (\<lambda>b. b \<noteq> COLON) (?h @ COLON # body) = ?h"
    and d: "dropWhile (\<lambda>b. b \<noteq> COLON) (?h @ COLON # body) = COLON # body" by simp_all
  have "unat (crc body) < 16 ^ 8" using unsigned_less [of "crc body"] by simp
  then have "from_str_radix16 ?h = Some (unat (crc body))" by (simp add: from_str_radix16_hex)
  then show ?thesis using assms unfolding frame_body_def t d Let_def by simp
qed

lemma version_bytes: "from_str_radix16 (hex_bytes 2 (unat (v :: u8))) = Some (unat v)"
proof -
  have "unat v < 16 ^ 2" using unsigned_less [of v] by simp
  then show ?thesis by (simp add: from_str_radix16_hex)
qed

lemma version_facts:
  assumes "tag_ok tag"
  shows "unat (tag_version tag) \<noteq> 0" "2 \<le> unat (tag_version tag)"
  using assms by (auto simp: tag_ok_def SYNC_MARKER_MIN_VERSION_def word_le_nat_alt)

text \<open>What one well-formed line does to the scan, before and after a bad line.\<close>

definition apply_item :: "FormatTag \<Rightarrow> nat \<Rightarrow> FileItem \<Rightarrow> Scan \<Rightarrow> Scan" where
  "apply_item tag pos x st =
     (case x of
        Record p \<Rightarrow> (if first_bad st = None then st\<lparr>sc_lines := sc_lines st @ [(tag_version tag, p)]\<rparr> else st)
      | SyncMark \<Rightarrow> st\<lparr>durable_to := Some pos\<rparr>)"

definition item_payload :: "nat \<Rightarrow> FileItem \<Rightarrow> bytes" where
  "item_payload pos x = (case x of Record p \<Rightarrow> p | SyncMark \<Rightarrow> SYNC_MARKER_PREFIX @ dec_bytes pos)"

lemma item_line_payload: "item_line crc tag pos x = encode_line crc tag (item_payload pos x)"
  by (cases x) (simp_all add: item_payload_def encode_sync_marker_def)

lemma scan_marker_item:
  assumes "item_ok x" and "pos < 2 ^ 64"
  shows "scan_marker tag pos (item_payload pos x) st =
    Inr (case x of Record p \<Rightarrow> None | SyncMark \<Rightarrow> Some (st\<lparr>durable_to := Some pos\<rparr>))"
proof (cases x)
  case (Record p)
  then show ?thesis using assms by (simp add: scan_marker_def parse_marker_def item_payload_def)
next
  case SyncMark
  have "length SYNC_MARKER_PREFIX = 6" by (simp add: SYNC_MARKER_PREFIX_def)
  then show ?thesis using SyncMark assms(2)
    by (simp add: scan_marker_def parse_marker_def item_payload_def parse_u64_dec check_marker_def)
qed

lemma scan_line_item:
  assumes "tag_ok tag" and "item_ok x" and "pos < 2 ^ 64"
  shows "scan_line crc tag pos (butlast (item_line crc tag pos x)) st = Inr (apply_item tag pos x st)"
proof -
  let ?p = "item_payload pos x"
  let ?body = "magic tag @ hex_bytes 2 (unat (tag_version tag)) @ ?p"
  have len: "length (magic tag) = 4" using assms(1) by (simp add: tag_ok_def)
  have b: "butlast (item_line crc tag pos x) = hex_bytes 8 (unat (crc ?body)) @ COLON # ?body"
    by (simp add: item_line_payload encode_line_def Let_def butlast_append)
  have f: "frame_body crc (butlast (item_line crc tag pos x)) = Some ?body"
    unfolding b by (rule frame_body_encoded) (simp add: len)
  have ne: "butlast (item_line crc tag pos x) \<noteq> []" unfolding b by simp
  have parts: "take 4 ?body = magic tag" "take 2 (drop 4 ?body) = hex_bytes 2 (unat (tag_version tag))" "drop 6 ?body = ?p"
    by (simp_all add: len)
  have ver: "body_version tag ?body = Inr (tag_version tag)"
    unfolding body_version_def parts version_bytes using version_facts(1) [OF assms(1)] by simp
  have min: "SYNC_MARKER_MIN_VERSION \<le> tag_version tag" "unat SYNC_MARKER_MIN_VERSION \<le> unat (tag_version tag)"
    using assms(1) by (simp_all add: tag_ok_def word_le_nat_alt)
  show ?thesis
  proof (cases "first_bad st")
    case None
    then show ?thesis
      unfolding scan_line_def f
      using ne ver min scan_marker_item [OF assms(2,3), of tag st] parts(3)
      by (cases x) (simp_all add: apply_item_def item_payload_def)
  next
    case (Some bad)
    then show ?thesis
      unfolding scan_line_def f
      using ne min scan_marker_item [OF assms(2,3), of tag st] parts version_bytes [of "tag_version tag"]
      by (cases x) (simp_all add: apply_item_def item_payload_def)
  qed
qed

lemma item_line_NL:
  assumes "tag_ok tag" and "item_ok x"
  shows "NL \<notin> set (butlast (item_line crc tag pos x))"
    and "item_line crc tag pos x = butlast (item_line crc tag pos x) @ [NL]"
proof -
  have "NL \<notin> set (item_payload pos x)"
    using assms(2) dec_bytes_plain by (cases x) (auto simp: item_payload_def SYNC_MARKER_PREFIX_def)
  then show "NL \<notin> set (butlast (item_line crc tag pos x))"
    using assms(1) hex_bytes_plain by (auto simp: item_line_payload encode_line_def Let_def butlast_append tag_ok_def)
  show "item_line crc tag pos x = butlast (item_line crc tag pos x) @ [NL]"
    by (simp add: item_line_payload encode_line_def Let_def butlast_append)
qed

lemma scan_lines_line:
  assumes "NL \<notin> set l"
  shows "scan_lines crc tag pos (l @ NL # t) st =
    (case scan_line crc tag pos l st of Inl e \<Rightarrow> Inl e | Inr st' \<Rightarrow> scan_lines crc tag (pos + Suc (length l)) t st')"
proof -
  have "takeWhile (\<lambda>b. b \<noteq> NL) (l @ NL # t) = l"
    using assms by (induction l) auto
  then show ?thesis by (subst scan_lines.simps) (simp split: sum.split)
qed

fun apply_items :: "(bytes \<Rightarrow> u32) \<Rightarrow> FormatTag \<Rightarrow> nat \<Rightarrow> FileItem list \<Rightarrow> Scan \<Rightarrow> Scan" where
  "apply_items crc tag pos [] st = st"
| "apply_items crc tag pos (x # xs) st =
     apply_items crc tag (pos + length (item_line crc tag pos x)) xs (apply_item tag pos x st)"

lemma scan_items:
  assumes "tag_ok tag" and "list_all item_ok xs" and "pos + length (write_items crc tag pos xs) < 2 ^ 64"
  shows "scan_lines crc tag pos (write_items crc tag pos xs @ t) st =
    scan_lines crc tag (pos + length (write_items crc tag pos xs)) t (apply_items crc tag pos xs st)"
  using assms
proof (induction xs arbitrary: pos st)
  case (Cons x xs)
  let ?l = "item_line crc tag pos x"
  have ok: "item_ok x" "list_all item_ok xs" using Cons.prems(2) by simp_all
  note nl = item_line_NL [OF Cons.prems(1) ok(1), of crc pos]
  have pos: "pos < 2 ^ 64" using Cons.prems(3) by simp
  have len: "Suc (length (butlast ?l)) = length ?l" by (metis nl(2) length_append_singleton)
  have "scan_lines crc tag pos (write_items crc tag pos (x # xs) @ t) st =
      scan_lines crc tag pos (butlast ?l @ NL # (write_items crc tag (pos + length ?l) xs @ t)) st"
    by (subst write_items.simps) (metis append.assoc append_Cons append_Nil nl(2))
  also have "\<dots> = scan_lines crc tag (pos + length ?l) (write_items crc tag (pos + length ?l) xs @ t) (apply_item tag pos x st)"
    unfolding scan_lines_line [OF nl(1)] scan_line_item [OF Cons.prems(1) ok(1) pos] len by simp
  also have "\<dots> = scan_lines crc tag (pos + length ?l + length (write_items crc tag (pos + length ?l) xs)) t
      (apply_items crc tag (pos + length ?l) xs (apply_item tag pos x st))"
    using Cons.prems ok by (intro Cons.IH) simp_all
  finally show ?case by (simp add: add.assoc)
qed simp

lemma apply_items_lines:
  "first_bad (apply_items crc tag pos xs st) = first_bad st"
  "sc_lines (apply_items crc tag pos xs st) =
     (if first_bad st = None then sc_lines st @ map (Pair (tag_version tag)) (records xs) else sc_lines st)"
  by (induction xs arbitrary: pos st) (auto simp: apply_item_def split: FileItem.splits)

lemma apply_items_durable:
  assumes "SyncMark \<in> set xs \<or> (\<exists>d. durable_to st = Some d \<and> lo \<le> d)" and "lo \<le> pos"
  shows "\<exists>d. durable_to (apply_items crc tag pos xs st) = Some d \<and> lo \<le> d"
  using assms
proof (induction xs arbitrary: pos st)
  case (Cons x xs)
  then show ?case
    by (cases x) (auto simp: apply_item_def intro!: Cons.IH)
qed simp

lemma apply_items_durable_le:
  assumes "\<forall>d. durable_to st = Some d \<longrightarrow> d \<le> pos"
  shows "\<forall>d. durable_to (apply_items crc tag pos xs st) = Some d \<longrightarrow> d \<le> pos + length (write_items crc tag pos xs)"
  using assms
proof (induction xs arbitrary: pos st)
  case (Cons x xs)
  let ?p = "pos + length (item_line crc tag pos x)"
  have "\<forall>d. durable_to (apply_item tag pos x st) = Some d \<longrightarrow> d \<le> ?p"
    using Cons.prems by (cases x) (auto simp: apply_item_def trans_le_add1)
  from Cons.IH [OF this] show ?case by (simp add: add.assoc)
qed simp

text \<open>A torn line is what a crash leaves of the last, unsynced append: no line break, and no valid frame.\<close>

definition torn_line :: "(bytes \<Rightarrow> u32) \<Rightarrow> bytes \<Rightarrow> bool" where
  "torn_line crc t \<longleftrightarrow> NL \<notin> set t \<and> (t = [] \<or> frame_body crc t = None)"

lemma scan_torn:
  assumes "torn_line crc t"
  shows "scan_lines crc tag pos t st =
    Inr (if t = [] then st else st\<lparr>first_bad := Some (case first_bad st of None \<Rightarrow> pos | Some b \<Rightarrow> b)\<rparr>)"
proof (cases "t = []")
  case True
  then show ?thesis by (subst scan_lines.simps) simp
next
  case False
  then have "frame_body crc t = None" "takeWhile (\<lambda>b. b \<noteq> NL) t = t"
    using assms by (auto simp: torn_line_def)
  then have "scan_line crc tag pos t st = Inr (st\<lparr>first_bad := Some (case first_bad st of None \<Rightarrow> pos | Some b \<Rightarrow> b)\<rparr>)"
    using False by (auto simp: scan_line_def split: option.splits)
  then show ?thesis
    using False unfolding scan_lines.simps [of crc tag pos t st] \<open>takeWhile (\<lambda>b. b \<noteq> NL) t = t\<close> Let_def
    by (simp add: scan_lines.simps [of _ _ _ "[]"])
qed

lemma write_items_last:
  assumes "write_items crc tag pos xs \<noteq> []"
  shows "last (write_items crc tag pos xs) = NL"
  using assms
proof (induction xs arbitrary: pos)
  case (Cons x xs)
  have "last (item_line crc tag pos x) = NL" "item_line crc tag pos x \<noteq> []"
    by (simp_all add: item_line_payload encode_line_def Let_def)
  then show ?case using Cons.IH by (simp add: last_append)
qed simp

section \<open>Correctness of the log format\<close>

abbreviation scan_start :: Scan where
  "scan_start \<equiv> \<lparr>sc_lines = [], first_bad = None, durable_to = None\<rparr>"

text \<open>C34: A log file of any records and sync markers whose last append was torn by a crash decodes to exactly
  the records written, at the tag's version, and reports the length of the written part; and the repair of the
  file is exactly the written part (no repair when nothing was torn).\<close>

theorem torn_tail_recovered:
  assumes "tag_ok tag" and "list_all item_ok xs" and "length (write_items crc tag 0 xs) < 2 ^ 64" and "torn_line crc torn"
  shows "decode_lines_extent crc tag (write_items crc tag 0 xs @ torn) =
      Inr \<lparr>dl_lines = map (Pair (tag_version tag)) (records xs), valid_len = length (write_items crc tag 0 xs)\<rparr> \<and>
    repaired_image (write_items crc tag 0 xs @ torn) (length (write_items crc tag 0 xs)) =
      (if torn = [] then None else Some (write_items crc tag 0 xs))"
proof
  let ?w = "write_items crc tag 0 xs"
  let ?st = "apply_items crc tag 0 xs scan_start"
  have "\<forall>d. durable_to ?st = Some d \<longrightarrow> d \<le> length ?w"
    using apply_items_durable_le [of scan_start 0 crc tag xs] by simp
  then show "decode_lines_extent crc tag (?w @ torn) =
      Inr \<lparr>dl_lines = map (Pair (tag_version tag)) (records xs), valid_len = length ?w\<rparr>"
    using scan_items [OF assms(1,2), of 0 crc torn scan_start] assms(3) scan_torn [OF assms(4)]
    by (auto simp: decode_lines_extent_def apply_items_lines split: option.splits)
  show "repaired_image (?w @ torn) (length ?w) = (if torn = [] then None else Some ?w)"
    using write_items_last [of crc tag 0 xs] by (auto simp: repaired_image_def Let_def)
qed

text \<open>C35: A damaged line below a sync marker is not mistaken for a torn tail: whatever was written after the
  damage and however the file ends, the decode is the mid-file corruption error, at the offset of the damaged
  line and with a durable offset above it.\<close>

theorem damage_below_marker_refused:
  assumes "tag_ok tag" and "list_all item_ok xs" and "list_all item_ok ys" and "SyncMark \<in> set ys"
    and "bad \<noteq> []" and "NL \<notin> set bad" and "frame_body crc bad = None" and "torn_line crc torn"
    and "start = length (write_items crc tag 0 xs) + Suc (length bad)"
    and "start + length (write_items crc tag start ys) < 2 ^ 64"
  shows "\<exists>d. decode_lines_extent crc tag (write_items crc tag 0 xs @ bad @ NL # write_items crc tag start ys @ torn) =
      Inl (MidFileCorruption (tag_name tag) (length (write_items crc tag 0 xs)) d) \<and>
    length (write_items crc tag 0 xs) < d"
proof -
  let ?w = "write_items crc tag 0 xs"
  let ?st = "(apply_items crc tag 0 xs scan_start)\<lparr>first_bad := Some (length ?w)\<rparr>"
  have bad: "scan_line crc tag (length ?w) bad (apply_items crc tag 0 xs scan_start) = Inr ?st"
    using assms(5,7) by (simp add: scan_line_def apply_items_lines)
  have "scan_lines crc tag 0 (?w @ bad @ NL # write_items crc tag start ys @ torn) scan_start =
      scan_lines crc tag start (write_items crc tag start ys @ torn) ?st"
    using scan_items [OF assms(1,2), of 0 crc "bad @ NL # write_items crc tag start ys @ torn" scan_start] assms(9,10)
    by (simp add: scan_lines_line [OF assms(6)] bad)
  also have "\<dots> = scan_lines crc tag (start + length (write_items crc tag start ys)) torn (apply_items crc tag start ys ?st)"
    using assms by (intro scan_items) simp_all
  finally have scan: "scan_lines crc tag 0 (?w @ bad @ NL # write_items crc tag start ys @ torn) scan_start =
      scan_lines crc tag (start + length (write_items crc tag start ys)) torn (apply_items crc tag start ys ?st)" .
  obtain d where "durable_to (apply_items crc tag start ys ?st) = Some d" "start \<le> d"
    using apply_items_durable [of ys ?st start start crc tag] assms(4) by auto
  then show ?thesis
    using scan scan_torn [OF assms(8)] assms(9)
    by (auto simp: decode_lines_extent_def apply_items_lines)
qed

section \<open>Concrete files\<close>

definition sample_tag :: FormatTag where
  "sample_tag = \<lparr>magic = [67, 87, 76, 49], tag_version = 2, tag_name = ''control-wal''\<rparr>"

definition sample_crc :: "bytes \<Rightarrow> u32" where
  "sample_crc bs = foldr (\<lambda>b a. 31 * a + ucast b) bs 7"

definition sample_items :: "FileItem list" where
  "sample_items = [Record [123, 125], SyncMark, Record [91, 93]]"

lemma sample_length:
  "length (write_items sample_crc sample_tag 0 sample_items) = 60"
  "length (write_items sample_crc sample_tag 62 [SyncMark]) = 24"
  by (simp_all add: sample_items_def sample_tag_def item_line_payload item_payload_def encode_line_def Let_def
      length_hex_bytes SYNC_MARKER_PREFIX_def dec_bytes.simps)

theorem torn_tail_recovered_witness:
  "decode_lines_extent sample_crc sample_tag (write_items sample_crc sample_tag 0 sample_items @ [48, 49, 58, 123]) =
     Inr \<lparr>dl_lines = map (Pair (tag_version sample_tag)) (records sample_items),
          valid_len = length (write_items sample_crc sample_tag 0 sample_items)\<rparr>"
proof -
  have "tag_ok sample_tag" "list_all item_ok sample_items" by code_simp+
  moreover have "torn_line sample_crc [48, 49, 58, 123]"
    by (simp add: torn_line_def frame_body_def)
  ultimately show ?thesis
    using torn_tail_recovered [of sample_tag sample_items sample_crc "[48, 49, 58, 123]"] sample_length by simp
qed

theorem damage_below_marker_refused_witness:
  "\<exists>d. decode_lines_extent sample_crc sample_tag
      (write_items sample_crc sample_tag 0 sample_items @ [48] @ NL # write_items sample_crc sample_tag
         (length (write_items sample_crc sample_tag 0 sample_items) + 2) [SyncMark] @ []) =
    Inl (MidFileCorruption (tag_name sample_tag) (length (write_items sample_crc sample_tag 0 sample_items)) d)"
proof -
  have ok: "tag_ok sample_tag" "list_all item_ok sample_items" "list_all item_ok [SyncMark]" by code_simp+
  have t: "torn_line sample_crc []" "frame_body sample_crc [48] = None"
    by (simp_all add: torn_line_def frame_body_def)
  show ?thesis
    using damage_below_marker_refused [OF ok _ _ _ t(2,1) refl] sample_length by auto
qed

end
