(* ===== verification/Raft_State.thy ===== *)
theory Raft_State
  imports Raft_Wal
begin

text \<open>
  The state of the consensus core (\<^verbatim>\<open>crates/animus-control/src/raft.rs\<close>): its messages, its ~85 fields
  under the names of the source (\<open>node_id\<close> for \<^verbatim>\<open>id\<close>, \<open>rlog\<close> for \<^verbatim>\<open>log\<close>, \<open>term_start_index\<close> for the field
  \<^verbatim>\<open>first_term_index\<close>). Terms, indices, instants and
  durations (in nanoseconds) are natural numbers; the saturating additions of the source cap at
  \<open>u64_max\<close>, and no term or index is taken to reach it. A \<^verbatim>\<open>BTreeSet\<close> is a set, iterated in order by
  \<open>sorted_list_of_set\<close>; a \<^verbatim>\<open>BTreeMap\<close> is the ordered map of \<open>Ordered_Map\<close>. The trait \<^verbatim>\<open>StateMachine\<close>
  is the record \<open>StateMachine\<close>, passed to the operations that use it. The one index the source
  does not guard (\<^verbatim>\<open>self.log[offset]\<close> in \<^verbatim>\<open>apply\<close>) sets the flag \<open>panicked\<close> when it is out of range.
  Log lines (\<^verbatim>\<open>tracing\<close>) and \<^verbatim>\<open>debug_assert!\<close> are left out.
\<close>

section \<open>Constants and small records\<close>

definition u64_max :: nat where "u64_max = 2 ^ 64 - 1"
definition u32_max :: nat where "u32_max = 2 ^ 32 - 1"

definition sat_add :: "nat \<Rightarrow> nat \<Rightarrow> nat" where "sat_add a b = min (a + b) u64_max"
definition sat_mul :: "nat \<Rightarrow> nat \<Rightarrow> nat" where "sat_mul a b = min (a * b) u64_max"
definition sat_add32 :: "nat \<Rightarrow> nat \<Rightarrow> nat" where "sat_add32 a b = min (a + b) u32_max"

definition SNAPSHOT_CHUNK_BYTES :: nat where "SNAPSHOT_CHUNK_BYTES = 64 * 1024"
definition MAX_APPEND_ENTRIES_BATCH :: nat where "MAX_APPEND_ENTRIES_BATCH = 512"
definition INFLIGHT_RETRANSMIT_HEARTBEATS :: nat where "INFLIGHT_RETRANSMIT_HEARTBEATS = 4"
definition INFLIGHT_OVERLAP_MAX_ENTRIES :: nat where "INFLIGHT_OVERLAP_MAX_ENTRIES = 4"
definition SUSTAINED_HEALTH_ELECTION_TIMEOUTS :: nat where "SUSTAINED_HEALTH_ELECTION_TIMEOUTS = 20"
definition SNAPSHOT_ACK_RESEND_CAP :: nat where "SNAPSHOT_ACK_RESEND_CAP = 8"
definition SNAPSHOT_HEARTBEAT_BACKOFF_MAX_TICKS :: nat where "SNAPSHOT_HEARTBEAT_BACKOFF_MAX_TICKS = 32"
definition SNAPSHOT_OFFSET_REGRESSION_REBASE :: nat where "SNAPSHOT_OFFSET_REGRESSION_REBASE = 4"
definition DEPARTING_NOTICE_GIVE_UP :: nat where "DEPARTING_NOTICE_GIVE_UP = 300 * 10 ^ 9"
definition DEPARTING_QUIET_GIVE_UP :: nat where "DEPARTING_QUIET_GIVE_UP = 30 * 10 ^ 9"
definition CONFIG_HISTORY_CAPACITY :: nat where "CONFIG_HISTORY_CAPACITY = 64"

datatype SnapshotResend = Capped nat | Always | Backoff

record CampaignStats =
  rounds_started :: nat
  rounds_restarted :: nat
  grants_rx :: nat
  grants_rx_dropped_hold :: nat
  grants_rx_dropped_round :: nat
  refusals_rx :: nat
  pv_granted :: nat
  pv_refused_leader :: nat
  pv_refused_lease :: nat
  pv_refused_term_or_log :: nat
  pv_refused_unchecked :: nat
  rv_ignored_lease :: nat
  candidacies_conceded :: nat
  elections_started :: nat
  dropped_age_ns_sum :: nat
  dropped_age_ns_max :: nat
  counted_age_ns_sum :: nat
  dropped_window_ns_sum :: nat

definition campaign_stats_default :: CampaignStats where
  "campaign_stats_default = \<lparr>rounds_started = 0, rounds_restarted = 0, grants_rx = 0, grants_rx_dropped_hold = 0,
     grants_rx_dropped_round = 0, refusals_rx = 0, pv_granted = 0, pv_refused_leader = 0, pv_refused_lease = 0,
     pv_refused_term_or_log = 0, pv_refused_unchecked = 0, rv_ignored_lease = 0, candidacies_conceded = 0,
     elections_started = 0, dropped_age_ns_sum = 0, dropped_age_ns_max = 0, counted_age_ns_sum = 0,
     dropped_window_ns_sum = 0\<rparr>"

record RemovalStats =
  notices_sent :: nat
  notices_acked :: nat
  notices_ignored :: nat
  departing_dropped :: nat

definition removal_stats_default :: RemovalStats where
  "removal_stats_default = \<lparr>notices_sent = 0, notices_acked = 0, notices_ignored = 0, departing_dropped = 0\<rparr>"

text \<open>A log position ordered first by term, then by index.\<close>

type_synonym EntryStamp = "nat \<times> nat"

definition stamp_less :: "EntryStamp \<Rightarrow> EntryStamp \<Rightarrow> bool" where
  "stamp_less a b \<longleftrightarrow> fst a < fst b \<or> (fst a = fst b \<and> snd a < snd b)"

definition stamp_max :: "EntryStamp \<Rightarrow> EntryStamp \<Rightarrow> EntryStamp" where
  "stamp_max a b = (if stamp_less b a then a else b)"

record SnapshotSend =
  acked_offset :: "nat option"
  regressions :: nat
  last_sent :: "(nat \<times> nat) option"
  heartbeat_attempts :: "nat \<times> nat"
  offer_base :: nat

definition snapshot_send_default :: SnapshotSend where
  "snapshot_send_default = \<lparr>acked_offset = None, regressions = 0, last_sent = None, heartbeat_attempts = (0, 0), offer_base = 0\<rparr>"

definition restart_from :: "nat \<Rightarrow> SnapshotSend \<Rightarrow> SnapshotSend" where
  "restart_from offset r = r\<lparr>acked_offset := Some offset, regressions := 0, last_sent := None, heartbeat_attempts := (0, 0)\<rparr>"

record Departing =
  d_index :: nat
  d_term :: nat

record DepartingPeer =
  stamp :: Departing
  since :: "nat option"
  quiet :: bool
  sched :: "(nat \<times> nat) option"

definition departing_peer_new :: "Departing \<Rightarrow> DepartingPeer" where
  "departing_peer_new d = \<lparr>stamp = d, since = None, quiet = False, sched = None\<rparr>"

section \<open>Messages\<close>

datatype 'c RaftMsg =
    PreVote nat NodeId nat nat
  | PreVoteResp nat bool
  | RequestVote nat NodeId nat nat
  | RequestVoteResp nat bool
  | AppendEntries nat NodeId nat nat "'c LogEntry list" nat
  | AppendEntriesResp nat bool nat bool bool nat
  | InstallSnapshot nat NodeId nat nat nat bytes nat bool "NodeId set option" "NodeId set option"
  | InstallSnapshotResp nat nat nat
  | Heartbeat NodeId
  | TimeoutNow nat
  | Quiesce nat nat
  | WakeRequest nat
  | ClusterProbe
  | ClusterProbeResp nat nat "NodeId set" bool
  | Removed nat nat nat "NodeId set" "NodeId set"
  | RemovedAck nat nat

type_synonym 'c Out = "NodeId \<times> 'c RaftMsg"

datatype MsgClass = Vote | HeartbeatClass | Replicate | Bulk | Normal

fun transport_class :: "'c RaftMsg \<Rightarrow> MsgClass \<times> nat option" where
  "transport_class (PreVote _ _ _ _) = (Vote, None)"
| "transport_class (PreVoteResp _ _) = (Vote, None)"
| "transport_class (RequestVote _ _ _ _) = (Vote, None)"
| "transport_class (RequestVoteResp _ _) = (Vote, None)"
| "transport_class (TimeoutNow _) = (Vote, None)"
| "transport_class (AppendEntries _ _ _ _ es _) = (if es = [] then (HeartbeatClass, Some 0) else (Replicate, None))"
| "transport_class (AppendEntriesResp _ _ _ _ _ _) = (HeartbeatClass, None)"
| "transport_class (Heartbeat _) = (HeartbeatClass, None)"
| "transport_class (Quiesce _ _) = (HeartbeatClass, None)"
| "transport_class (WakeRequest _) = (HeartbeatClass, None)"
| "transport_class (Removed _ _ _ _ _) = (HeartbeatClass, None)"
| "transport_class (RemovedAck _ _) = (HeartbeatClass, None)"
| "transport_class (InstallSnapshot _ _ _ _ _ _ _ _ _ _) = (Bulk, None)"
| "transport_class (InstallSnapshotResp _ _ _) = (Normal, None)"
| "transport_class ClusterProbe = (Normal, None)"
| "transport_class (ClusterProbeResp _ _ _ _) = (Normal, None)"

fun msg_term :: "'c RaftMsg \<Rightarrow> nat" where
  "msg_term (PreVote t _ _ _) = t"
| "msg_term (PreVoteResp t _) = t"
| "msg_term (RequestVote t _ _ _) = t"
| "msg_term (RequestVoteResp t _) = t"
| "msg_term (AppendEntries t _ _ _ _ _) = t"
| "msg_term (AppendEntriesResp t _ _ _ _ _) = t"
| "msg_term (InstallSnapshot t _ _ _ _ _ _ _ _ _) = t"
| "msg_term (InstallSnapshotResp t _ _) = t"
| "msg_term (TimeoutNow t) = t"
| "msg_term (Quiesce t _) = t"
| "msg_term (Removed t _ _ _ _) = t"
| "msg_term (RemovedAck t _) = t"
| "msg_term (Heartbeat _) = 0"
| "msg_term (WakeRequest _) = 0"
| "msg_term ClusterProbe = 0"
| "msg_term (ClusterProbeResp _ _ _ _) = 0"

datatype Role = Follower | PreCandidate | Candidate | Leader

datatype MemberRole = Voter | Learner

datatype ProposeResult = Accepted nat nat | NotLeader "NodeId option" | Busy nat nat

record IncomingSnapshot =
  inc_last_index :: nat
  inc_last_term :: nat
  inc_total :: nat
  inc_buf :: bytes

datatype ClusterCheck = Idle | Pending "NodeId set" nat bool | Refused

definition blocks_voting :: "ClusterCheck \<Rightarrow> bool" where
  "blocks_voting c \<longleftrightarrow> c \<noteq> Idle"

section \<open>The state machine and the core\<close>

record ('c, 's) StateMachine =
  sm_default :: 's
  sm_apply :: "'c \<Rightarrow> 's \<Rightarrow> 's"
  sm_noop :: 'c
  DRIVER_APPLIED :: bool
  sm_to_vec :: "'s \<Rightarrow> bytes"
  sm_from_slice :: "bytes \<Rightarrow> 's option"

record ('c, 's) RaftCore =
  node_id :: NodeId
  peers :: "NodeId list"
  cluster_size :: nat
  config :: "NodeId set"
  initial_config :: "NodeId set"
  snapshot_config :: "NodeId set option"
  learners :: "NodeId set"
  initial_learners :: "NodeId set"
  snapshot_learners :: "NodeId set option"
  config_history :: "(NodeId set \<times> NodeId set) list"
  role :: Role
  current_term :: nat
  voted_for :: "NodeId option"
  vote_lease_lapsed :: bool
  rlog :: "'c LogEntry list"
  snapshot_index :: nat
  snapshot_term :: nat
  commit_index :: nat
  last_applied :: nat
  durable_index :: nat
  leader_id :: "NodeId option"
  last_leader_contact :: "(NodeId \<times> nat) option"
  lease_grace_until :: nat
  had_leader_contact :: bool
  pre_votes :: "NodeId set"
  votes :: "NodeId set"
  next_index :: "(NodeId, nat) bmap"
  inflight_sent :: "(NodeId, nat \<times> nat) bmap"
  match_index :: "(NodeId, nat) bmap"
  snapshot_served_through :: "(NodeId, nat) bmap"
  peer_check_pending :: "(NodeId, bool) bmap"
  peer_recovered_at :: "(NodeId, nat) bmap"
  peer_applied :: "(NodeId, nat \<times> nat) bmap"
  local_applied :: nat
  last_contact :: "(NodeId, nat) bmap"
  leader_since :: "nat option"
  elected_at_commit :: nat
  heard_from :: "NodeId set"
  transfer_target :: "NodeId option"
  transfer_deadline :: nat
  departing :: "(NodeId, DepartingPeer) bmap"
  removal_stats :: RemovalStats
  now_hint :: nat
  removed_by_leader :: "EntryStamp option"
  term_start_index :: nat
  snapshot_send :: "(NodeId, SnapshotSend) bmap"
  snapshot_chunk_advances :: "(NodeId, nat) bmap"
  incoming_snapshot :: "IncomingSnapshot option"
  election_base :: nat
  heartbeat_interval :: nat
  election_deadline :: nat
  heartbeat_deadline :: nat
  lag_stretch :: nat
  campaign_hold :: "nat option"
  campaign_stats :: CampaignStats
  round_started_at :: nat
  round_window_ns :: nat
  metadata :: 's
  applied :: "'c list"
  pending_apply :: "(nat \<times> nat \<times> 'c) list"
  pending :: "('c, 's) WalRecord list"
  persisted_hard :: "nat \<times> NodeId option"
  snapshot_dirty :: bool
  snapshot_blob :: "bytes option"
  snapshot_chunk_bytes :: nat
  pending_install :: "(nat \<times> bytes) option"
  snapshot_needed :: bool
  state_machine_behind :: bool
  storage_full :: bool
  last_installed_index :: "nat option"
  quiesce_after :: "nat option"
  quiesced :: bool
  last_activity :: nat
  quiesce_engine_caught_up :: bool
  quiesce_veto :: bool
  quiesce_veto_fresh_through :: nat
  cluster_check :: ClusterCheck
  group_label :: "string option"
  log_omits_base :: bool
  wal_records_install :: bool
  install_rewrite_owed :: bool
  panicked :: bool

end
