(* ===== verification/Raft_Ops.thy ===== *)
theory Raft_Ops
  imports Raft_State
begin

text \<open>
  The operations of the consensus core below its message handlers
  (\<^verbatim>\<open>crates/animus-control/src/raft.rs\<close>): construction and recovery, write-ahead-log capture, snapshots
  and compaction, configuration, timers, the log, the commit index and the application of committed
  entries.
\<close>

section \<open>Log positions\<close>

definition last_log_index :: "('c, 's) RaftCore \<Rightarrow> nat" where
  "last_log_index s = (if rlog s = [] then snapshot_index s else e_index (last (rlog s)))"

definition last_log_term :: "('c, 's) RaftCore \<Rightarrow> nat" where
  "last_log_term s = (if rlog s = [] then snapshot_term s else e_term (last (rlog s)))"

definition term_at :: "('c, 's) RaftCore \<Rightarrow> nat \<Rightarrow> nat" where
  "term_at s index =
     (if index = 0 then 0
      else if index = snapshot_index s then snapshot_term s
      else if index < snapshot_index s then 0
      else let off = index - snapshot_index s - 1
           in if off < length (rlog s) then e_term (rlog s ! off) else 0)"

definition majority :: "('c, 's) RaftCore \<Rightarrow> nat" where
  "majority s = cluster_size s div 2 + 1"

definition is_voter :: "('c, 's) RaftCore \<Rightarrow> bool" where
  "is_voter s \<longleftrightarrow> removed_by_leader s = None \<and> node_id s \<in> config s"

definition is_learner :: "('c, 's) RaftCore \<Rightarrow> bool" where
  "is_learner s \<longleftrightarrow> node_id s \<in> learners s"

definition is_leader :: "('c, 's) RaftCore \<Rightarrow> bool" where
  "is_leader s \<longleftrightarrow> role s = Leader"

definition first_term_index :: "('c, 's) RaftCore \<Rightarrow> nat option" where
  "first_term_index s = (if role s = Leader then Some (term_start_index s) else None)"

definition leader_since_instant :: "('c, 's) RaftCore \<Rightarrow> nat option" where
  "leader_since_instant s = (if role s = Leader then leader_since s else None)"

definition leader_within :: "('c, 's) RaftCore \<Rightarrow> nat \<Rightarrow> nat \<Rightarrow> NodeId option" where
  "leader_within s now max_age =
     (case last_leader_contact s of
        None \<Rightarrow> None
      | Some (i, seen_at) \<Rightarrow> if now - seen_at \<le> max_age then Some i else None)"

definition member_role :: "('c, 's) RaftCore \<Rightarrow> NodeId \<Rightarrow> MemberRole option" where
  "member_role s i = (if i \<in> config s then Some Voter else if i \<in> learners s then Some Learner else None)"

definition peer_match :: "('c, 's) RaftCore \<Rightarrow> NodeId \<Rightarrow> nat" where
  "peer_match s i = (case bm_get (match_index s) i of None \<Rightarrow> 0 | Some m \<Rightarrow> m)"

definition learner_caught_up :: "('c, 's) RaftCore \<Rightarrow> NodeId \<Rightarrow> nat \<Rightarrow> bool" where
  "learner_caught_up s i threshold \<longleftrightarrow>
     i \<in> learners s \<and> bm_get (peer_check_pending s) i = Some False \<and> commit_index s - peer_match s i \<le> threshold"

definition cannot_vote_yet :: "('c, 's) RaftCore \<Rightarrow> bool" where
  "cannot_vote_yet s \<longleftrightarrow> blocks_voting (cluster_check s) \<or> storage_full s"

section \<open>Timers\<close>

definition heartbeat_nanos :: "('c, 's) RaftCore \<Rightarrow> nat" where
  "heartbeat_nanos s = heartbeat_interval s"

definition stretched_base :: "('c, 's) RaftCore \<Rightarrow> nat" where
  "stretched_base s = sat_add (election_base s) (lag_stretch s)"

definition reset_election_timer :: "nat \<Rightarrow> nat \<Rightarrow> ('c, 's) RaftCore \<Rightarrow> ('c, 's) RaftCore" where
  "reset_election_timer now entropy s =
     (let base = stretched_base s; extra = (if base = 0 then 0 else entropy mod base)
      in s\<lparr>election_deadline := sat_add now (sat_add base extra), campaign_hold := None\<rparr>)"

definition set_timing :: "nat \<Rightarrow> nat \<Rightarrow> nat \<Rightarrow> nat \<Rightarrow> ('c, 's) RaftCore \<Rightarrow> bool \<times> ('c, 's) RaftCore" where
  "set_timing base heartbeat now entropy s =
     (if base = 0 \<or> heartbeat = 0 then (False, s)
      else if election_base s = base \<and> heartbeat_interval s = heartbeat then (False, s)
      else let s = s\<lparr>election_base := base, heartbeat_interval := heartbeat\<rparr>
           in if role s = Leader then
                let nxt = sat_add now (heartbeat_nanos s)
                in (True, if nxt < heartbeat_deadline s then s\<lparr>heartbeat_deadline := nxt\<rparr> else s)
              else (True, reset_election_timer now entropy s))"

definition set_lag_stretch :: "nat \<Rightarrow> ('c, 's) RaftCore \<Rightarrow> bool \<times> ('c, 's) RaftCore" where
  "set_lag_stretch stretch s =
     (if lag_stretch s = stretch then (False, s) else (True, s\<lparr>lag_stretch := stretch\<rparr>))"

definition next_deadline :: "('c, 's) RaftCore \<Rightarrow> nat option" where
  "next_deadline s =
     (if quiesced s then None
      else if role s = Leader then
        (case transfer_target s of
           Some _ \<Rightarrow> Some (min (heartbeat_deadline s) (transfer_deadline s))
         | None \<Rightarrow> Some (heartbeat_deadline s))
      else let election = (case campaign_hold s of
                             Some retry_at \<Rightarrow> max (election_deadline s) retry_at
                           | None \<Rightarrow> election_deadline s)
           in case cluster_check s of
                Pending _ resend_at _ \<Rightarrow> Some (min election resend_at)
              | Idle \<Rightarrow> Some election
              | Refused \<Rightarrow> Some election)"

definition arm_lease_grace :: "nat \<Rightarrow> ('c, 's) RaftCore \<Rightarrow> ('c, 's) RaftCore" where
  "arm_lease_grace now s =
     (if role s = Leader then s\<lparr>lease_grace_until := sat_add now (stretched_base s)\<rparr> else s)"

section \<open>Configuration\<close>

definition apply_config :: "NodeId set \<Rightarrow> NodeId set \<Rightarrow> ('c, 's) RaftCore \<Rightarrow> ('c, 's) RaftCore" where
  "apply_config voters lrn s =
     (let changed = (config s \<noteq> voters \<or> learners s \<noteq> lrn);
          s = s\<lparr>peers := filter (\<lambda>n. n \<noteq> node_id s) (sorted_list_of_set voters), cluster_size := card voters,
                config := voters, learners := lrn\<rparr>
      in if changed then
           s\<lparr>config_history := (if CONFIG_HISTORY_CAPACITY \<le> length (config_history s) then tl (config_history s)
                                else config_history s) @ [(config s, learners s)]\<rparr>
         else s)"

definition config_entry_upto :: "('c, 's) RaftCore \<Rightarrow> nat \<Rightarrow> 'c LogEntry option" where
  "config_entry_upto s index = find (\<lambda>e. e_index e \<le> index \<and> e_config e \<noteq> None) (rev (rlog s))"

definition config_at :: "('c, 's) RaftCore \<Rightarrow> nat \<Rightarrow> NodeId set" where
  "config_at s index =
     (case Option.bind (config_entry_upto s index) e_config of
        Some c \<Rightarrow> c
      | None \<Rightarrow> (case snapshot_config s of Some c \<Rightarrow> c | None \<Rightarrow> initial_config s))"

definition learners_at :: "('c, 's) RaftCore \<Rightarrow> nat \<Rightarrow> NodeId set" where
  "learners_at s index =
     (case Option.bind (config_entry_upto s index) e_learners of
        Some c \<Rightarrow> c
      | None \<Rightarrow> (case snapshot_learners s of Some c \<Rightarrow> c | None \<Rightarrow> initial_learners s))"

definition recompute_config :: "('c, 's) RaftCore \<Rightarrow> ('c, 's) RaftCore" where
  "recompute_config s = apply_config (config_at s (last_log_index s)) (learners_at s (last_log_index s)) s"

definition config_change_in_flight :: "('c, 's) RaftCore \<Rightarrow> bool" where
  "config_change_in_flight s \<longleftrightarrow> (\<exists>e \<in> set (rlog s). e_config e \<noteq> None \<and> commit_index s < e_index e)"

section \<open>Construction, recovery and the write-ahead log\<close>

definition core_init :: "('c, 's) StateMachine \<Rightarrow> NodeId \<Rightarrow> NodeId list \<Rightarrow> nat \<Rightarrow> ('c, 's) RaftCore" where
  "core_init sm i all_nodes now = \<lparr>
     node_id = i, peers = filter (\<lambda>n. n \<noteq> i) all_nodes, cluster_size = length all_nodes,
     config = set all_nodes, initial_config = set all_nodes, snapshot_config = None,
     learners = {}, initial_learners = {}, snapshot_learners = None, config_history = [],
     role = Follower, current_term = 0, voted_for = None, vote_lease_lapsed = False,
     rlog = [], snapshot_index = 0, snapshot_term = 0, commit_index = 0, last_applied = 0, durable_index = 0,
     leader_id = None, last_leader_contact = None, lease_grace_until = 0, had_leader_contact = False,
     pre_votes = {}, votes = {}, next_index = [], inflight_sent = [], match_index = [],
     snapshot_served_through = [], peer_check_pending = [], peer_recovered_at = [], peer_applied = [],
     local_applied = 0, last_contact = [], leader_since = None, elected_at_commit = 0, heard_from = {},
     transfer_target = None, transfer_deadline = 0, departing = [], removal_stats = removal_stats_default,
     now_hint = 0, removed_by_leader = None, term_start_index = 0, snapshot_send = [],
     snapshot_chunk_advances = [], incoming_snapshot = None,
     election_base = 150 * 10 ^ 6, heartbeat_interval = 50 * 10 ^ 6, election_deadline = 0, heartbeat_deadline = 0,
     lag_stretch = 0, campaign_hold = None, campaign_stats = campaign_stats_default,
     round_started_at = 0, round_window_ns = 0,
     metadata = sm_default sm, applied = [], pending_apply = [], pending = [], persisted_hard = (0, None),
     snapshot_dirty = False, snapshot_blob = None, snapshot_chunk_bytes = SNAPSHOT_CHUNK_BYTES,
     pending_install = None, snapshot_needed = False, state_machine_behind = False, storage_full = False,
     last_installed_index = None, quiesce_after = None, quiesced = False, last_activity = now,
     quiesce_engine_caught_up = True, quiesce_veto = False, quiesce_veto_fresh_through = u64_max,
     cluster_check = Idle, group_label = None, log_omits_base = False, wal_records_install = False,
     install_rewrite_owed = False, panicked = False\<rparr>"

definition core_new :: "('c, 's) StateMachine \<Rightarrow> NodeId \<Rightarrow> NodeId list \<Rightarrow> nat \<Rightarrow> nat \<Rightarrow> ('c, 's) RaftCore" where
  "core_new sm i all_nodes now entropy = reset_election_timer now entropy (core_init sm i all_nodes now)"

definition recovered ::
  "('c, 's) StateMachine \<Rightarrow> NodeId \<Rightarrow> NodeId list \<Rightarrow> ('c, 's) PersistedState \<Rightarrow> nat \<Rightarrow> nat \<Rightarrow> ('c, 's) RaftCore" where
  "recovered sm i all_nodes p now entropy =
     (let s = core_new sm i all_nodes now entropy;
          s = s\<lparr>current_term := p_term p, voted_for := p_voted_for p, rlog := p_log p\<rparr>;
          s = (case p_snapshot p of
                 None \<Rightarrow> s
               | Some (m, li, lt) \<Rightarrow>
                   let s = s\<lparr>metadata := m, snapshot_index := li, snapshot_term := lt, last_applied := li, commit_index := li\<rparr>
                   in if \<not> DRIVER_APPLIED sm then s\<lparr>snapshot_blob := Some (wrap CONTROL_SNAPSHOT (sm_to_vec sm m))\<rparr> else s);
          s = s\<lparr>snapshot_config := p_snapshot_config p, snapshot_learners := p_snapshot_learners p\<rparr>;
          s = recompute_config s;
          s = s\<lparr>durable_index := last_log_index s\<rparr>
      in s\<lparr>persisted_hard := (current_term s, voted_for s), pending := []\<rparr>)"

definition set_log_omits_base :: "bool \<Rightarrow> ('c, 's) RaftCore \<Rightarrow> ('c, 's) RaftCore" where
  "set_log_omits_base b s = s\<lparr>log_omits_base := b\<rparr>"

definition set_wal_records_install :: "bool \<Rightarrow> ('c, 's) RaftCore \<Rightarrow> ('c, 's) RaftCore" where
  "set_wal_records_install b s = s\<lparr>wal_records_install := b\<rparr>"

definition checkpoint_hard :: "('c, 's) RaftCore \<Rightarrow> ('c, 's) RaftCore" where
  "checkpoint_hard s =
     (let hard = (current_term s, voted_for s)
      in if hard \<noteq> persisted_hard s
         then s\<lparr>persisted_hard := hard, pending := pending s @ [Hard (fst hard) (snd hard)]\<rparr>
         else s)"

definition drain_persist :: "('c, 's) RaftCore \<Rightarrow> ('c, 's) WalRecord list \<times> ('c, 's) RaftCore" where
  "drain_persist s = (let s = checkpoint_hard s in (pending s, s\<lparr>pending := []\<rparr>))"

definition has_unflushed_wal :: "('c, 's) RaftCore \<Rightarrow> bool" where
  "has_unflushed_wal s \<longleftrightarrow> pending s \<noteq> [] \<or> (current_term s, voted_for s) \<noteq> persisted_hard s"

definition wal_image :: "('c, 's) RaftCore \<Rightarrow> ('c, 's) WalRecord list" where
  "wal_image s =
     (if 0 < snapshot_index s
      then [Snapshot (metadata s) (snapshot_index s) (snapshot_term s) (snapshot_config s) (snapshot_learners s)] else []) @
     [Hard (current_term s) (voted_for s)] @ map Append (rlog s)"

section \<open>Snapshots and compaction\<close>

definition snapshot_upto :: "('c, 's) StateMachine \<Rightarrow> nat \<Rightarrow> ('c, 's) RaftCore \<Rightarrow> ('c, 's) RaftCore" where
  "snapshot_upto sm index s =
     (let new_index = min index (last_applied s)
      in if new_index \<le> snapshot_index s then s
         else
           let new_term = term_at s new_index;
               s = s\<lparr>snapshot_config := Some (config_at s new_index)\<rparr>;
               s = s\<lparr>snapshot_learners := Some (learners_at s new_index)\<rparr>;
               s = s\<lparr>rlog := filter (\<lambda>e. new_index < e_index e) (rlog s)\<rparr>;
               covered = length (applied s) - (last_applied s - new_index);
               s = s\<lparr>applied := drop covered (applied s), snapshot_index := new_index, snapshot_term := new_term,
                     snapshot_dirty := True\<rparr>
           in if \<not> DRIVER_APPLIED sm
              then s\<lparr>snapshot_blob := Some (wrap CONTROL_SNAPSHOT (sm_to_vec sm (metadata s)))\<rparr>
              else s\<lparr>snapshot_blob := None, snapshot_send := []\<rparr>)"

definition snapshot :: "('c, 's) StateMachine \<Rightarrow> ('c, 's) RaftCore \<Rightarrow> ('c, 's) RaftCore" where
  "snapshot sm s = snapshot_upto sm (last_applied s) s"

definition take_snapshot_dirty :: "('c, 's) RaftCore \<Rightarrow> bool \<times> ('c, 's) RaftCore" where
  "take_snapshot_dirty s = (snapshot_dirty s, s\<lparr>install_rewrite_owed := False, snapshot_dirty := False\<rparr>)"

definition set_snapshot_chunk_bytes :: "nat \<Rightarrow> ('c, 's) RaftCore \<Rightarrow> ('c, 's) RaftCore" where
  "set_snapshot_chunk_bytes n s = s\<lparr>snapshot_chunk_bytes := max n 1\<rparr>"

definition set_snapshot_blob :: "bytes \<Rightarrow> ('c, 's) RaftCore \<Rightarrow> ('c, 's) RaftCore" where
  "set_snapshot_blob bs s = s\<lparr>snapshot_blob := Some bs\<rparr>"

definition take_snapshot_needed :: "('c, 's) RaftCore \<Rightarrow> bool \<times> ('c, 's) RaftCore" where
  "take_snapshot_needed s = (snapshot_needed s, s\<lparr>snapshot_needed := False\<rparr>)"

definition drain_apply :: "('c, 's) RaftCore \<Rightarrow> (nat \<times> nat \<times> 'c) list \<times> ('c, 's) RaftCore" where
  "drain_apply s = (pending_apply s, s\<lparr>pending_apply := []\<rparr>)"

definition drain_pending_install :: "('c, 's) RaftCore \<Rightarrow> (nat \<times> bytes) option \<times> ('c, 's) RaftCore" where
  "drain_pending_install s = (pending_install s, s\<lparr>pending_install := None\<rparr>)"

definition has_pending_install :: "('c, 's) RaftCore \<Rightarrow> bool" where
  "has_pending_install s \<longleftrightarrow> pending_install s \<noteq> None"

definition snapshot_transfer_in_flight :: "('c, 's) RaftCore \<Rightarrow> bool" where
  "snapshot_transfer_in_flight s \<longleftrightarrow> snapshot_send s \<noteq> []"

definition snapshot_transfer_peers :: "('c, 's) RaftCore \<Rightarrow> NodeId set" where
  "snapshot_transfer_peers s = fst ` set (snapshot_send s)"

definition snapshot_chunk_progress :: "('c, 's) RaftCore \<Rightarrow> NodeId \<Rightarrow> nat option" where
  "snapshot_chunk_progress s peer = Option.bind (bm_get (snapshot_send s) peer) acked_offset"

definition chunk_advances_of :: "('c, 's) RaftCore \<Rightarrow> NodeId \<Rightarrow> nat" where
  "chunk_advances_of s peer = (case bm_get (snapshot_chunk_advances s) peer of None \<Rightarrow> 0 | Some n \<Rightarrow> n)"

text \<open>The lowest index a compaction must keep for the peers that are still worth serving from the log.\<close>

definition compaction_floor :: "nat \<Rightarrow> ('c, 's) RaftCore \<Rightarrow> nat option" where
  "compaction_floor cap s =
     (if role s \<noteq> Leader then None
      else fold (\<lambda>peer floor.
             let known = peer_match s peer;
                 matched = (if known = 0 then elected_at_commit s else known)
             in if last_log_index s - matched > cap then floor
                else Some (case floor of None \<Rightarrow> matched | Some f \<Rightarrow> min f matched))
           (peers s) None)"

definition forget_snapshot_transfer :: "('c, 's) StateMachine \<Rightarrow> NodeId \<Rightarrow> ('c, 's) RaftCore \<Rightarrow> ('c, 's) RaftCore" where
  "forget_snapshot_transfer sm peer s =
     (let s = s\<lparr>snapshot_send := bm_remove peer (snapshot_send s)\<rparr>
      in if DRIVER_APPLIED sm \<and> snapshot_send s = [] then s\<lparr>snapshot_blob := None\<rparr> else s)"

section \<open>Peer progress and departing peers\<close>

definition clear_peer_progress :: "('c, 's) StateMachine \<Rightarrow> NodeId \<Rightarrow> ('c, 's) RaftCore \<Rightarrow> ('c, 's) RaftCore" where
  "clear_peer_progress sm n s =
     forget_snapshot_transfer sm n
       (s\<lparr>inflight_sent := bm_remove n (inflight_sent s), next_index := bm_remove n (next_index s),
          match_index := bm_remove n (match_index s), last_contact := bm_remove n (last_contact s),
          snapshot_served_through := bm_remove n (snapshot_served_through s),
          peer_check_pending := bm_remove n (peer_check_pending s),
          peer_recovered_at := bm_remove n (peer_recovered_at s), peer_applied := bm_remove n (peer_applied s)\<rparr>)"

definition start_peer_progress :: "('c, 's) StateMachine \<Rightarrow> nat \<Rightarrow> NodeId \<Rightarrow> ('c, 's) RaftCore \<Rightarrow> ('c, 's) RaftCore" where
  "start_peer_progress sm entry_index n s =
     forget_snapshot_transfer sm n
       (s\<lparr>inflight_sent := bm_remove n (inflight_sent s), next_index := bm_insert n entry_index (next_index s),
          match_index := bm_insert n 0 (match_index s),
          snapshot_served_through := bm_remove n (snapshot_served_through s),
          peer_check_pending := bm_remove n (peer_check_pending s),
          peer_recovered_at := bm_remove n (peer_recovered_at s), peer_applied := bm_remove n (peer_applied s)\<rparr>)"

definition reset_peer_progress_on_membership_change ::
  "('c, 's) StateMachine \<Rightarrow> NodeId set \<Rightarrow> nat \<Rightarrow> ('c, 's) RaftCore \<Rightarrow> ('c, 's) RaftCore" where
  "reset_peer_progress_on_membership_change sm old_members entry_index s =
     (let now_members = set (peers s) \<union> learners s;
          s = fold (start_peer_progress sm entry_index) (sorted_list_of_set (now_members - old_members)) s
      in fold (\<lambda>n s. if bm_contains (departing s) n then s else clear_peer_progress sm n s)
           (sorted_list_of_set (old_members - now_members)) s)"

definition drop_departing :: "('c, 's) StateMachine \<Rightarrow> NodeId \<Rightarrow> ('c, 's) RaftCore \<Rightarrow> ('c, 's) RaftCore" where
  "drop_departing sm peer s =
     (let s = (if bm_contains (departing s) peer
               then s\<lparr>departing := bm_remove peer (departing s),
                      removal_stats := (removal_stats s)\<lparr>departing_dropped := departing_dropped (removal_stats s) + 1\<rparr>\<rparr>
               else s)
      in clear_peer_progress sm peer s)"

definition note_departing_reply :: "NodeId \<Rightarrow> nat \<Rightarrow> ('c, 's) RaftCore \<Rightarrow> ('c, 's) RaftCore" where
  "note_departing_reply peer now s =
     (case bm_get (departing s) peer of
        None \<Rightarrow> s
      | Some d \<Rightarrow> s\<lparr>departing := bm_insert peer (d\<lparr>since := Some now, sched := None\<rparr>) (departing s)\<rparr>)"

section \<open>The log\<close>

definition includes_self :: "('c, 's) RaftCore \<Rightarrow> NodeId set \<Rightarrow> NodeId set option \<Rightarrow> bool" where
  "includes_self s voters lrn \<longleftrightarrow>
     node_id s \<in> voters \<or> (case lrn of None \<Rightarrow> False | Some l \<Rightarrow> node_id s \<in> l)"

definition latest_self_membership_stamp :: "('c, 's) RaftCore \<Rightarrow> EntryStamp option" where
  "latest_self_membership_stamp s =
     (case find (\<lambda>e. case e_config e of None \<Rightarrow> False | Some c \<Rightarrow> includes_self s c (e_learners e)) (rev (rlog s)) of
        Some e \<Rightarrow> Some (e_term e, e_index e)
      | None \<Rightarrow>
          (case snapshot_config s of
             Some c \<Rightarrow> if includes_self s c (snapshot_learners s) then Some (snapshot_term s, snapshot_index s) else None
           | None \<Rightarrow> if includes_self s (initial_config s) (Some (initial_learners s)) then Some (0, 0) else None))"

definition refresh_removed_flag :: "('c, 's) RaftCore \<Rightarrow> ('c, 's) RaftCore" where
  "refresh_removed_flag s =
     (case (removed_by_leader s, latest_self_membership_stamp s) of
        (Some removal, Some member) \<Rightarrow> if stamp_less removal member then s\<lparr>removed_by_leader := None\<rparr> else s
      | _ \<Rightarrow> s)"

definition depart_removed_peers :: "NodeId list \<Rightarrow> 'c LogEntry \<Rightarrow> ('c, 's) RaftCore \<Rightarrow> ('c, 's) RaftCore" where
  "depart_removed_peers old_peers e s =
     (if role s = Leader then
        s\<lparr>departing := fold (\<lambda>n d. if n \<in> learners s then d
                                    else bm_insert n (departing_peer_new \<lparr>d_index = e_index e, d_term = e_term e\<rparr>) d)
                       (filter (\<lambda>n. n \<notin> set (peers s)) old_peers) (departing s)\<rparr>
      else s)"

definition adopt_config :: "('c, 's) StateMachine \<Rightarrow> 'c LogEntry \<Rightarrow> NodeId set \<Rightarrow> ('c, 's) RaftCore \<Rightarrow> ('c, 's) RaftCore" where
  "adopt_config sm e voters s =
     (let old_peers = peers s; old_members = set old_peers \<union> learners s;
          lrn = (case e_learners e of None \<Rightarrow> learners s | Some l \<Rightarrow> l);
          s = apply_config voters lrn s;
          s = depart_removed_peers old_peers e s;
          s = s\<lparr>departing := filter (\<lambda>(n, _). n \<notin> set (peers s) \<and> n \<notin> learners s) (departing s)\<rparr>
      in if role s = Leader then reset_peer_progress_on_membership_change sm old_members (e_index e) s else s)"

definition log_append :: "('c, 's) StateMachine \<Rightarrow> 'c LogEntry \<Rightarrow> ('c, 's) RaftCore \<Rightarrow> ('c, 's) RaftCore" where
  "log_append sm e s =
     (let s = (case e_config e of None \<Rightarrow> s | Some voters \<Rightarrow> adopt_config sm e voters s);
          s = s\<lparr>pending := pending s @ [Append e], rlog := rlog s @ [e]\<rparr>
      in if e_config e \<noteq> None then refresh_removed_flag s else s)"

definition log_truncate :: "nat \<Rightarrow> ('c, 's) RaftCore \<Rightarrow> ('c, 's) RaftCore" where
  "log_truncate keep s =
     (let s = s\<lparr>rlog := take keep (rlog s)\<rparr>;
          s = s\<lparr>durable_index := min (durable_index s) (last_log_index s)\<rparr>;
          s = s\<lparr>pending := pending s @ [Truncate keep]\<rparr>
      in recompute_config s)"

section \<open>Commit and application\<close>

text \<open>The downward search of the commit index.\<close>

fun commit_search :: "('c, 's) RaftCore \<Rightarrow> nat \<Rightarrow> nat" where
  "commit_search s n =
     (if commit_index s < n then
        if term_at s n = current_term s \<and>
           majority s \<le> 1 + length (filter (\<lambda>p. n \<le> peer_match s p) (peers s))
        then n else commit_search s (n - 1)
      else commit_index s)"

declare commit_search.simps [simp del]

definition maybe_advance_commit :: "('c, 's) RaftCore \<Rightarrow> ('c, 's) RaftCore" where
  "maybe_advance_commit s = s\<lparr>commit_index := commit_search s (last_log_index s)\<rparr>"

definition apply_entry :: "('c, 's) StateMachine \<Rightarrow> ('c, 's) RaftCore \<Rightarrow> ('c, 's) RaftCore" where
  "apply_entry sm s =
     (let la = last_applied s + 1; s = s\<lparr>last_applied := la\<rparr>
      in if snapshot_index s < la \<and> la - snapshot_index s - 1 < length (rlog s) then
           let e = rlog s ! (la - snapshot_index s - 1)
           in if DRIVER_APPLIED sm then s\<lparr>pending_apply := pending_apply s @ [(la, e_term e, e_command e)]\<rparr>
              else s\<lparr>metadata := sm_apply sm (e_command e) (metadata s), applied := applied s @ [e_command e]\<rparr>
         else s\<lparr>panicked := True\<rparr>)"

text \<open>The loop of \<^verbatim>\<open>apply\<close>: it runs from the applied index to the frontier, and stops at a panic.\<close>

function apply_to :: "('c, 's) StateMachine \<Rightarrow> nat \<Rightarrow> ('c, 's) RaftCore \<Rightarrow> ('c, 's) RaftCore" where
  "apply_to sm frontier s =
     (if last_applied s < frontier \<and> \<not> panicked s then apply_to sm frontier (apply_entry sm s) else s)"
  by pat_completeness auto
termination
  by (relation "measure (\<lambda>(sm, f, s). f - last_applied s)") (auto simp: apply_entry_def Let_def)

declare apply_to.simps [simp del]

definition apply_committed :: "('c, 's) StateMachine \<Rightarrow> ('c, 's) RaftCore \<Rightarrow> ('c, 's) RaftCore" where
  "apply_committed sm s =
     apply_to sm (if role s = Leader then min (commit_index s) (durable_index s) else commit_index s) s"

definition mark_durable_through :: "('c, 's) StateMachine \<Rightarrow> nat \<Rightarrow> ('c, 's) RaftCore \<Rightarrow> ('c, 's) RaftCore" where
  "mark_durable_through sm index s =
     (if durable_index s < index then apply_committed sm (s\<lparr>durable_index := index\<rparr>) else s)"

end
