(* ===== verification/Raft_Send.thy ===== *)
theory Raft_Send
  imports Raft_Ops
begin

text \<open>
  The sending side of the consensus core (\<^verbatim>\<open>crates/animus-control/src/raft.rs\<close>): leases, removal notices,
  snapshot chunks, replication to a peer, broadcasts, quiescence, campaigns and leadership. An
  operation returns its outbound messages with the new state.
\<close>

section \<open>Leases and health\<close>

definition leader_lease :: "nat \<Rightarrow> ('c, 's) RaftCore \<Rightarrow> bool" where
  "leader_lease now s \<longleftrightarrow>
     role s = Leader \<and>
     (quiesced s \<or> now < lease_grace_until s \<or>
      majority s \<le> length (filter (\<lambda>p. case bm_get (last_contact s) p of None \<Rightarrow> False
                                        | Some seen \<Rightarrow> now - seen \<le> stretched_base s) (peers s))
                  + (if is_voter s then 1 else 0))"

definition live_leader :: "nat \<Rightarrow> ('c, 's) RaftCore \<Rightarrow> bool" where
  "live_leader now s \<longleftrightarrow> role s = Leader \<or> (leader_id s \<noteq> None \<and> now < election_deadline s)"

definition healthy_followers :: "nat \<Rightarrow> ('c, 's) RaftCore \<Rightarrow> NodeId list" where
  "healthy_followers now s =
     (if role s \<noteq> Leader then []
      else filter (\<lambda>n. n \<noteq> node_id s
             \<and> bm_get (peer_check_pending s) n = Some False
             \<and> (case bm_get (last_contact s) n of None \<Rightarrow> False | Some seen \<Rightarrow> now - seen \<le> election_base s)
             \<and> (case bm_get (peer_recovered_at s) n of None \<Rightarrow> True
                | Some seen \<Rightarrow> election_base s * SUSTAINED_HEALTH_ELECTION_TIMEOUTS \<le> now - seen))
           (sorted_list_of_set (config s)))"

definition transfer_leadership :: "NodeId \<Rightarrow> nat \<Rightarrow> ('c, 's) RaftCore \<Rightarrow> bool \<times> ('c, 's) RaftCore" where
  "transfer_leadership target now s =
     (if role s \<noteq> Leader \<or> target = node_id s \<or> target \<notin> config s \<or> config_change_in_flight s
         \<or> peer_match s target < commit_index s then (False, s)
      else if bm_get (peer_check_pending s) target = Some True then (False, s)
      else if storage_full s \<and> length (healthy_followers now s) < majority s then (False, s)
      else
        let s = (if transfer_target s \<noteq> Some target
                 then s\<lparr>transfer_target := Some target, transfer_deadline := sat_add now (election_base s)\<rparr> else s);
            s = (if quiesced s then arm_lease_grace now s else s)
        in (True, s\<lparr>quiesced := False, last_activity := now\<rparr>))"

fun first_transfer :: "NodeId list \<Rightarrow> nat \<Rightarrow> ('c, 's) RaftCore \<Rightarrow> NodeId option \<times> ('c, 's) RaftCore" where
  "first_transfer [] now s = (None, s)"
| "first_transfer (t # ts) now s =
     (case transfer_leadership t now s of (True, s') \<Rightarrow> (Some t, s') | (False, s') \<Rightarrow> first_transfer ts now s')"

text \<open>The candidates come in node order, so the three-key sort of the source (avoided last, highest
  match first, then by node) is two stable sorts.\<close>

definition storage_full_step_down ::
  "nat \<Rightarrow> NodeId option \<Rightarrow> ('c, 's) RaftCore \<Rightarrow> NodeId option \<times> ('c, 's) RaftCore" where
  "storage_full_step_down now avoid s =
     (if role s \<noteq> Leader \<or> transfer_target s \<noteq> None then (None, s)
      else if length (healthy_followers now s) < majority s then (None, s)
      else let cands = filter (\<lambda>n. commit_index s \<le> peer_match s n) (healthy_followers now s)
           in first_transfer (sort_key (\<lambda>n. Some n = avoid) (sort_key (\<lambda>n. - int (peer_match s n)) cands)) now s)"

definition quorum_applied :: "nat \<Rightarrow> nat \<Rightarrow> nat \<Rightarrow> ('c, 's) RaftCore \<Rightarrow> nat" where
  "quorum_applied own now fresh_within s =
     (let vals = map (\<lambda>n. if n = node_id s then own
                          else case bm_get (peer_applied s) n of
                                 Some (a, seen) \<Rightarrow> if now - seen \<le> fresh_within then a else own
                               | None \<Rightarrow> own) (sorted_list_of_set (config s))
      in if vals = [] then own
         else let sorted = rev (sort vals); quorum = length vals div 2 + 1
              in min (sorted ! (quorum - 1)) own)"

section \<open>Removal notices\<close>

fun ilog2 :: "nat \<Rightarrow> nat" where
  "ilog2 n = (if n < 2 then 0 else Suc (ilog2 (n div 2)))"

declare ilog2.simps [simp del]

definition departing_send_gate :: "NodeId \<Rightarrow> ('c, 's) RaftCore \<Rightarrow> bool \<times> ('c, 's) RaftCore" where
  "departing_send_gate peer s =
     (case bm_get (departing s) peer of
        None \<Rightarrow> (True, s)
      | Some d \<Rightarrow>
          let now = now_hint s;
              (next_at, attempts) = (case sched d of None \<Rightarrow> (0, 0) | Some x \<Rightarrow> x)
          in if now < next_at then (False, s)
             else let mult = 2 ^ min attempts (ilog2 SNAPSHOT_HEARTBEAT_BACKOFF_MAX_TICKS);
                      gap = sat_mul (heartbeat_nanos s) mult
                  in (True, s\<lparr>departing := bm_insert peer
                        (d\<lparr>sched := Some (sat_add now gap, sat_add32 attempts 1)\<rparr>) (departing s)\<rparr>))"

definition removal_notice_for :: "NodeId \<Rightarrow> Departing \<Rightarrow> ('c, 's) RaftCore \<Rightarrow> 'c RaftMsg option" where
  "removal_notice_for peer dep s =
     (if commit_index s < d_index dep \<or> peer \<in> config s \<or> peer \<in> learners s then None
      else Some (Removed (current_term s) (d_index dep) (d_term dep) (config s) (learners s)))"

definition removal_step ::
  "'c LogEntry \<Rightarrow> NodeId set \<times> NodeId set \<times> (NodeId, Departing) bmap \<Rightarrow> NodeId set \<times> NodeId set \<times> (NodeId, Departing) bmap" where
  "removal_step e acc =
     (case (acc, e_config e) of
        ((prev_voters, prev_learners, out), None) \<Rightarrow> (prev_voters, prev_learners, out)
      | ((prev_voters, prev_learners, out), Some voters) \<Rightarrow>
          let lrn = (case e_learners e of None \<Rightarrow> prev_learners | Some l \<Rightarrow> l);
              out = fold (\<lambda>n o'. if n \<notin> voters \<and> n \<notin> lrn
                                  then bm_insert n \<lparr>d_index = e_index e, d_term = e_term e\<rparr> o' else o')
                      (sorted_list_of_set prev_voters) out;
              out = filter (\<lambda>(n, _). n \<notin> voters \<and> n \<notin> lrn) out
          in (voters, lrn, out))"

definition removals_in_log :: "('c, 's) RaftCore \<Rightarrow> (NodeId, Departing) bmap" where
  "removals_in_log s =
     (case fold removal_step (rlog s)
             ((case snapshot_config s of Some c \<Rightarrow> c | None \<Rightarrow> initial_config s),
              (case snapshot_learners s of Some l \<Rightarrow> l | None \<Rightarrow> initial_learners s), []) of
        (_, _, out) \<Rightarrow> bm_remove (node_id s) out)"

definition latest_config_stamp :: "('c, 's) RaftCore \<Rightarrow> Departing option" where
  "latest_config_stamp s =
     (case find (\<lambda>e. e_config e \<noteq> None) (rev (rlog s)) of
        Some e \<Rightarrow> Some \<lparr>d_index = e_index e, d_term = e_term e\<rparr>
      | None \<Rightarrow> if 0 < snapshot_index s then Some \<lparr>d_index = snapshot_index s, d_term = snapshot_term s\<rparr> else None)"

definition bump_notices_sent :: "('c, 's) RaftCore \<Rightarrow> ('c, 's) RaftCore" where
  "bump_notices_sent s = s\<lparr>removal_stats := (removal_stats s)\<lparr>notices_sent := notices_sent (removal_stats s) + 1\<rparr>\<rparr>"

definition stranger_notice :: "NodeId \<Rightarrow> ('c, 's) RaftCore \<Rightarrow> 'c Out option \<times> ('c, 's) RaftCore" where
  "stranger_notice candidate s =
     (if role s \<noteq> Leader \<or> candidate = node_id s \<or> candidate \<in> config s \<or> candidate \<in> learners s then (None, s)
      else case (case bm_get (removals_in_log s) candidate of Some d \<Rightarrow> Some d | None \<Rightarrow> latest_config_stamp s) of
             None \<Rightarrow> (None, s)
           | Some dep \<Rightarrow>
               (case removal_notice_for candidate dep s of
                  None \<Rightarrow> (None, s)
                | Some m \<Rightarrow> (Some (candidate, m), bump_notices_sent s)))"

definition expire_stale_departing :: "('c, 's) StateMachine \<Rightarrow> nat \<Rightarrow> ('c, 's) RaftCore \<Rightarrow> ('c, 's) RaftCore" where
  "expire_stale_departing sm now s =
     (if departing s = [] then s
      else
        let since_of = (\<lambda>d. case since d of None \<Rightarrow> now | Some t \<Rightarrow> t);
            stale = map fst (filter (\<lambda>(_, d). (if quiet d then DEPARTING_QUIET_GIVE_UP else DEPARTING_NOTICE_GIVE_UP)
                                              \<le> now - since_of d) (departing s));
            s = s\<lparr>departing := map (\<lambda>(p, d). (p, d\<lparr>since := Some (since_of d)\<rparr>)) (departing s)\<rparr>
        in fold (drop_departing sm) stale s)"

section \<open>Replication to one peer\<close>

definition is_power_of_two :: "nat \<Rightarrow> bool" where
  "is_power_of_two n \<longleftrightarrow> n \<in> set (map (\<lambda>k. 2 ^ k) [0..<32])"

definition send_record :: "('c, 's) RaftCore \<Rightarrow> NodeId \<Rightarrow> SnapshotSend" where
  "send_record s peer = (case bm_get (snapshot_send s) peer of None \<Rightarrow> snapshot_send_default | Some r \<Rightarrow> r)"

definition backoff_gate :: "NodeId \<Rightarrow> nat \<Rightarrow> ('c, 's) RaftCore \<Rightarrow> bool \<times> ('c, 's) RaftCore" where
  "backoff_gate peer offset s =
     (let rec = send_record s peer;
          n = (if fst (heartbeat_attempts rec) \<noteq> offset then 0 else snd (heartbeat_attempts rec));
          s = s\<lparr>snapshot_send := bm_insert peer (rec\<lparr>heartbeat_attempts := (offset, sat_add32 n 1)\<rparr>) (snapshot_send s)\<rparr>;
          past_ceiling_multiple = (n \<noteq> 0 \<and> n mod SNAPSHOT_HEARTBEAT_BACKOFF_MAX_TICKS = 0);
          pre_ceiling_doubling = (n < SNAPSHOT_HEARTBEAT_BACKOFF_MAX_TICKS \<and> is_power_of_two n)
      in (\<not> (n \<noteq> 0 \<and> \<not> pre_ceiling_doubling \<and> \<not> past_ceiling_multiple), s))"

text \<open>The last part of \<^verbatim>\<open>snapshot_chunk_for\<close>: one chunk of the image from \<open>offset\<close>.\<close>

definition send_chunk :: "NodeId \<Rightarrow> bytes \<Rightarrow> nat \<Rightarrow> nat \<Rightarrow> ('c, 's) RaftCore \<Rightarrow> 'c Out option \<times> ('c, 's) RaftCore" where
  "send_chunk peer serialized offset resends_so_far s =
     (let s = (if resends_so_far = 0
               then s\<lparr>snapshot_chunk_advances := bm_insert peer (chunk_advances_of s peer + 1) (snapshot_chunk_advances s)\<rparr>
               else s);
          stop = min (offset + snapshot_chunk_bytes s) (length serialized);
          data = take (stop - offset) (drop offset serialized);
          s = s\<lparr>snapshot_send := bm_insert peer
                ((send_record s peer)\<lparr>last_sent := Some (offset, sat_add32 resends_so_far 1),
                                       offer_base := snapshot_index s\<rparr>) (snapshot_send s)\<rparr>
      in (Some (peer, InstallSnapshot (current_term s) (node_id s) (snapshot_index s) (snapshot_term s)
                        offset data (length serialized) (stop = length serialized) (snapshot_config s) (snapshot_learners s)), s))"

definition chunk_offset :: "NodeId \<Rightarrow> bytes \<Rightarrow> ('c, 's) RaftCore \<Rightarrow> nat" where
  "chunk_offset peer serialized s =
     min (case Option.bind (bm_get (snapshot_send s) peer) acked_offset of None \<Rightarrow> 0 | Some n \<Rightarrow> n) (length serialized)"

definition chunk_resends :: "NodeId \<Rightarrow> nat \<Rightarrow> ('c, 's) RaftCore \<Rightarrow> nat" where
  "chunk_resends peer offset s =
     (case Option.bind (bm_get (snapshot_send s) peer) last_sent of
        Some (last_offset, n) \<Rightarrow> if last_offset = offset then n else 0
      | None \<Rightarrow> 0)"

definition snapshot_chunk_for :: "NodeId \<Rightarrow> SnapshotResend \<Rightarrow> ('c, 's) RaftCore \<Rightarrow> 'c Out option \<times> ('c, 's) RaftCore" where
  "snapshot_chunk_for peer resend s =
     (case snapshot_blob s of
        None \<Rightarrow> (None, s\<lparr>snapshot_needed := True\<rparr>)
      | Some serialized \<Rightarrow>
          let offset = chunk_offset peer serialized s;
              resends_so_far = chunk_resends peer offset s
          in (case resend of
                Capped limit \<Rightarrow> if limit < resends_so_far then (None, s) else send_chunk peer serialized offset resends_so_far s
              | Always \<Rightarrow> send_chunk peer serialized offset resends_so_far s
              | Backoff \<Rightarrow>
                  (case backoff_gate peer offset s of
                     (False, s) \<Rightarrow> (None, s)
                   | (True, s) \<Rightarrow> send_chunk peer serialized offset resends_so_far s)))"

definition next_of :: "('c, 's) RaftCore \<Rightarrow> NodeId \<Rightarrow> nat" where
  "next_of s peer = (case bm_get (next_index s) peer of None \<Rightarrow> 1 | Some n \<Rightarrow> n)"

text \<open>The append part of \<^verbatim>\<open>replicate_to\<close>, from the index \<open>nxt\<close> above the snapshot.\<close>

definition append_for :: "NodeId \<Rightarrow> SnapshotResend \<Rightarrow> nat \<Rightarrow> ('c, 's) RaftCore \<Rightarrow> 'c Out option \<times> ('c, 's) RaftCore" where
  "append_for peer resend nxt s =
     (let overlap = (case bm_get (inflight_sent s) peer of
                       None \<Rightarrow> None
                     | Some (n, sent) \<Rightarrow> if nxt \<le> n \<and> INFLIGHT_OVERLAP_MAX_ENTRIES \<le> n + 1 - nxt then Some sent else None)
      in if overlap \<noteq> None \<and> resend \<noteq> Backoff then (None, s)
         else
           let empty = (case overlap of None \<Rightarrow> False
                        | Some sent \<Rightarrow> now_hint s - sent < sat_mul (heartbeat_nanos s) INFLIGHT_RETRANSMIT_HEARTBEATS);
               entries = (if empty then [] else take MAX_APPEND_ENTRIES_BATCH (filter (\<lambda>e. nxt \<le> e_index e) (rlog s)));
               s' = (if entries = [] then s
                     else s\<lparr>inflight_sent := bm_insert peer (e_index (last entries), now_hint s) (inflight_sent s)\<rparr>)
           in (Some (peer, AppendEntries (current_term s) (node_id s) (nxt - 1) (term_at s (nxt - 1)) entries (commit_index s)), s'))"

definition replicate_to ::
  "('c, 's) StateMachine \<Rightarrow> NodeId \<Rightarrow> SnapshotResend \<Rightarrow> ('c, 's) RaftCore \<Rightarrow> 'c Out option \<times> ('c, 's) RaftCore" where
  "replicate_to sm peer resend s =
     (case departing_send_gate peer s of
        (False, s) \<Rightarrow> (None, s)
      | (True, s) \<Rightarrow>
          let nxt = max (next_of s peer) 1
          in if log_omits_base s \<and> snapshot_index s = 0 \<and> peer \<in> learners s then
               (None, if 0 < last_applied s then s\<lparr>snapshot_needed := True\<rparr> else s)
             else if nxt \<le> snapshot_index s then
               (case bm_get (departing s) peer of
                  Some d \<Rightarrow>
                    let s = forget_snapshot_transfer sm peer s
                    in (case removal_notice_for peer (stamp d) s of
                          None \<Rightarrow> (None, s)
                        | Some m \<Rightarrow> (Some (peer, m), bump_notices_sent s))
                | None \<Rightarrow> snapshot_chunk_for peer resend s)
             else append_for peer resend nxt s)"

definition replicate_list ::
  "('c, 's) StateMachine \<Rightarrow> NodeId \<Rightarrow> SnapshotResend \<Rightarrow> ('c, 's) RaftCore \<Rightarrow> 'c Out list \<times> ('c, 's) RaftCore" where
  "replicate_list sm peer resend s =
     (case replicate_to sm peer resend s of (None, s) \<Rightarrow> ([], s) | (Some m, s) \<Rightarrow> ([m], s))"

fun replicate_peers ::
  "('c, 's) StateMachine \<Rightarrow> NodeId list \<Rightarrow> SnapshotResend \<Rightarrow> ('c, 's) RaftCore \<Rightarrow> 'c Out list \<times> ('c, 's) RaftCore" where
  "replicate_peers sm [] resend s = ([], s)"
| "replicate_peers sm (p # ps) resend s =
     (case replicate_list sm p resend s of
        (o1, s) \<Rightarrow> (case replicate_peers sm ps resend s of (o2, s) \<Rightarrow> (o1 @ o2, s)))"

definition broadcast_append ::
  "('c, 's) StateMachine \<Rightarrow> SnapshotResend \<Rightarrow> ('c, 's) RaftCore \<Rightarrow> 'c Out list \<times> ('c, 's) RaftCore" where
  "broadcast_append sm resend s =
     (case replicate_peers sm (peers s @ sorted_list_of_set (learners s) @ map fst (departing s)) resend s of
        (outs, s) \<Rightarrow>
          (case transfer_target s of
             None \<Rightarrow> (outs, s)
           | Some target \<Rightarrow>
               if peer_match s target = last_log_index s
               then (outs @ [(target, TimeoutNow (current_term s))], s) else (outs, s)))"

section \<open>Campaigns and leadership\<close>

definition with_stats :: "(CampaignStats \<Rightarrow> CampaignStats) \<Rightarrow> ('c, 's) RaftCore \<Rightarrow> ('c, 's) RaftCore" where
  "with_stats f s = s\<lparr>campaign_stats := f (campaign_stats s)\<rparr>"

definition reset_leader_progress :: "nat \<Rightarrow> nat \<Rightarrow> NodeId \<Rightarrow> ('c, 's) RaftCore \<Rightarrow> ('c, 's) RaftCore" where
  "reset_leader_progress now lst p s =
     s\<lparr>next_index := bm_insert p (lst + 1) (next_index s), match_index := bm_insert p 0 (match_index s),
       last_contact := bm_insert p now (last_contact s)\<rparr>"

definition reset_departing_progress :: "nat \<Rightarrow> NodeId \<times> Departing \<Rightarrow> ('c, 's) RaftCore \<Rightarrow> ('c, 's) RaftCore" where
  "reset_departing_progress lst pd s =
     (case pd of (p, d) \<Rightarrow>
        if p \<in> set (peers s) \<or> p \<in> learners s then s
        else s\<lparr>next_index := bm_insert p (lst + 1) (next_index s), match_index := bm_insert p 0 (match_index s),
               departing := bm_insert p ((departing_peer_new d)\<lparr>quiet := True\<rparr>) (departing s)\<rparr>)"

definition become_leader :: "('c, 's) StateMachine \<Rightarrow> nat \<Rightarrow> ('c, 's) RaftCore \<Rightarrow> 'c Out list \<times> ('c, 's) RaftCore" where
  "become_leader sm now s =
     (let s = s\<lparr>role := Leader, inflight_sent := [], campaign_hold := None, leader_id := Some (node_id s),
                leader_since := Some now, elected_at_commit := max (commit_index s) (snapshot_index s),
                last_leader_contact := Some (node_id s, now), had_leader_contact := True,
                quiesced := False, last_activity := now\<rparr>;
          lst = last_log_index s;
          s = s\<lparr>peer_check_pending := [], peer_recovered_at := [], peer_applied := []\<rparr>;
          s = fold (reset_leader_progress now lst) (peers s @ sorted_list_of_set (learners s)) s;
          s = s\<lparr>departing := []\<rparr>;
          s = fold (reset_departing_progress lst) (removals_in_log s) s;
          s = s\<lparr>transfer_target := None, snapshot_send := [], term_start_index := lst + 1\<rparr>;
          s = log_append sm \<lparr>e_term = current_term s, e_index = lst + 1, e_command = sm_noop sm,
                             e_config = None, e_learners = None\<rparr> s;
          s = maybe_advance_commit s;
          s = apply_committed sm s;
          s = s\<lparr>heartbeat_deadline := sat_add now (heartbeat_nanos s)\<rparr>
      in broadcast_append sm Always s)"

definition start_election :: "('c, 's) StateMachine \<Rightarrow> nat \<Rightarrow> nat \<Rightarrow> ('c, 's) RaftCore \<Rightarrow> 'c Out list \<times> ('c, 's) RaftCore" where
  "start_election sm now entropy s =
     (if blocks_voting (cluster_check s) then ([], reset_election_timer now entropy s)
      else if \<not> is_voter s \<or> state_machine_behind s \<or> storage_full s then ([], reset_election_timer now entropy s)
      else
        let s = with_stats (\<lambda>c. c\<lparr>elections_started := elections_started c + 1\<rparr>) s;
            s = s\<lparr>role := Candidate, current_term := current_term s + 1, voted_for := Some (node_id s),
                  vote_lease_lapsed := False, leader_id := None, votes := {node_id s}\<rparr>;
            s = reset_election_timer now entropy s
        in if majority s \<le> card (votes s) then become_leader sm now s
           else (map (\<lambda>p. (p, RequestVote (current_term s) (node_id s) (last_log_index s) (last_log_term s))) (peers s), s))"

definition broadcast_cluster_probe :: "('c, 's) RaftCore \<Rightarrow> 'c Out list" where
  "broadcast_cluster_probe s = map (\<lambda>p. (p, ClusterProbe)) (peers s)"

definition start_pre_vote :: "('c, 's) StateMachine \<Rightarrow> nat \<Rightarrow> nat \<Rightarrow> ('c, 's) RaftCore \<Rightarrow> 'c Out list \<times> ('c, 's) RaftCore" where
  "start_pre_vote sm now entropy s =
     (case cluster_check s of
        Refused \<Rightarrow> ([], reset_election_timer now entropy s)
      | Pending _ _ _ \<Rightarrow> (let s = reset_election_timer now entropy s in (broadcast_cluster_probe s, s))
      | Idle \<Rightarrow>
          if \<not> is_voter s \<or> state_machine_behind s \<or> storage_full s then
            (let s = (if \<not> is_voter s then s\<lparr>leader_id := None, vote_lease_lapsed := True\<rparr> else s)
             in ([], reset_election_timer now entropy s))
          else
            let s = (if role s = PreCandidate then with_stats (\<lambda>c. c\<lparr>rounds_restarted := rounds_restarted c + 1\<rparr>) s else s);
                s = with_stats (\<lambda>c. c\<lparr>rounds_started := rounds_started c + 1\<rparr>) s;
                s = s\<lparr>round_started_at := now, role := PreCandidate, leader_id := None, pre_votes := {node_id s}\<rparr>;
                s = reset_election_timer now entropy s;
                s = s\<lparr>round_window_ns := election_deadline s - now\<rparr>
            in if majority s \<le> card (pre_votes s) then start_election sm now entropy s
               else (map (\<lambda>p. (p, PreVote (current_term s + 1) (node_id s) (last_log_index s) (last_log_term s))) (peers s), s))"

definition campaign_now :: "('c, 's) StateMachine \<Rightarrow> nat \<Rightarrow> nat \<Rightarrow> ('c, 's) RaftCore \<Rightarrow> 'c Out list \<times> ('c, 's) RaftCore" where
  "campaign_now sm now entropy s = (if role s \<noteq> Follower then ([], s) else start_pre_vote sm now entropy s)"

definition campaign_due :: "nat \<Rightarrow> ('c, 's) RaftCore \<Rightarrow> bool" where
  "campaign_due now s \<longleftrightarrow>
     (role s = Follower \<or> role s = PreCandidate \<or> role s = Candidate) \<and> election_deadline s \<le> now
     \<and> \<not> blocks_voting (cluster_check s) \<and> is_voter s \<and> \<not> state_machine_behind s \<and> \<not> storage_full s \<and> 1 < majority s"

section \<open>Quiescence\<close>

definition quiesce_entry_ok :: "nat \<Rightarrow> ('c, 's) RaftCore \<Rightarrow> bool" where
  "quiesce_entry_ok now s \<longleftrightarrow>
     (case quiesce_after s of
        None \<Rightarrow> False
      | Some after \<Rightarrow>
          after \<le> now - last_activity s
          \<and> commit_index s = last_log_index s
          \<and> term_start_index s \<le> commit_index s
          \<and> (\<forall>p \<in> set (peers s @ sorted_list_of_set (learners s)). peer_match s p = last_log_index s)
          \<and> transfer_target s = None \<and> departing s = [] \<and> \<not> config_change_in_flight s
          \<and> incoming_snapshot s = None \<and> pending_install s = None \<and> \<not> snapshot_needed s
          \<and> quiesce_engine_caught_up s \<and> \<not> quiesce_veto s \<and> commit_index s \<le> quiesce_veto_fresh_through s)"

definition broadcast_quiesce :: "('c, 's) RaftCore \<Rightarrow> 'c Out list" where
  "broadcast_quiesce s =
     map (\<lambda>p. (p, Quiesce (current_term s) (commit_index s))) (peers s @ sorted_list_of_set (learners s))"

definition on_local_wake :: "nat \<Rightarrow> nat \<Rightarrow> ('c, 's) RaftCore \<Rightarrow> 'c Out list \<times> ('c, 's) RaftCore" where
  "on_local_wake now entropy s =
     (if \<not> quiesced s \<or> role s = Leader then ([], s)
      else let s = reset_election_timer now entropy (s\<lparr>quiesced := False, last_activity := now\<rparr>)
           in case leader_id s of Some l \<Rightarrow> ([(l, WakeRequest (current_term s))], s) | None \<Rightarrow> ([], s))"

definition enable_quiescence :: "nat \<Rightarrow> ('c, 's) RaftCore \<Rightarrow> ('c, 's) RaftCore" where
  "enable_quiescence after s = s\<lparr>quiesce_after := Some after\<rparr>"

definition set_quiesce_engine_caught_up :: "bool \<Rightarrow> ('c, 's) RaftCore \<Rightarrow> ('c, 's) RaftCore" where
  "set_quiesce_engine_caught_up b s = s\<lparr>quiesce_engine_caught_up := b\<rparr>"

definition set_quiesce_veto :: "bool \<Rightarrow> nat \<Rightarrow> ('c, 's) RaftCore \<Rightarrow> ('c, 's) RaftCore" where
  "set_quiesce_veto veto fresh_through s = s\<lparr>quiesce_veto := veto, quiesce_veto_fresh_through := fresh_through\<rparr>"

definition note_local_activity :: "nat \<Rightarrow> ('c, 's) RaftCore \<Rightarrow> ('c, 's) RaftCore" where
  "note_local_activity now s =
     (let s = s\<lparr>last_activity := now\<rparr>; s = (if quiesced s then arm_lease_grace now s else s) in s\<lparr>quiesced := False\<rparr>)"

definition set_storage_full :: "bool \<Rightarrow> ('c, 's) RaftCore \<Rightarrow> ('c, 's) RaftCore" where
  "set_storage_full b s = s\<lparr>storage_full := b\<rparr>"

definition set_state_machine_behind :: "bool \<Rightarrow> ('c, 's) RaftCore \<Rightarrow> ('c, 's) RaftCore" where
  "set_state_machine_behind b s = s\<lparr>state_machine_behind := b\<rparr>"

definition set_local_applied :: "nat \<Rightarrow> ('c, 's) RaftCore \<Rightarrow> ('c, 's) RaftCore" where
  "set_local_applied n s = s\<lparr>local_applied := n\<rparr>"

definition set_group_label :: "string \<Rightarrow> ('c, 's) RaftCore \<Rightarrow> ('c, 's) RaftCore" where
  "set_group_label l s = s\<lparr>group_label := Some l\<rparr>"

end
