(* ===== verification/Raft_Core.thy ===== *)
theory Raft_Core
  imports Raft_Send
begin

text \<open>
  The message handlers, the tick, the proposals and the membership changes of the consensus core
  (\<^verbatim>\<open>crates/animus-control/src/raft.rs\<close>). A handler returns its outbound messages and the new state;
  \<open>now\<close> is the instant of the step and \<open>entropy\<close> the random word the driver supplies.
\<close>

section \<open>Proposals and membership\<close>

definition append_own :: "('c, 's) StateMachine \<Rightarrow> 'c \<Rightarrow> NodeId set option \<Rightarrow> NodeId set option \<Rightarrow> ('c, 's) RaftCore \<Rightarrow>
    ProposeResult \<times> ('c, 's) RaftCore" where
  "append_own sm command cfg lrn s =
     (let index = last_log_index s + 1;
          s = log_append sm \<lparr>e_term = current_term s, e_index = index, e_command = command,
                             e_config = cfg, e_learners = lrn\<rparr> s;
          s = maybe_advance_commit s;
          s = apply_committed sm s
      in (Accepted index (current_term s), s))"

definition propose :: "('c, 's) StateMachine \<Rightarrow> 'c \<Rightarrow> ('c, 's) RaftCore \<Rightarrow> ProposeResult \<times> ('c, 's) RaftCore" where
  "propose sm command s =
     (if role s \<noteq> Leader then (NotLeader (leader_id s), s)
      else case transfer_target s of
             Some target \<Rightarrow> (NotLeader (Some target), s)
           | None \<Rightarrow> append_own sm command None None s)"

definition change_membership :: "('c, 's) StateMachine \<Rightarrow> NodeId set \<Rightarrow> ('c, 's) RaftCore \<Rightarrow> ProposeResult \<times> ('c, 's) RaftCore" where
  "change_membership sm voters s =
     (if role s \<noteq> Leader then (NotLeader (leader_id s), s)
      else case transfer_target s of
             Some target \<Rightarrow> (NotLeader (Some target), s)
           | None \<Rightarrow>
               if commit_index s < term_start_index s then (NotLeader (Some (node_id s)), s)
               else if card ((config s - voters) \<union> (voters - config s)) \<noteq> 1 \<or> config_change_in_flight s
                       \<or> node_id s \<notin> voters \<or> voters \<inter> learners s \<noteq> {}
                    then (NotLeader (Some (node_id s)), s)
               else append_own sm (sm_noop sm) (Some voters) (Some (learners s)) s)"

definition learner_change_precheck :: "('c, 's) RaftCore \<Rightarrow> ProposeResult option" where
  "learner_change_precheck s =
     (if role s \<noteq> Leader then Some (NotLeader (leader_id s))
      else case transfer_target s of
             Some target \<Rightarrow> Some (NotLeader (Some target))
           | None \<Rightarrow>
               if commit_index s < term_start_index s then Some (NotLeader (Some (node_id s)))
               else if config_change_in_flight s then Some (NotLeader (Some (node_id s)))
               else None)"

definition append_membership_entry ::
  "('c, 's) StateMachine \<Rightarrow> NodeId set \<Rightarrow> NodeId set \<Rightarrow> ('c, 's) RaftCore \<Rightarrow> ProposeResult \<times> ('c, 's) RaftCore" where
  "append_membership_entry sm voters lrn s = append_own sm (sm_noop sm) (Some voters) (Some lrn) s"

definition add_learner :: "('c, 's) StateMachine \<Rightarrow> NodeId \<Rightarrow> ('c, 's) RaftCore \<Rightarrow> ProposeResult \<times> ('c, 's) RaftCore" where
  "add_learner sm i s =
     (case learner_change_precheck s of
        Some rejected \<Rightarrow> (rejected, s)
      | None \<Rightarrow>
          if i = node_id s \<or> i \<in> config s \<or> i \<in> learners s then (NotLeader (Some (node_id s)), s)
          else append_membership_entry sm (config s) (insert i (learners s)) s)"

definition promote_learner :: "('c, 's) StateMachine \<Rightarrow> NodeId \<Rightarrow> ('c, 's) RaftCore \<Rightarrow> ProposeResult \<times> ('c, 's) RaftCore" where
  "promote_learner sm i s =
     (case learner_change_precheck s of
        Some rejected \<Rightarrow> (rejected, s)
      | None \<Rightarrow>
          if i \<notin> learners s then (NotLeader (Some (node_id s)), s)
          else append_membership_entry sm (insert i (config s)) (learners s - {i}) s)"

definition remove_learner :: "('c, 's) StateMachine \<Rightarrow> NodeId \<Rightarrow> ('c, 's) RaftCore \<Rightarrow> ProposeResult \<times> ('c, 's) RaftCore" where
  "remove_learner sm i s =
     (case learner_change_precheck s of
        Some rejected \<Rightarrow> (rejected, s)
      | None \<Rightarrow>
          if i \<notin> learners s then (NotLeader (Some (node_id s)), s)
          else append_membership_entry sm (config s) (learners s - {i}) s)"

section \<open>Votes\<close>

definition log_up_to_date :: "nat \<Rightarrow> nat \<Rightarrow> ('c, 's) RaftCore \<Rightarrow> bool" where
  "log_up_to_date lli llt s \<longleftrightarrow>
     last_log_term s < llt \<or> (llt = last_log_term s \<and> last_log_index s \<le> lli)"

definition handle_pre_vote :: "NodeId \<Rightarrow> nat \<Rightarrow> nat \<Rightarrow> nat \<Rightarrow> nat \<Rightarrow> ('c, 's) RaftCore \<Rightarrow> 'c Out list \<times> ('c, 's) RaftCore" where
  "handle_pre_vote candidate t lli llt now s =
     (let voted_lease = ((role s = Follower \<or> role s = Candidate) \<and> voted_for s \<noteq> None
                         \<and> now < election_deadline s \<and> \<not> vote_lease_lapsed s);
          live = live_leader now s;
          has_live_leader = (live \<or> voted_lease);
          log_ok = log_up_to_date lli llt s;
          cluster_checked = (case cluster_check s of Idle \<Rightarrow> True | Refused \<Rightarrow> False
                             | Pending _ _ _ \<Rightarrow> lli = 0 \<and> llt = 0);
          granted = (\<not> has_live_leader \<and> current_term s \<le> t \<and> log_ok \<and> cluster_checked);
          s = (if granted \<and> role s = Candidate
               then with_stats (\<lambda>c. c\<lparr>candidacies_conceded := candidacies_conceded c + 1\<rparr>) (s\<lparr>role := Follower, votes := {}\<rparr>)
               else s);
          s = with_stats
                (if granted then (\<lambda>c. c\<lparr>pv_granted := pv_granted c + 1\<rparr>)
                 else if live then (\<lambda>c. c\<lparr>pv_refused_leader := pv_refused_leader c + 1\<rparr>)
                 else if voted_lease then (\<lambda>c. c\<lparr>pv_refused_lease := pv_refused_lease c + 1\<rparr>)
                 else if \<not> cluster_checked then (\<lambda>c. c\<lparr>pv_refused_unchecked := pv_refused_unchecked c + 1\<rparr>)
                 else (\<lambda>c. c\<lparr>pv_refused_term_or_log := pv_refused_term_or_log c + 1\<rparr>)) s
      in ([(candidate, PreVoteResp (if granted then t else current_term s) granted)], s))"

definition handle_pre_vote_resp ::
  "('c, 's) StateMachine \<Rightarrow> NodeId \<Rightarrow> nat \<Rightarrow> bool \<Rightarrow> nat \<Rightarrow> nat \<Rightarrow> ('c, 's) RaftCore \<Rightarrow> 'c Out list \<times> ('c, 's) RaftCore" where
  "handle_pre_vote_resp sm from t granted now entropy s =
     (if role s \<noteq> PreCandidate then ([], s)
      else if granted \<and> campaign_hold s \<noteq> None then
        (let age = now - round_started_at s
         in ([], with_stats (\<lambda>c. c\<lparr>grants_rx_dropped_hold := grants_rx_dropped_hold c + 1,
                                   dropped_age_ns_sum := dropped_age_ns_sum c + age,
                                   dropped_age_ns_max := max (dropped_age_ns_max c) age,
                                   dropped_window_ns_sum := dropped_window_ns_sum c + round_window_ns s\<rparr>) s))
      else
        let counted = (t = current_term s + 1 \<and> from \<in> config s);
            s = with_stats
                  (if \<not> granted then (\<lambda>c. c\<lparr>refusals_rx := refusals_rx c + 1\<rparr>)
                   else if counted then (\<lambda>c. c\<lparr>grants_rx := grants_rx c + 1,
                                                counted_age_ns_sum := counted_age_ns_sum c + (now - round_started_at s)\<rparr>)
                   else (\<lambda>c. c\<lparr>grants_rx_dropped_round := grants_rx_dropped_round c + 1\<rparr>)) s
        in if granted then
             (if counted then
                let s = s\<lparr>pre_votes := insert from (pre_votes s)\<rparr>
                in if majority s \<le> card (pre_votes s) then start_election sm now entropy s else ([], s)
              else ([], s))
           else if current_term s < t then
             ([], reset_election_timer now entropy
                    (s\<lparr>current_term := t, voted_for := None, vote_lease_lapsed := False, role := Follower,
                       leader_id := None, last_leader_contact := None, pre_votes := {}\<rparr>))
           else ([], s))"

definition handle_request_vote ::
  "NodeId \<Rightarrow> nat \<Rightarrow> nat \<Rightarrow> nat \<Rightarrow> nat \<Rightarrow> nat \<Rightarrow> ('c, 's) RaftCore \<Rightarrow> 'c Out list \<times> ('c, 's) RaftCore" where
  "handle_request_vote candidate t lli llt now entropy s =
     (let s = s\<lparr>heard_from := insert candidate (heard_from s)\<rparr>;
          granted = (\<not> t < current_term s
                     \<and> (voted_for s = None \<or> voted_for s = Some candidate)
                     \<and> log_up_to_date lli llt s \<and> \<not> blocks_voting (cluster_check s));
          s = (if granted then reset_election_timer now entropy (s\<lparr>voted_for := Some candidate, vote_lease_lapsed := False\<rparr>)
               else s)
      in ([(candidate, RequestVoteResp (current_term s) granted)], s))"

definition handle_vote_resp ::
  "('c, 's) StateMachine \<Rightarrow> NodeId \<Rightarrow> nat \<Rightarrow> bool \<Rightarrow> nat \<Rightarrow> ('c, 's) RaftCore \<Rightarrow> 'c Out list \<times> ('c, 's) RaftCore" where
  "handle_vote_resp sm from t granted now s =
     (let s = (if granted then s\<lparr>heard_from := insert from (heard_from s)\<rparr> else s)
      in if role s \<noteq> Candidate \<or> t \<noteq> current_term s then ([], s)
         else if granted \<and> from \<in> config s then
           (let s = s\<lparr>votes := insert from (votes s)\<rparr>
            in if majority s \<le> card (votes s) then become_leader sm now s else ([], s))
         else ([], s))"

definition handle_timeout_now :: "('c, 's) StateMachine \<Rightarrow> nat \<Rightarrow> nat \<Rightarrow> nat \<Rightarrow> ('c, 's) RaftCore \<Rightarrow> 'c Out list \<times> ('c, 's) RaftCore" where
  "handle_timeout_now sm t now entropy s =
     (if t \<noteq> current_term s \<or> role s = Leader \<or> \<not> is_voter s then ([], s) else start_election sm now entropy s)"

section \<open>Replication\<close>

definition append_resp :: "bool \<Rightarrow> nat \<Rightarrow> ('c, 's) RaftCore \<Rightarrow> 'c RaftMsg" where
  "append_resp success m s =
     AppendEntriesResp (current_term s) success m (state_machine_behind s) (cannot_vote_yet s) (local_applied s)"

definition follow_leader :: "NodeId \<Rightarrow> nat \<Rightarrow> nat \<Rightarrow> ('c, 's) RaftCore \<Rightarrow> ('c, 's) RaftCore" where
  "follow_leader leader now entropy s =
     reset_election_timer now entropy
       (s\<lparr>role := Follower, leader_id := Some leader, last_leader_contact := Some (leader, now), had_leader_contact := True\<rparr>)"

definition accept_entry :: "('c, 's) StateMachine \<Rightarrow> nat \<Rightarrow> 'c LogEntry \<Rightarrow> ('c, 's) RaftCore \<Rightarrow> ('c, 's) RaftCore" where
  "accept_entry sm idx e s =
     (if idx \<le> last_log_index s then
        (if term_at s idx \<noteq> e_term e
         then log_append sm e (log_truncate (idx - snapshot_index s - 1) s) else s)
      else log_append sm e s)"

fun accept_entries :: "('c, 's) StateMachine \<Rightarrow> nat \<Rightarrow> 'c LogEntry list \<Rightarrow> ('c, 's) RaftCore \<Rightarrow> ('c, 's) RaftCore" where
  "accept_entries sm idx [] s = s"
| "accept_entries sm idx (e # es) s = accept_entries sm (Suc idx) es (accept_entry sm (Suc idx) e s)"

definition handle_append_entries ::
  "('c, 's) StateMachine \<Rightarrow> nat \<Rightarrow> NodeId \<Rightarrow> nat \<Rightarrow> nat \<Rightarrow> 'c LogEntry list \<Rightarrow> nat \<Rightarrow> nat \<Rightarrow> nat \<Rightarrow>
   ('c, 's) RaftCore \<Rightarrow> 'c Out list \<times> ('c, 's) RaftCore" where
  "handle_append_entries sm t leader prev_log_index prev_log_term entries leader_commit now entropy s =
     (let s = s\<lparr>heard_from := insert leader (heard_from s)\<rparr>
      in if t < current_term s then ([(leader, append_resp False 0 s)], s)
         else
           let s = follow_leader leader now entropy s
           in if prev_log_index < snapshot_index s then ([(leader, append_resp True (snapshot_index s) s)], s)
              else if 0 < prev_log_index \<and> (last_log_index s < prev_log_index \<or> term_at s prev_log_index \<noteq> prev_log_term)
              then ([(leader, append_resp False 0 s)], s)
              else
                let s = accept_entries sm prev_log_index entries s;
                    idx = prev_log_index + length entries;
                    s = (if commit_index s < leader_commit \<and> commit_index s < min leader_commit idx
                         then apply_committed sm (s\<lparr>commit_index := min leader_commit idx\<rparr>) else s);
                    m = (if storage_full s then min idx (durable_index s) else idx)
                in ([(leader, append_resp True m s)], s))"

definition handle_append_resp ::
  "('c, 's) StateMachine \<Rightarrow> NodeId \<Rightarrow> nat \<Rightarrow> bool \<Rightarrow> nat \<Rightarrow> bool \<Rightarrow> bool \<Rightarrow> nat \<Rightarrow> nat \<Rightarrow>
   ('c, 's) RaftCore \<Rightarrow> 'c Out list \<times> ('c, 's) RaftCore" where
  "handle_append_resp sm from t success m needs_snapshot check_pending applied_idx now s =
     (if role s \<noteq> Leader \<or> t \<noteq> current_term s then ([], s)
      else
        let s = (if 0 < applied_idx then s\<lparr>peer_applied := bm_insert from (applied_idx, now) (peer_applied s)\<rparr> else s);
            was_pending = bm_get (peer_check_pending s) from;
            s = s\<lparr>peer_check_pending := bm_insert from check_pending (peer_check_pending s)\<rparr>;
            s = (if check_pending then s\<lparr>peer_recovered_at := bm_remove from (peer_recovered_at s)\<rparr>
                 else if was_pending = Some True then s\<lparr>peer_recovered_at := bm_insert from now (peer_recovered_at s)\<rparr>
                 else s);
            s = s\<lparr>last_contact := bm_insert from now (last_contact s)\<rparr>;
            s = note_departing_reply from now s;
            progressed = (success \<and> peer_match s from < m);
            s = (if success then
                   let s = s\<lparr>match_index := bm_insert from (max (peer_match s from) m) (match_index s)\<rparr>
                   in if (case bm_get (departing s) from of None \<Rightarrow> False | Some d \<Rightarrow> d_index (stamp d) \<le> m)
                      then drop_departing sm from s else s
                 else s)
        in if needs_snapshot then
             let already_served = (case bm_get (snapshot_served_through s) from of None \<Rightarrow> False
                                   | Some served \<Rightarrow> snapshot_index s \<le> served);
                 s = (if \<not> already_served then s\<lparr>next_index := bm_insert from 1 (next_index s)\<rparr> else s);
                 s = s\<lparr>inflight_sent := bm_remove from (inflight_sent s)\<rparr>;
                 s = apply_committed sm (maybe_advance_commit s)
             in replicate_list sm from Always s
           else if success then
             let s = s\<lparr>next_index := bm_insert from (max (next_of s from) (m + 1)) (next_index s)\<rparr>;
                 s = apply_committed sm (maybe_advance_commit s)
             in if next_of s from \<le> last_log_index s \<and> (progressed \<or> \<not> check_pending)
                then replicate_list sm from Always s else ([], s)
           else
             let ni = next_of s from;
                 s = s\<lparr>next_index := bm_insert from (if 1 < ni then ni - 1 else ni) (next_index s)\<rparr>;
                 s = s\<lparr>inflight_sent := bm_remove from (inflight_sent s)\<rparr>
             in replicate_list sm from Always s)"

section \<open>Snapshot installation\<close>

text \<open>The closure \<^verbatim>\<open>install\<close> of the handler.\<close>

definition install_base ::
  "nat \<Rightarrow> nat \<Rightarrow> NodeId set option \<Rightarrow> NodeId set option \<Rightarrow> ('c, 's) RaftCore \<Rightarrow> ('c, 's) RaftCore" where
  "install_base li lt cfg lrn s =
     (let s = s\<lparr>snapshot_index := li, snapshot_term := lt, last_applied := li, commit_index := li, rlog := [],
                applied := [], snapshot_dirty := True, snapshot_config := cfg, snapshot_learners := lrn\<rparr>;
          s = recompute_config s;
          s = refresh_removed_flag s
      in if \<not> wal_records_install s then s\<lparr>install_rewrite_owed := True\<rparr>
         else s\<lparr>pending := pending s @
                [Snapshot (metadata s) (snapshot_index s) (snapshot_term s) (snapshot_config s) (snapshot_learners s)]\<rparr>)"

definition install_complete ::
  "('c, 's) StateMachine \<Rightarrow> NodeId \<Rightarrow> IncomingSnapshot \<Rightarrow> NodeId set option \<Rightarrow> NodeId set option \<Rightarrow>
   ('c, 's) RaftCore \<Rightarrow> 'c Out list \<times> ('c, 's) RaftCore" where
  "install_complete sm leader inc cfg lrn s =
     (let s = s\<lparr>incoming_snapshot := None, last_installed_index := Some (inc_last_index inc)\<rparr>
      in if DRIVER_APPLIED sm then
           let s = install_base (inc_last_index inc) (inc_last_term inc) cfg lrn s;
               s = s\<lparr>snapshot_blob := None, pending_install := Some (inc_last_index inc, inc_buf inc)\<rparr>
           in ([(leader, InstallSnapshotResp (current_term s) (inc_last_index inc) (inc_total inc))], s)
         else
           case (case unwrap CONTROL_SNAPSHOT (inc_buf inc) of
                   Inl e \<Rightarrow> Inl e
                 | Inr (version, payload) \<Rightarrow> snapshot_body (sm_from_slice sm) version payload) of
             Inr st \<Rightarrow>
               (let s = s\<lparr>metadata := st\<rparr>;
                    s = install_base (inc_last_index inc) (inc_last_term inc) cfg lrn s;
                    s = s\<lparr>snapshot_blob := Some (inc_buf inc)\<rparr>
                in ([(leader, InstallSnapshotResp (current_term s) (inc_last_index inc) (inc_total inc))], s))
           | Inl _ \<Rightarrow> ([(leader, InstallSnapshotResp (current_term s) 0 0)], s))"

definition buffer_chunk :: "nat \<Rightarrow> nat \<Rightarrow> nat \<Rightarrow> bytes \<Rightarrow> nat \<Rightarrow> IncomingSnapshot option \<Rightarrow> IncomingSnapshot option" where
  "buffer_chunk li lt off data tot inc =
     (let fresh = (case inc of Some x \<Rightarrow> inc_last_index x \<noteq> li \<or> inc_total x \<noteq> tot | None \<Rightarrow> True);
          inc = (if fresh \<and> off = 0
                 then Some \<lparr>inc_last_index = li, inc_last_term = lt, inc_total = tot, inc_buf = []\<rparr> else inc)
      in case inc of
           None \<Rightarrow> None
         | Some x \<Rightarrow> Some (if inc_last_index x = li \<and> off = length (inc_buf x)
                           then x\<lparr>inc_buf := inc_buf x @ data\<rparr> else x))"

definition handle_install_snapshot ::
  "('c, 's) StateMachine \<Rightarrow> nat \<Rightarrow> NodeId \<Rightarrow> nat \<Rightarrow> nat \<Rightarrow> nat \<Rightarrow> bytes \<Rightarrow> nat \<Rightarrow> bool \<Rightarrow>
   NodeId set option \<Rightarrow> NodeId set option \<Rightarrow> nat \<Rightarrow> nat \<Rightarrow> ('c, 's) RaftCore \<Rightarrow> 'c Out list \<times> ('c, 's) RaftCore" where
  "handle_install_snapshot sm t leader li lt off data tot fin cfg lrn now entropy s =
     (let s = s\<lparr>heard_from := insert leader (heard_from s)\<rparr>
      in if t < current_term s then ([(leader, InstallSnapshotResp (current_term s) 0 0)], s)
         else
           let s = follow_leader leader now entropy s
           in if last_installed_index s = Some li \<or> li < last_applied s \<or> (li = last_applied s \<and> \<not> state_machine_behind s)
              then (let s = s\<lparr>incoming_snapshot := None\<rparr> in ([(leader, InstallSnapshotResp (current_term s) 0 0)], s))
              else
                let s = s\<lparr>incoming_snapshot := buffer_chunk li lt off data tot (incoming_snapshot s)\<rparr>
                in case incoming_snapshot s of
                     None \<Rightarrow> ([(leader, InstallSnapshotResp (current_term s) 0 0)], s)
                   | Some inc \<Rightarrow>
                       if fin \<and> length (inc_buf inc) = inc_total inc then install_complete sm leader inc cfg lrn s
                       else ([(leader, InstallSnapshotResp (current_term s) 0 (length (inc_buf inc)))], s))"

definition served_of :: "('c, 's) RaftCore \<Rightarrow> NodeId \<Rightarrow> nat" where
  "served_of s peer = (case bm_get (snapshot_served_through s) peer of None \<Rightarrow> 0 | Some n \<Rightarrow> n)"

definition install_acknowledged ::
  "('c, 's) StateMachine \<Rightarrow> NodeId \<Rightarrow> nat \<Rightarrow> ('c, 's) RaftCore \<Rightarrow> 'c Out list \<times> ('c, 's) RaftCore" where
  "install_acknowledged sm from li s =
     (let s = forget_snapshot_transfer sm from s;
          s = s\<lparr>match_index := bm_insert from (max (peer_match s from) li) (match_index s)\<rparr>;
          s = s\<lparr>next_index := bm_insert from (max (next_of s from) (li + 1)) (next_index s)\<rparr>;
          s = s\<lparr>snapshot_served_through := bm_insert from (max (served_of s from) li) (snapshot_served_through s)\<rparr>;
          s = apply_committed sm (maybe_advance_commit s)
      in if (case bm_get (departing s) from of None \<Rightarrow> False | Some d \<Rightarrow> d_index (stamp d) \<le> peer_match s from)
         then ([], drop_departing sm from s)
         else if next_of s from \<le> last_log_index s then replicate_list sm from Always s
         else ([], s))"

definition install_refused ::
  "('c, 's) StateMachine \<Rightarrow> NodeId \<Rightarrow> nat \<Rightarrow> ('c, 's) RaftCore \<Rightarrow> 'c Out list \<times> ('c, 's) RaftCore" where
  "install_refused sm from base s =
     (let s = forget_snapshot_transfer sm from s;
          s = s\<lparr>snapshot_served_through := bm_insert from (max (served_of s from) base) (snapshot_served_through s)\<rparr>;
          s = s\<lparr>next_index := bm_insert from (max (next_of s from) (snapshot_index s + 1)) (next_index s)\<rparr>
      in if next_of s from \<le> last_log_index s then replicate_list sm from Always s else ([], s))"

definition chunk_acknowledged ::
  "('c, 's) StateMachine \<Rightarrow> NodeId \<Rightarrow> nat \<Rightarrow> ('c, 's) RaftCore \<Rightarrow> 'c Out list \<times> ('c, 's) RaftCore" where
  "chunk_acknowledged sm from next_offset s =
     (let rec = send_record s from;
          tracked = (case acked_offset rec of None \<Rightarrow> 0 | Some n \<Rightarrow> n);
          rec = rec\<lparr>acked_offset := Some tracked\<rparr>;
          duplicate = (\<not> (next_offset = 0 \<and> 0 < tracked) \<and> \<not> next_offset < tracked \<and>
                       next_offset = tracked \<and> map_option fst (last_sent rec) = Some next_offset);
          rec = (if next_offset = 0 \<and> 0 < tracked then restart_from 0 rec
                 else if next_offset < tracked then
                   (let rec = rec\<lparr>regressions := regressions rec + 1\<rparr>
                    in if SNAPSHOT_OFFSET_REGRESSION_REBASE < regressions rec then restart_from next_offset rec else rec)
                 else rec\<lparr>acked_offset := Some next_offset, regressions := 0\<rparr>);
          s = s\<lparr>snapshot_send := bm_insert from rec (snapshot_send s)\<rparr>
      in if duplicate then ([], s) else replicate_list sm from (Capped SNAPSHOT_ACK_RESEND_CAP) s)"

definition handle_install_snapshot_resp ::
  "('c, 's) StateMachine \<Rightarrow> NodeId \<Rightarrow> nat \<Rightarrow> nat \<Rightarrow> nat \<Rightarrow> nat \<Rightarrow> ('c, 's) RaftCore \<Rightarrow> 'c Out list \<times> ('c, 's) RaftCore" where
  "handle_install_snapshot_resp sm from t li next_offset now s =
     (if role s \<noteq> Leader \<or> t \<noteq> current_term s then ([], s)
      else
        let s = note_departing_reply from now s
        in if 0 < li then install_acknowledged sm from li s
           else case bm_get (snapshot_send s) from of
                  None \<Rightarrow> if next_offset = 0 then ([], s) else chunk_acknowledged sm from next_offset s
                | Some r \<Rightarrow>
                    if next_offset = 0 \<and> map_option fst (last_sent r) = Some 0
                    then install_refused sm from (offer_base r) s
                    else chunk_acknowledged sm from next_offset s)"

section \<open>The boot-time cluster check\<close>

definition next_cluster_check_resend :: "nat \<Rightarrow> nat \<Rightarrow> ('c, 's) RaftCore \<Rightarrow> nat" where
  "next_cluster_check_resend now entropy s =
     (let base = stretched_base s; extra = (if base = 0 then 0 else entropy mod base)
      in sat_add now (sat_add base extra))"

definition begin_cluster_check :: "nat \<Rightarrow> nat \<Rightarrow> ('c, 's) RaftCore \<Rightarrow> 'c Out list \<times> ('c, 's) RaftCore" where
  "begin_cluster_check now entropy s =
     (if cluster_check s = Refused then ([], s)
      else if peers s = [] then ([], s\<lparr>cluster_check := Idle\<rparr>)
      else let s = reset_election_timer now entropy s;
               s = s\<lparr>cluster_check := Pending (set (peers s)) (next_cluster_check_resend now entropy s) False\<rparr>
           in (broadcast_cluster_probe s, s))"

definition handle_cluster_probe :: "NodeId \<Rightarrow> ('c, 's) RaftCore \<Rightarrow> 'c Out list \<times> ('c, 's) RaftCore" where
  "handle_cluster_probe from s =
     ([(from, ClusterProbeResp (current_term s) (commit_index s) (config s) (from \<in> heard_from s))], s)"

definition handle_cluster_probe_resp ::
  "NodeId \<Rightarrow> nat \<Rightarrow> nat \<Rightarrow> NodeId set \<Rightarrow> bool \<Rightarrow> ('c, 's) RaftCore \<Rightarrow> 'c Out list \<times> ('c, 's) RaftCore" where
  "handle_cluster_probe_resp from t committed cfg heard s =
     (case cluster_check s of
        Pending awaiting resend_at saw_established \<Rightarrow>
          if t = 0 \<and> committed = 0 then ([], s\<lparr>cluster_check := Idle\<rparr>)
          else if node_id s \<notin> cfg then ([], s\<lparr>cluster_check := Idle\<rparr>)
          else let saw_established = (saw_established \<or> heard);
                   awaiting = awaiting - {from}
               in ([], s\<lparr>cluster_check := (if awaiting = {} then (if saw_established then Refused else Idle)
                                            else Pending awaiting resend_at saw_established)\<rparr>)
      | _ \<Rightarrow> ([], s))"

section \<open>Quiescence and removal\<close>

definition handle_quiesce :: "NodeId \<Rightarrow> nat \<Rightarrow> nat \<Rightarrow> ('c, 's) RaftCore \<Rightarrow> ('c, 's) RaftCore" where
  "handle_quiesce from t commit s =
     (if t = current_term s \<and> leader_id s = Some from \<and> last_log_index s = commit_index s \<and> commit_index s = commit
      then s\<lparr>quiesced := True\<rparr> else s)"

definition handle_wake_request :: "('c, 's) StateMachine \<Rightarrow> NodeId \<Rightarrow> ('c, 's) RaftCore \<Rightarrow> 'c Out list \<times> ('c, 's) RaftCore" where
  "handle_wake_request sm from s = (if role s \<noteq> Leader then ([], s) else replicate_list sm from Always s)"

definition bump_notices_ignored :: "('c, 's) RaftCore \<Rightarrow> ('c, 's) RaftCore" where
  "bump_notices_ignored s = s\<lparr>removal_stats := (removal_stats s)\<lparr>notices_ignored := notices_ignored (removal_stats s) + 1\<rparr>\<rparr>"

definition bump_notices_acked :: "('c, 's) RaftCore \<Rightarrow> ('c, 's) RaftCore" where
  "bump_notices_acked s = s\<lparr>removal_stats := (removal_stats s)\<lparr>notices_acked := notices_acked (removal_stats s) + 1\<rparr>\<rparr>"

definition handle_removed ::
  "NodeId \<Rightarrow> nat \<Rightarrow> EntryStamp \<Rightarrow> NodeId set \<Rightarrow> NodeId set \<Rightarrow> ('c, 's) RaftCore \<Rightarrow> 'c Out list \<times> ('c, 's) RaftCore" where
  "handle_removed from t removal cfg lrn s =
     (if t < current_term s then ([(from, RemovedAck (current_term s) 0)], bump_notices_ignored s)
      else if role s = Leader \<or> node_id s \<in> cfg \<or> node_id s \<in> lrn then ([], bump_notices_ignored s)
      else if (case latest_self_membership_stamp s of None \<Rightarrow> False | Some member \<Rightarrow> \<not> stamp_less member removal)
      then ([], bump_notices_ignored s)
      else ([(from, RemovedAck (current_term s) (snd removal))],
            s\<lparr>role := Follower, leader_id := Some from,
              removed_by_leader := Some (case removed_by_leader s of None \<Rightarrow> removal | Some r \<Rightarrow> stamp_max r removal)\<rparr>))"

definition handle_removed_ack :: "('c, 's) StateMachine \<Rightarrow> NodeId \<Rightarrow> nat \<Rightarrow> nat \<Rightarrow> ('c, 's) RaftCore \<Rightarrow> ('c, 's) RaftCore" where
  "handle_removed_ack sm from t removal_index s =
     (if role s \<noteq> Leader \<or> t \<noteq> current_term s then bump_notices_ignored s
      else if removal_index = 0 then bump_notices_ignored s
      else case bm_get (departing s) from of
             None \<Rightarrow> bump_notices_acked s
           | Some d \<Rightarrow>
               if removal_index < d_index (stamp d) then bump_notices_ignored s
               else
                 let s = note_departing_reply from (now_hint s) (bump_notices_acked s)
                 in if next_of s from \<le> snapshot_index s then drop_departing sm from s
                    else case bm_get (departing s) from of
                           None \<Rightarrow> s
                         | Some d \<Rightarrow> s\<lparr>departing := bm_insert from (d\<lparr>quiet := True\<rparr>) (departing s)\<rparr>)"

section \<open>Steps\<close>

definition wake :: "nat \<Rightarrow> ('c, 's) RaftCore \<Rightarrow> ('c, 's) RaftCore" where
  "wake now s = arm_lease_grace now (s\<lparr>quiesced := False, last_activity := now\<rparr>)"

text \<open>The higher-term step-down at the head of \<^verbatim>\<open>handle\<close>; pre-votes do not move the term.\<close>

definition adopt_term :: "'c RaftMsg \<Rightarrow> ('c, 's) RaftCore \<Rightarrow> ('c, 's) RaftCore" where
  "adopt_term msg s =
     (if (case msg of PreVote _ _ _ _ \<Rightarrow> False | PreVoteResp _ _ \<Rightarrow> False | _ \<Rightarrow> True) \<and> current_term s < msg_term msg
      then s\<lparr>current_term := msg_term msg, voted_for := None, vote_lease_lapsed := False, role := Follower,
             leader_id := None, last_leader_contact := None, transfer_target := None, snapshot_send := []\<rparr>
      else s)"

fun dispatch ::
  "('c, 's) StateMachine \<Rightarrow> NodeId \<Rightarrow> 'c RaftMsg \<Rightarrow> nat \<Rightarrow> nat \<Rightarrow> ('c, 's) RaftCore \<Rightarrow> 'c Out list \<times> ('c, 's) RaftCore" where
  "dispatch sm from (PreVote t candidate lli llt) now entropy s =
     (case stranger_notice candidate s of
        (notice, s) \<Rightarrow> (case handle_pre_vote candidate t lli llt now s of
                          (out, s) \<Rightarrow> (out @ (case notice of None \<Rightarrow> [] | Some m \<Rightarrow> [m]), s)))"
| "dispatch sm from (PreVoteResp t granted) now entropy s = handle_pre_vote_resp sm from t granted now entropy s"
| "dispatch sm from (RequestVote t candidate lli llt) now entropy s =
     (case stranger_notice candidate s of
        (notice, s) \<Rightarrow> (case handle_request_vote candidate t lli llt now entropy s of
                          (out, s) \<Rightarrow> (out @ (case notice of None \<Rightarrow> [] | Some m \<Rightarrow> [m]), s)))"
| "dispatch sm from (RequestVoteResp t granted) now entropy s = handle_vote_resp sm from t granted now s"
| "dispatch sm from (AppendEntries t leader pli plt es lc) now entropy s =
     handle_append_entries sm t leader pli plt es lc now entropy s"
| "dispatch sm from (AppendEntriesResp t success m needs check app) now entropy s =
     handle_append_resp sm from t success m needs check app now s"
| "dispatch sm from (InstallSnapshot t leader li lt off data tot fin cfg lrn) now entropy s =
     handle_install_snapshot sm t leader li lt off data tot fin cfg lrn now entropy s"
| "dispatch sm from (InstallSnapshotResp t li off) now entropy s = handle_install_snapshot_resp sm from t li off now s"
| "dispatch sm from (Heartbeat _) now entropy s = ([], s)"
| "dispatch sm from (TimeoutNow t) now entropy s = handle_timeout_now sm t now entropy s"
| "dispatch sm from ClusterProbe now entropy s = handle_cluster_probe from s"
| "dispatch sm from (ClusterProbeResp t ci cfg heard) now entropy s = handle_cluster_probe_resp from t ci cfg heard s"
| "dispatch sm from (Quiesce t ci) now entropy s = ([], handle_quiesce from t ci s)"
| "dispatch sm from (WakeRequest _) now entropy s = handle_wake_request sm from s"
| "dispatch sm from (Removed t ri rt cfg lrn) now entropy s = handle_removed from t (rt, ri) cfg lrn s"
| "dispatch sm from (RemovedAck t ri) now entropy s = ([], handle_removed_ack sm from t ri s)"

text \<open>The two messages that a quiesced core answers without waking, and the answers that wake it.\<close>

definition quiet_ack :: "NodeId \<Rightarrow> 'c RaftMsg \<Rightarrow> ('c, 's) RaftCore \<Rightarrow> bool" where
  "quiet_ack from msg s \<longleftrightarrow>
     quiesced s \<and> role s = Leader \<and>
     (case msg of AppendEntriesResp t success m needs check app \<Rightarrow>
        success \<and> \<not> needs \<and> \<not> check \<and> t = current_term s \<and> m \<le> peer_match s from
      | _ \<Rightarrow> False)"

definition quiet_heartbeat :: "'c RaftMsg \<Rightarrow> ('c, 's) RaftCore \<Rightarrow> bool" where
  "quiet_heartbeat msg s \<longleftrightarrow>
     quiesced s \<and> role s = Follower \<and>
     (case msg of AppendEntries t leader pli plt es lc \<Rightarrow>
        t = current_term s \<and> leader_id s = Some leader \<and> es = [] \<and> pli = last_log_index s
        \<and> lc \<le> commit_index s \<and> last_log_index s = commit_index s
      | _ \<Rightarrow> False)"

definition clean_ack :: "'c Out \<Rightarrow> bool" where
  "clean_ack o' = (case snd o' of AppendEntriesResp _ success _ needs _ _ \<Rightarrow> success \<and> \<not> needs | _ \<Rightarrow> False)"

definition ignored_vote :: "'c RaftMsg \<Rightarrow> nat \<Rightarrow> ('c, 's) RaftCore \<Rightarrow> NodeId option" where
  "ignored_vote msg now s =
     (case msg of RequestVote t candidate _ _ \<Rightarrow>
        if current_term s < t \<and> leader_lease now s \<and> transfer_target s \<noteq> Some candidate then Some candidate else None
      | _ \<Rightarrow> None)"

definition handle ::
  "('c, 's) StateMachine \<Rightarrow> NodeId \<Rightarrow> 'c RaftMsg \<Rightarrow> nat \<Rightarrow> nat \<Rightarrow> ('c, 's) RaftCore \<Rightarrow> 'c Out list \<times> ('c, 's) RaftCore" where
  "handle sm from msg now entropy s =
     (let s = s\<lparr>now_hint := now\<rparr>
      in case ignored_vote msg now s of
           Some candidate \<Rightarrow>
             let s = with_stats (\<lambda>c. c\<lparr>rv_ignored_lease := rv_ignored_lease c + 1\<rparr>) s;
                 s = s\<lparr>heard_from := insert candidate (heard_from s)\<rparr>
             in (case stranger_notice candidate s of
                   (notice, s) \<Rightarrow> ((case notice of None \<Rightarrow> [] | Some m \<Rightarrow> [m]), if quiesced s then wake now s else s))
         | None \<Rightarrow>
             let s = adopt_term msg s
             in if quiet_ack from msg s then
                  (case dispatch sm from msg now entropy s of
                     (out, s) \<Rightarrow> (out, if out \<noteq> [] then wake now s else s))
                else if quiet_heartbeat msg s then
                  (case dispatch sm from msg now entropy s of
                     (out, s) \<Rightarrow>
                       (out, if \<not> list_all clean_ack out \<or> last_log_index s \<noteq> commit_index s
                             then s\<lparr>quiesced := False, last_activity := now\<rparr> else s))
                else dispatch sm from msg now entropy (if quiesced s then wake now s else s))"

definition leader_tick :: "('c, 's) StateMachine \<Rightarrow> nat \<Rightarrow> 'c Out list \<Rightarrow> ('c, 's) RaftCore \<Rightarrow> 'c Out list \<times> ('c, 's) RaftCore" where
  "leader_tick sm now probes s =
     (let s = (if transfer_target s \<noteq> None \<and> transfer_deadline s \<le> now then s\<lparr>transfer_target := None\<rparr> else s)
      in if heartbeat_deadline s \<le> now then
           let s = expire_stale_departing sm now s
           in if \<not> quiesced s \<and> quiesce_entry_ok now s then (broadcast_quiesce s, s\<lparr>quiesced := True\<rparr>)
              else broadcast_append sm Backoff
                     (s\<lparr>heartbeat_deadline := sat_add now (heartbeat_nanos s),
                        last_leader_contact := Some (node_id s, now), had_leader_contact := True\<rparr>)
         else (probes, s))"

definition resend_probes :: "nat \<Rightarrow> nat \<Rightarrow> ('c, 's) RaftCore \<Rightarrow> 'c Out list \<times> ('c, 's) RaftCore" where
  "resend_probes now entropy s =
     (case cluster_check s of
        Pending awaiting resend_at saw \<Rightarrow>
          if resend_at \<le> now
          then (broadcast_cluster_probe s,
                s\<lparr>cluster_check := Pending awaiting (next_cluster_check_resend now entropy s) saw\<rparr>)
          else ([], s)
      | _ \<Rightarrow> ([], s))"

text \<open>The \<^verbatim>\<open>return\<close>s inside the role match leave the cluster probes collected before it unsent.\<close>

definition tick_gated :: "('c, 's) StateMachine \<Rightarrow> nat \<Rightarrow> nat \<Rightarrow> bool \<Rightarrow> ('c, 's) RaftCore \<Rightarrow> 'c Out list \<times> ('c, 's) RaftCore" where
  "tick_gated sm now entropy admit s =
     (case resend_probes now entropy (s\<lparr>now_hint := now\<rparr>) of
        (probes, s) \<Rightarrow>
          if role s = Leader then leader_tick sm now probes s
          else if election_deadline s \<le> now then
            (if \<not> admit \<and> campaign_due now s then ([], s\<lparr>campaign_hold := Some (sat_add now (election_base s))\<rparr>)
             else start_pre_vote sm now entropy s)
          else (probes, s))"

definition tick :: "('c, 's) StateMachine \<Rightarrow> nat \<Rightarrow> nat \<Rightarrow> ('c, 's) RaftCore \<Rightarrow> 'c Out list \<times> ('c, 's) RaftCore" where
  "tick sm now entropy s = tick_gated sm now entropy True s"

definition replicate_now :: "('c, 's) StateMachine \<Rightarrow> nat \<Rightarrow> ('c, 's) RaftCore \<Rightarrow> 'c Out list \<times> ('c, 's) RaftCore" where
  "replicate_now sm now s =
     (let s = s\<lparr>now_hint := now\<rparr>
      in if role s = Leader
         then broadcast_append sm (Capped 0) (s\<lparr>heartbeat_deadline := sat_add now (heartbeat_nanos s)\<rparr>)
         else ([], s))"

end
