(* ===== verification/Raft_Frames.thy ===== *)
theory Raft_Frames
  imports Raft_Core
begin

text \<open>
  What the operations of the consensus core leave alone. \<open>core_view\<close> collects the fields that safety
  rests on: identity, role, term, vote, configuration, log, snapshot base and write-ahead log. The
  lemmas of the collections \<open>frame\<close> and \<open>frame_assign\<close> say which operations and assignments keep all of them; \<open>core_viewD\<close> turns each
  into rewrite rules for the single fields.
\<close>

named_theorems frame
named_theorems frame_assign

definition core_view ::
  "('c, 's) RaftCore \<Rightarrow> (NodeId \<times> Role \<times> nat \<times> NodeId option \<times> NodeId set) \<times>
     (NodeId set \<times> nat \<times> NodeId list \<times> NodeId set \<times> NodeId set option) \<times> (NodeId set \<times> NodeId set \<times> NodeId set option) \<times>
     ('c LogEntry list \<times> nat \<times> nat) \<times> ('c, 's) WalRecord list \<times> (nat \<times> NodeId option) \<times> bool \<times> bool \<times> bool" where
  "core_view s =
     ((node_id s, role s, current_term s, voted_for s, votes s),
      (config s, cluster_size s, peers s, initial_config s, snapshot_config s),
      (learners s, initial_learners s, snapshot_learners s),
      (rlog s, snapshot_index s, snapshot_term s), pending s, persisted_hard s,
      install_rewrite_owed s, snapshot_dirty s, wal_records_install s)"

lemma core_viewD:
  assumes "core_view s = core_view s'"
  shows "node_id s = node_id s'" "role s = role s'" "current_term s = current_term s'"
    "voted_for s = voted_for s'" "votes s = votes s'" "config s = config s'" "cluster_size s = cluster_size s'"
    "peers s = peers s'" "initial_config s = initial_config s'" "snapshot_config s = snapshot_config s'"
    "learners s = learners s'" "initial_learners s = initial_learners s'" "snapshot_learners s = snapshot_learners s'"
    "rlog s = rlog s'" "snapshot_index s = snapshot_index s'" "snapshot_term s = snapshot_term s'"
    "pending s = pending s'" "persisted_hard s = persisted_hard s'"
    "install_rewrite_owed s = install_rewrite_owed s'" "wal_records_install s = wal_records_install s'"
    "snapshot_dirty s = snapshot_dirty s'"
  using assms by (auto simp: core_view_def)

lemma core_view_fold:
  assumes "\<And>x s. core_view (f x s) = core_view s"
  shows "core_view (fold f xs s) = core_view s"
  using assms by (induction xs arbitrary: s) auto

text \<open>Assignments to the other fields.\<close>

lemma core_view_assign [frame_assign]:
  "core_view (s\<lparr>config_history := x_0\<rparr>) = core_view s"
  "core_view (s\<lparr>vote_lease_lapsed := x_1\<rparr>) = core_view s"
  "core_view (s\<lparr>commit_index := x_2\<rparr>) = core_view s"
  "core_view (s\<lparr>last_applied := x_3\<rparr>) = core_view s"
  "core_view (s\<lparr>durable_index := x_4\<rparr>) = core_view s"
  "core_view (s\<lparr>leader_id := x_5\<rparr>) = core_view s"
  "core_view (s\<lparr>last_leader_contact := x_6\<rparr>) = core_view s"
  "core_view (s\<lparr>lease_grace_until := x_7\<rparr>) = core_view s"
  "core_view (s\<lparr>had_leader_contact := x_8\<rparr>) = core_view s"
  "core_view (s\<lparr>pre_votes := x_9\<rparr>) = core_view s"
  "core_view (s\<lparr>next_index := x_10\<rparr>) = core_view s"
  "core_view (s\<lparr>inflight_sent := x_11\<rparr>) = core_view s"
  "core_view (s\<lparr>match_index := x_12\<rparr>) = core_view s"
  "core_view (s\<lparr>snapshot_served_through := x_13\<rparr>) = core_view s"
  "core_view (s\<lparr>peer_check_pending := x_14\<rparr>) = core_view s"
  "core_view (s\<lparr>peer_recovered_at := x_15\<rparr>) = core_view s"
  "core_view (s\<lparr>peer_applied := x_16\<rparr>) = core_view s"
  "core_view (s\<lparr>local_applied := x_17\<rparr>) = core_view s"
  "core_view (s\<lparr>last_contact := x_18\<rparr>) = core_view s"
  "core_view (s\<lparr>leader_since := x_19\<rparr>) = core_view s"
  "core_view (s\<lparr>elected_at_commit := x_20\<rparr>) = core_view s"
  "core_view (s\<lparr>heard_from := x_21\<rparr>) = core_view s"
  "core_view (s\<lparr>transfer_target := x_22\<rparr>) = core_view s"
  "core_view (s\<lparr>transfer_deadline := x_23\<rparr>) = core_view s"
  "core_view (s\<lparr>departing := x_24\<rparr>) = core_view s"
  "core_view (s\<lparr>removal_stats := x_25\<rparr>) = core_view s"
  "core_view (s\<lparr>now_hint := x_26\<rparr>) = core_view s"
  "core_view (s\<lparr>removed_by_leader := x_27\<rparr>) = core_view s"
  "core_view (s\<lparr>term_start_index := x_28\<rparr>) = core_view s"
  "core_view (s\<lparr>snapshot_send := x_29\<rparr>) = core_view s"
  "core_view (s\<lparr>snapshot_chunk_advances := x_30\<rparr>) = core_view s"
  "core_view (s\<lparr>incoming_snapshot := x_31\<rparr>) = core_view s"
  "core_view (s\<lparr>election_base := x_32\<rparr>) = core_view s"
  "core_view (s\<lparr>heartbeat_interval := x_33\<rparr>) = core_view s"
  "core_view (s\<lparr>election_deadline := x_34\<rparr>) = core_view s"
  "core_view (s\<lparr>heartbeat_deadline := x_35\<rparr>) = core_view s"
  "core_view (s\<lparr>lag_stretch := x_36\<rparr>) = core_view s"
  "core_view (s\<lparr>campaign_hold := x_37\<rparr>) = core_view s"
  "core_view (s\<lparr>campaign_stats := x_38\<rparr>) = core_view s"
  "core_view (s\<lparr>round_started_at := x_39\<rparr>) = core_view s"
  "core_view (s\<lparr>round_window_ns := x_40\<rparr>) = core_view s"
  "core_view (s\<lparr>metadata := x_41\<rparr>) = core_view s"
  "core_view (s\<lparr>applied := x_42\<rparr>) = core_view s"
  "core_view (s\<lparr>pending_apply := x_43\<rparr>) = core_view s"
  "core_view (s\<lparr>snapshot_blob := x_45\<rparr>) = core_view s"
  "core_view (s\<lparr>snapshot_chunk_bytes := x_46\<rparr>) = core_view s"
  "core_view (s\<lparr>pending_install := x_47\<rparr>) = core_view s"
  "core_view (s\<lparr>snapshot_needed := x_48\<rparr>) = core_view s"
  "core_view (s\<lparr>state_machine_behind := x_49\<rparr>) = core_view s"
  "core_view (s\<lparr>storage_full := x_50\<rparr>) = core_view s"
  "core_view (s\<lparr>last_installed_index := x_51\<rparr>) = core_view s"
  "core_view (s\<lparr>quiesce_after := x_52\<rparr>) = core_view s"
  "core_view (s\<lparr>quiesced := x_53\<rparr>) = core_view s"
  "core_view (s\<lparr>last_activity := x_54\<rparr>) = core_view s"
  "core_view (s\<lparr>quiesce_engine_caught_up := x_55\<rparr>) = core_view s"
  "core_view (s\<lparr>quiesce_veto := x_56\<rparr>) = core_view s"
  "core_view (s\<lparr>quiesce_veto_fresh_through := x_57\<rparr>) = core_view s"
  "core_view (s\<lparr>cluster_check := x_58\<rparr>) = core_view s"
  "core_view (s\<lparr>group_label := x_59\<rparr>) = core_view s"
  "core_view (s\<lparr>log_omits_base := x_60\<rparr>) = core_view s"
  "core_view (s\<lparr>panicked := x_61\<rparr>) = core_view s"
  by (simp_all add: core_view_def)

lemma core_view_reset_election_timer [frame]: "core_view (reset_election_timer now entropy s) = core_view s"
  by (simp add: reset_election_timer_def Let_def core_view_def)

lemma core_view_arm_lease_grace [frame]: "core_view (arm_lease_grace now s) = core_view s"
  by (simp add: arm_lease_grace_def core_view_def)

lemma core_view_wake [frame]: "core_view (wake now s) = core_view s"
  unfolding wake_def core_view_arm_lease_grace by (simp add: core_view_def)

lemma core_view_forget_snapshot_transfer [frame]: "core_view (forget_snapshot_transfer sm p s) = core_view s"
  by (simp add: forget_snapshot_transfer_def Let_def core_view_def)

lemma core_view_clear_peer_progress [frame]: "core_view (clear_peer_progress sm n s) = core_view s"
  unfolding clear_peer_progress_def core_view_forget_snapshot_transfer by (simp add: core_view_def)

lemma core_view_start_peer_progress [frame]: "core_view (start_peer_progress sm i n s) = core_view s"
  unfolding start_peer_progress_def core_view_forget_snapshot_transfer by (simp add: core_view_def)

lemma core_view_reset_peer_progress [frame]:
  "core_view (reset_peer_progress_on_membership_change sm ms i s) = core_view s"
  by (simp add: reset_peer_progress_on_membership_change_def Let_def core_view_fold frame)

lemma core_view_drop_departing [frame]: "core_view (drop_departing sm p s) = core_view s"
  unfolding drop_departing_def Let_def core_view_clear_peer_progress by (simp add: core_view_def)

lemma core_view_note_departing_reply [frame]: "core_view (note_departing_reply p now s) = core_view s"
  by (simp add: note_departing_reply_def core_view_def split: option.split)

lemma core_view_refresh_removed_flag [frame]: "core_view (refresh_removed_flag s) = core_view s"
  by (simp add: refresh_removed_flag_def core_view_def split: option.split)

lemma core_view_depart_removed_peers [frame]: "core_view (depart_removed_peers ps e s) = core_view s"
  by (simp add: depart_removed_peers_def core_view_def)

lemma core_view_maybe_advance_commit [frame]: "core_view (maybe_advance_commit s) = core_view s"
  by (simp add: maybe_advance_commit_def core_view_def)

lemma core_view_apply_entry [frame]: "core_view (apply_entry sm s) = core_view s"
  by (simp add: apply_entry_def Let_def core_view_def)

lemma core_view_apply_to [frame]: "core_view (apply_to sm f s) = core_view s"
  by (induction sm f s rule: apply_to.induct) (subst apply_to.simps, simp add: frame)

lemma core_view_apply_committed [frame]: "core_view (apply_committed sm s) = core_view s"
  by (simp add: apply_committed_def frame)

lemma core_view_mark_durable_through [frame]: "core_view (mark_durable_through sm n s) = core_view s"
  by (simp add: mark_durable_through_def frame frame_assign)

lemma core_view_with_stats [frame]: "core_view (with_stats f s) = core_view s"
  by (simp add: with_stats_def core_view_def)

lemma core_view_notices [frame]:
  "core_view (bump_notices_sent s) = core_view s" "core_view (bump_notices_ignored s) = core_view s"
  "core_view (bump_notices_acked s) = core_view s"
  by (simp_all add: bump_notices_sent_def bump_notices_ignored_def bump_notices_acked_def core_view_def)

lemma core_view_departing_send_gate [frame]: "core_view (snd (departing_send_gate p s)) = core_view s"
  by (simp add: departing_send_gate_def core_view_def Let_def split: option.split prod.split)

lemma core_view_stranger_notice [frame]: "core_view (snd (stranger_notice c s)) = core_view s"
  by (simp add: stranger_notice_def frame split: option.split)

lemma core_view_expire_stale_departing [frame]: "core_view (expire_stale_departing sm now s) = core_view s"
  by (simp add: expire_stale_departing_def Let_def core_view_fold frame frame_assign)

lemma core_view_backoff_gate [frame]: "core_view (snd (backoff_gate p off s)) = core_view s"
  by (simp add: backoff_gate_def Let_def core_view_def)

lemma core_view_send_chunk [frame]: "core_view (snd (send_chunk p blob off n s)) = core_view s"
  by (simp add: send_chunk_def Let_def core_view_def)

lemma core_view_snapshot_chunk_for [frame]: "core_view (snd (snapshot_chunk_for p r s)) = core_view s"
proof -
  have gate: "core_view s' = core_view s" if "backoff_gate p off s = (b, s')" for off b s'
    using core_view_backoff_gate [of p off s] that by simp
  have "core_view (s\<lparr>snapshot_needed := True\<rparr>) = core_view s" by (simp add: core_view_def)
  then show ?thesis
    by (auto simp: snapshot_chunk_for_def Let_def frame gate split: option.split SnapshotResend.split prod.split bool.split)
qed

lemma core_view_append_for [frame]: "core_view (snd (append_for p r n s)) = core_view s"
  by (simp add: append_for_def Let_def core_view_def)

lemma core_view_replicate_to [frame]: "core_view (snd (replicate_to sm p r s)) = core_view s"
proof (cases "departing_send_gate p s")
  case (Pair b s')
  then have v: "core_view s' = core_view s" using core_view_departing_send_gate [of p s] by simp
  have "core_view (s'\<lparr>snapshot_needed := True\<rparr>) = core_view s'" by (simp add: core_view_def)
  then show ?thesis
    using Pair v core_view_snapshot_chunk_for [of p r s'] core_view_append_for
    by (simp add: replicate_to_def Let_def frame split: option.split bool.split)
qed

lemma core_view_replicate_list [frame]: "core_view (snd (replicate_list sm p r s)) = core_view s"
  using core_view_replicate_to [of sm p r s]
  by (cases "replicate_to sm p r s") (auto simp: replicate_list_def split: option.split)

lemma core_view_replicate_peers [frame]: "core_view (snd (replicate_peers sm ps r s)) = core_view s"
proof (induction ps arbitrary: s)
  case (Cons p ps)
  obtain o1 s1 where 1: "replicate_list sm p r s = (o1, s1)" by fastforce
  obtain o2 s2 where 2: "replicate_peers sm ps r s1 = (o2, s2)" by fastforce
  show ?case using Cons [of s1] core_view_replicate_list [of sm p r s] by (simp add: 1 2)
qed simp

lemma core_view_broadcast_append [frame]: "core_view (snd (broadcast_append sm r s)) = core_view s"
proof -
  let ?ps = "peers s @ sorted_list_of_set (learners s) @ map fst (departing s)"
  obtain outs s' where "replicate_peers sm ?ps r s = (outs, s')" by fastforce
  then show ?thesis
    using core_view_replicate_peers [of sm ?ps r s] by (simp add: broadcast_append_def split: option.split)
qed

text \<open>The single fields, as rewrite rules.\<close>

lemmas frame_simps [simp] =
  frame [THEN core_viewD(1)]
  frame [THEN core_viewD(2)]
  frame [THEN core_viewD(3)]
  frame [THEN core_viewD(4)]
  frame [THEN core_viewD(5)]
  frame [THEN core_viewD(6)]
  frame [THEN core_viewD(7)]
  frame [THEN core_viewD(8)]
  frame [THEN core_viewD(9)]
  frame [THEN core_viewD(10)]
  frame [THEN core_viewD(11)]
  frame [THEN core_viewD(12)]
  frame [THEN core_viewD(13)]
  frame [THEN core_viewD(14)]
  frame [THEN core_viewD(15)]
  frame [THEN core_viewD(16)]
  frame [THEN core_viewD(17)]
  frame [THEN core_viewD(18)]
  frame [THEN core_viewD(19)]
  frame [THEN core_viewD(20)]
  frame [THEN core_viewD(21)]

section \<open>Messages of the sending side\<close>

text \<open>What the replication functions may send: no vote traffic, and only entries of the own log and the own
  snapshot configuration.\<close>

fun own_replication :: "('c, 's) RaftCore \<Rightarrow> 'c RaftMsg \<Rightarrow> bool" where
  "own_replication s (AppendEntries t l pli plt es lc) =
     (t = current_term s \<and> l = node_id s \<and> snapshot_index s \<le> pli \<and> plt = term_at s pli \<and>
      (\<exists>k. es = take k (filter (\<lambda>e. pli < e_index e) (rlog s))))"
| "own_replication s (InstallSnapshot t l li lt off data tot fin cfg lrn) =
     (t = current_term s \<and> l = node_id s \<and> cfg = snapshot_config s)"
| "own_replication s (TimeoutNow t) = True"
| "own_replication s (Removed t ri rt cfg lrn) = True"
| "own_replication s _ = False"

lemma own_replication_view:
  assumes "core_view s = core_view s'"
  shows "own_replication s m = own_replication s' m"
proof -
  have "rlog s = rlog s'" "snapshot_index s = snapshot_index s'" "snapshot_term s = snapshot_term s'"
    using core_viewD [OF assms] by blast+
  then have "term_at s = term_at s'" by (intro ext) (simp only: term_at_def)
  then show ?thesis using core_viewD [OF assms] by (cases m) simp_all
qed

lemma removal_notice_kind: "removal_notice_for p d s = Some m \<Longrightarrow> own_replication s' m"
  by (auto simp: removal_notice_for_def split: if_splits)

lemma send_chunk_msgs: "fst (send_chunk p blob off n s) = Some m \<Longrightarrow> own_replication s (snd m)"
  by (auto simp: send_chunk_def Let_def)

lemma snapshot_chunk_for_msgs: "fst (snapshot_chunk_for p r s) = Some m \<Longrightarrow> own_replication s (snd m)"
proof -
  have gate: "core_view s' = core_view s" if "backoff_gate p off s = (b, s')" for off b s'
    using core_view_backoff_gate [of p off s] that by simp
  have "\<And>off n blob s' b. backoff_gate p off s = (b, s') \<Longrightarrow> fst (send_chunk p blob off n s') = Some m \<Longrightarrow> own_replication s (snd m)"
    using send_chunk_msgs own_replication_view gate by metis
  then show "fst (snapshot_chunk_for p r s) = Some m \<Longrightarrow> own_replication s (snd m)"
    by (auto simp: snapshot_chunk_for_def Let_def intro: send_chunk_msgs split: option.splits SnapshotResend.splits if_splits prod.splits bool.splits)
qed

lemma take_filter_subset: "set (take k (filter P xs)) \<subseteq> set xs"
  by (meson filter_is_subset order.trans set_take_subset)

lemma append_for_msgs:
  assumes "fst (append_for p r n s) = Some m" and "snapshot_index s < n"
  shows "own_replication s (snd m)"
proof -
  have f: "filter (\<lambda>e. n \<le> e_index e) (rlog s) = filter (\<lambda>e. n - Suc 0 < e_index e) (rlog s)"
    using assms(2) by (intro filter_cong) auto
  obtain es where m: "snd m = AppendEntries (current_term s) (node_id s) (n - 1) (term_at s (n - 1)) es (commit_index s)"
    and "es = [] \<or> es = take MAX_APPEND_ENTRIES_BATCH (filter (\<lambda>e. n \<le> e_index e) (rlog s))"
    using assms(1) by (auto simp: append_for_def Let_def split: if_splits)
  then have "\<exists>k. es = take k (filter (\<lambda>e. n - 1 < e_index e) (rlog s))" using f by (metis One_nat_def take_0)
  then show ?thesis using m assms(2) by auto
qed

lemma replicate_to_msgs: "fst (replicate_to sm p r s) = Some m \<Longrightarrow> own_replication s (snd m)"
proof -
  obtain b s' where g: "departing_send_gate p s = (b, s')" by fastforce
  then have "core_view s' = core_view s" using core_view_departing_send_gate [of p s] by simp
  then have v: "own_replication s x = own_replication s' x" for x using own_replication_view by metis
  show "fst (replicate_to sm p r s) = Some m \<Longrightarrow> own_replication s (snd m)"
    unfolding v
    by (auto simp: replicate_to_def g Let_def intro: snapshot_chunk_for_msgs append_for_msgs removal_notice_kind
        split: if_splits option.splits bool.splits)
qed

lemma replicate_list_msgs: "m \<in> set (fst (replicate_list sm p r s)) \<Longrightarrow> own_replication s (snd m)"
  using replicate_to_msgs [of sm p r s] by (cases "replicate_to sm p r s") (auto simp: replicate_list_def split: option.splits)

lemma replicate_peers_msgs: "m \<in> set (fst (replicate_peers sm ps r s)) \<Longrightarrow> own_replication s (snd m)"
proof (induction ps arbitrary: s)
  case (Cons p ps)
  obtain o1 s1 where 1: "replicate_list sm p r s = (o1, s1)" by fastforce
  obtain o2 s2 where 2: "replicate_peers sm ps r s1 = (o2, s2)" by fastforce
  have v: "core_view s1 = core_view s" using core_view_replicate_list [of sm p r s] 1 by simp
  from Cons.prems have "m \<in> set o1 \<or> m \<in> set o2" by (simp add: 1 2)
  then show ?case
    using Cons.IH [of s1] replicate_list_msgs [of m sm p r s] own_replication_view [OF v] 1 2 by auto
qed simp

lemma broadcast_append_msgs: "m \<in> set (fst (broadcast_append sm r s)) \<Longrightarrow> own_replication s (snd m)"
proof -
  let ?ps = "peers s @ sorted_list_of_set (learners s) @ map fst (departing s)"
  obtain outs s' where "replicate_peers sm ?ps r s = (outs, s')" by fastforce
  then show "m \<in> set (fst (broadcast_append sm r s)) \<Longrightarrow> own_replication s (snd m)"
    using replicate_peers_msgs [of m sm ?ps r s] by (auto simp: broadcast_append_def split: option.splits if_splits)
qed

end
