(* ===== verification/Raft_Progress.thy ===== *)
theory Raft_Progress
  imports Raft_Frames
begin

text \<open>
  What the consensus core gets done: the commit index moves to the highest entry the commit rule allows,
  the apply loop ends with every committed entry handed over in order, and a snapshot transfer between a
  leader and a follower ends with the follower holding the leader's image.
\<close>

section \<open>The commit rule\<close>

text \<open>An entry may be committed when it is of the current term and on a majority, the leader included.\<close>

definition committable :: "('c, 's) RaftCore \<Rightarrow> nat \<Rightarrow> bool" where
  "committable s n \<longleftrightarrow>
     term_at s n = current_term s \<and> majority s \<le> 1 + length (filter (\<lambda>p. n \<le> peer_match s p) (peers s))"

definition committables :: "('c, 's) RaftCore \<Rightarrow> nat \<Rightarrow> nat set" where
  "committables s n = {m. commit_index s < m \<and> m \<le> n \<and> committable s m}"

lemma committables_step:
  "commit_index s < n \<Longrightarrow>
   committables s n = (if committable s n then insert n (committables s (n - 1)) else committables s (n - 1))"
proof -
  assume c: "commit_index s < n"
  then have "m \<le> n \<longleftrightarrow> m = n \<or> m \<le> n - 1" for m by arith
  then show ?thesis using c by (auto simp: committables_def)
qed

lemma finite_committables [simp]: "finite (committables s n)"
  by (rule finite_subset [of _ "{..n}"]) (auto simp: committables_def)

lemma commit_search_Max: "commit_search s n = Max (insert (commit_index s) (committables s n))"
proof (induction s n rule: commit_search.induct)
  case (1 s n)
  show ?case
  proof (cases "commit_index s < n")
    case False
    then have "committables s n = {}" by (auto simp: committables_def)
    then show ?thesis using False by (simp add: commit_search.simps [of s n])
  next
    case True
    show ?thesis
    proof (cases "committable s n")
      case c: True
      have "Max (insert (commit_index s) (committables s n)) = n"
        using True c by (intro Max_eqI) (auto simp: committables_def)
      then show ?thesis using True c by (simp add: commit_search.simps [of s n] committable_def)
    next
      case c: False
      then have "commit_search s n = commit_search s (n - 1)"
        using True by (subst commit_search.simps) (auto simp: committable_def)
      also have "\<dots> = Max (insert (commit_index s) (committables s (n - 1)))"
        by (rule 1 [OF True c [unfolded committable_def]])
      finally show ?thesis using True c by (simp add: committables_step)
    qed
  qed
qed

text \<open>C6: The commit index after it is advanced is the greatest of the old one and the indices of
  the log whose entry is of the current term and replicated on a majority; nothing else changes.\<close>
theorem commit_rule:
  "maybe_advance_commit s =
     s\<lparr>commit_index := Max (insert (commit_index s)
        {m. commit_index s < m \<and> m \<le> last_log_index s \<and> term_at s m = current_term s \<and>
            majority s \<le> 1 + length (filter (\<lambda>p. m \<le> peer_match s p) (peers s))})\<rparr>"
  unfolding maybe_advance_commit_def commit_search_Max committables_def committable_def by simp

section \<open>The apply loop\<close>

definition entries_between :: "nat \<Rightarrow> nat \<Rightarrow> ('c, 's) RaftCore \<Rightarrow> 'c LogEntry list" where
  "entries_between a b s = drop (a - snapshot_index s) (take (b - snapshot_index s) (rlog s))"

definition hand_over :: "('c, 's) StateMachine \<Rightarrow> nat \<Rightarrow> 'c LogEntry list \<Rightarrow> ('c, 's) RaftCore \<Rightarrow> ('c, 's) RaftCore" where
  "hand_over sm from es s =
     (if DRIVER_APPLIED sm
      then s\<lparr>last_applied := from + length es,
             pending_apply := pending_apply s @ map (\<lambda>(i, e). (i, e_term e, e_command e)) (zip [Suc from..<Suc from + length es] es)\<rparr>
      else s\<lparr>last_applied := from + length es, metadata := fold (sm_apply sm) (map e_command es) (metadata s),
             applied := applied s @ map e_command es\<rparr>)"

lemma entries_between_step:
  assumes "snapshot_index s \<le> a" and "a < b" and "b \<le> snapshot_index s + length (rlog s)"
  shows "entries_between a b s = rlog s ! (a - snapshot_index s) # entries_between (Suc a) b s"
proof -
  have "a - snapshot_index s < length (take (b - snapshot_index s) (rlog s))" using assms by simp
  from Cons_nth_drop_Suc [OF this] show ?thesis using assms by (simp add: entries_between_def Suc_diff_le)
qed

lemma hand_over_step: "hand_over sm (Suc a) es (hand_over sm a [e] s) = hand_over sm a (e # es) s"
  by (simp add: hand_over_def upt_conv_Cons del: upt_Suc)

lemma apply_entry_hand_over:
  assumes "snapshot_index s \<le> last_applied s" and "last_applied s < snapshot_index s + length (rlog s)"
  shows "apply_entry sm s = hand_over sm (last_applied s) [rlog s ! (last_applied s - snapshot_index s)] s"
  using assms by (simp add: apply_entry_def hand_over_def Let_def)

lemma hand_over_fields [simp]:
  "last_applied (hand_over sm a es s) = a + length es" "rlog (hand_over sm a es s) = rlog s"
  "snapshot_index (hand_over sm a es s) = snapshot_index s" "panicked (hand_over sm a es s) = panicked s"
  by (simp_all add: hand_over_def)

lemma apply_to_hand_over:
  assumes "\<not> panicked s" and "snapshot_index s \<le> last_applied s" and "last_applied s \<le> frontier"
    and "frontier \<le> snapshot_index s + length (rlog s)"
  shows "apply_to sm frontier s = hand_over sm (last_applied s) (entries_between (last_applied s) frontier s) s"
  using assms
proof (induction sm frontier s rule: apply_to.induct)
  case (1 sm frontier s)
  show ?case
  proof (cases "last_applied s < frontier")
    case False
    then have "last_applied s = frontier" using 1(4) by simp
    then show ?thesis
      by (simp add: apply_to.simps [of sm frontier s] hand_over_def entries_between_def)
  next
    case True
    let ?e = "rlog s ! (last_applied s - snapshot_index s)"
    have step: "apply_entry sm s = hand_over sm (last_applied s) [?e] s"
      using apply_entry_hand_over 1(3,5) True by fastforce
    have "apply_to sm frontier s = apply_to sm frontier (hand_over sm (last_applied s) [?e] s)"
      using True 1(2) step by (simp add: apply_to.simps [of sm frontier s])
    also have "\<dots> = hand_over sm (Suc (last_applied s))
        (entries_between (Suc (last_applied s)) frontier s) (hand_over sm (last_applied s) [?e] s)"
      using 1(1) [unfolded step] True 1(2-5) by (simp add: entries_between_def)
    also have "\<dots> = hand_over sm (last_applied s) (entries_between (last_applied s) frontier s) s"
      using entries_between_step [of s "last_applied s" frontier] True 1(3,5) by (simp add: hand_over_step)
    finally show ?thesis .
  qed
qed

definition entry_of :: "('c, 's) RaftCore \<Rightarrow> nat \<Rightarrow> 'c LogEntry" where
  "entry_of s i = rlog s ! (i - snapshot_index s - 1)"

lemma entries_between_map:
  assumes "snapshot_index s \<le> a" and "a \<le> b" and "b \<le> snapshot_index s + length (rlog s)"
  shows "entries_between a b s = map (entry_of s) [Suc a..<Suc b]"
  using assms by (intro nth_equalityI) (auto simp: entries_between_def entry_of_def simp del: upt_Suc intro!: arg_cong [where f = "(!) (rlog s)"])

lemma zip_map_id: "zip xs (map f xs) = map (\<lambda>x. (x, f x)) xs"
  by (induction xs) simp_all

text \<open>C5: The apply loop always ends. When the committed entries are in the log it ends with the applied
  index at the frontier (the commit index, and for a leader no further than its durable entries), and
  every entry in between was handed over once and in order: to the driver's queue, or to the state
  machine itself.\<close>
theorem apply_completes:
  assumes "\<not> panicked s" and "snapshot_index s \<le> last_applied s"
    and "last_applied s \<le> (if role s = Leader then min (commit_index s) (durable_index s) else commit_index s)"
    and "commit_index s \<le> snapshot_index s + length (rlog s)"
  shows "let f = (if role s = Leader then min (commit_index s) (durable_index s) else commit_index s);
             new = map (entry_of s) [Suc (last_applied s)..<Suc f];
             s' = apply_committed sm s
         in last_applied s' = f \<and> \<not> panicked s' \<and>
            (if DRIVER_APPLIED sm
             then pending_apply s' = pending_apply s @ map (\<lambda>i. (i, e_term (entry_of s i), e_command (entry_of s i))) [Suc (last_applied s)..<Suc f]
             else metadata s' = fold (sm_apply sm) (map e_command new) (metadata s) \<and> applied s' = applied s @ map e_command new)"
proof -
  define f where "f = (if role s = Leader then min (commit_index s) (durable_index s) else commit_index s)"
  have f: "last_applied s \<le> f" "f \<le> snapshot_index s + length (rlog s)" using assms(3,4) by (auto simp: f_def)
  let ?new = "map (entry_of s) [Suc (last_applied s)..<Suc f]"
  have l: "last_applied s + length ?new = f" using f by (simp del: upt_Suc)
  have a: "apply_committed sm s = hand_over sm (last_applied s) ?new s"
    unfolding apply_committed_def f_def [symmetric] using apply_to_hand_over [OF assms(1,2) f] entries_between_map [OF assms(2) f] by simp
  have z: "zip [Suc (last_applied s)..<Suc (last_applied s) + length ?new] ?new = map (\<lambda>i. (i, entry_of s i)) [Suc (last_applied s)..<Suc f]"
    using l by (simp add: zip_map_id del: upt_Suc)
  show ?thesis
    unfolding f_def [symmetric] Let_def a using l z assms(1) by (simp add: hand_over_def o_def del: upt_Suc)
qed

definition sum_sm :: "(nat, nat) StateMachine" where
  "sum_sm = \<lparr>sm_default = 0, sm_apply = (\<lambda>c n. n + c), sm_noop = 0, DRIVER_APPLIED = False,
     sm_to_vec = (\<lambda>_. []), sm_from_slice = (\<lambda>_. Some 0)\<rparr>"

definition two_sums :: "(nat, nat) RaftCore" where
  "two_sums = (core_init sum_sm ''a'' [''a''] 0)
     \<lparr>rlog := [\<lparr>e_term = 1, e_index = 1, e_command = 3, e_config = None, e_learners = None\<rparr>,
               \<lparr>e_term = 1, e_index = 2, e_command = 4, e_config = None, e_learners = None\<rparr>], commit_index := 2\<rparr>"

lemma two_sums_fields:
  "\<not> panicked two_sums" "snapshot_index two_sums = 0" "last_applied two_sums = 0" "role two_sums = Follower"
  "commit_index two_sums = 2" "length (rlog two_sums) = 2" "metadata two_sums = 0" "\<not> DRIVER_APPLIED sum_sm"
  "sm_apply sum_sm = (\<lambda>c n. n + c)" "map (e_command \<circ> entry_of two_sums) [Suc 0..<3] = [3, 4]"
  by (simp_all add: two_sums_def core_init_def sum_sm_def entry_of_def upt_rec)

theorem apply_completes_witness:
  "last_applied (apply_committed sum_sm two_sums) = 2 \<and> metadata (apply_committed sum_sm two_sums) = 7"
  using apply_completes [of two_sums sum_sm] two_sums_fields by (simp add: Let_def del: upt_Suc)

section \<open>Snapshot transfer\<close>

text \<open>What a leader and a follower hold while an image is on its way: the offer, and how far it got.\<close>

record Offer =
  o_leader :: NodeId
  o_peer :: NodeId
  o_term :: nat
  o_base :: nat
  o_base_term :: nat
  o_image :: bytes
  o_chunk :: nat
  o_config :: "NodeId set option"
  o_learners :: "NodeId set option"

definition chunk_stop :: "Offer \<Rightarrow> nat \<Rightarrow> nat" where
  "chunk_stop x off = min (off + o_chunk x) (length (o_image x))"

definition chunk_msg :: "Offer \<Rightarrow> nat \<Rightarrow> 'c RaftMsg" where
  "chunk_msg x off =
     InstallSnapshot (o_term x) (o_leader x) (o_base x) (o_base_term x) off
       (take (chunk_stop x off - off) (drop off (o_image x))) (length (o_image x)) (chunk_stop x off = length (o_image x))
       (o_config x) (o_learners x)"

definition offers :: "Offer \<Rightarrow> ('c, 's) RaftCore \<Rightarrow> bool" where
  "offers x s \<longleftrightarrow>
     role s = Leader \<and> current_term s = o_term x \<and> node_id s = o_leader x \<and> snapshot_index s = o_base x \<and>
     snapshot_term s = o_base_term x \<and> snapshot_blob s = Some (o_image x) \<and> snapshot_chunk_bytes s = o_chunk x \<and>
     snapshot_config s = o_config x \<and> snapshot_learners s = o_learners x \<and> bm_get (departing s) (o_peer x) = None \<and>
     next_of s (o_peer x) \<le> o_base x \<and> 0 < o_base x \<and> 0 < o_chunk x"

definition sent_upto :: "Offer \<Rightarrow> nat \<Rightarrow> ('c, 's) RaftCore \<Rightarrow> bool" where
  "sent_upto x off s \<longleftrightarrow>
     offers x s \<and>
     (\<exists>r. bm_get (snapshot_send s) (o_peer x) = Some r \<and>
          (case acked_offset r of None \<Rightarrow> 0 | Some n \<Rightarrow> n) = off \<and> map_option fst (last_sent r) = Some off)"

definition holds_upto :: "Offer \<Rightarrow> nat \<Rightarrow> ('c, 's) RaftCore \<Rightarrow> bool" where
  "holds_upto x off s \<longleftrightarrow>
     current_term s \<le> o_term x \<and> last_installed_index s \<noteq> Some (o_base x) \<and> last_applied s < o_base x \<and>
     incoming_snapshot s =
       (if off = 0 then None
        else Some \<lparr>inc_last_index = o_base x, inc_last_term = o_base_term x, inc_total = length (o_image x),
                   inc_buf = take off (o_image x)\<rparr>)"

text \<open>The head of \<open>handle\<close> for the two messages of a transfer.\<close>

definition rouse :: "nat \<Rightarrow> ('c, 's) RaftCore \<Rightarrow> ('c, 's) RaftCore" where
  "rouse now s = (if quiesced s then wake now s else s)"

lemma handle_install:
  "handle sm from (InstallSnapshot t leader li lt off data tot fin cfg lrn) now entropy s =
     handle_install_snapshot sm t leader li lt off data tot fin cfg lrn now entropy
       (rouse now (adopt_term (InstallSnapshot t leader li lt off data tot fin cfg lrn) (s\<lparr>now_hint := now\<rparr>)))"
  "handle sm from (InstallSnapshotResp t li off) now entropy s =
     handle_install_snapshot_resp sm from t li off now (rouse now (adopt_term (InstallSnapshotResp t li off) (s\<lparr>now_hint := now\<rparr>)))"
  by (simp_all add: handle_def ignored_vote_def quiet_ack_def quiet_heartbeat_def Let_def rouse_def)

lemma rouse_fields [simp]:
  "role (rouse now s) = role s" "current_term (rouse now s) = current_term s" "node_id (rouse now s) = node_id s"
  "snapshot_index (rouse now s) = snapshot_index s" "snapshot_term (rouse now s) = snapshot_term s"
  "snapshot_blob (rouse now s) = snapshot_blob s" "snapshot_chunk_bytes (rouse now s) = snapshot_chunk_bytes s"
  "snapshot_config (rouse now s) = snapshot_config s" "snapshot_learners (rouse now s) = snapshot_learners s"
  "departing (rouse now s) = departing s" "next_index (rouse now s) = next_index s" "snapshot_send (rouse now s) = snapshot_send s"
  "last_installed_index (rouse now s) = last_installed_index s" "last_applied (rouse now s) = last_applied s"
  "incoming_snapshot (rouse now s) = incoming_snapshot s" "match_index (rouse now s) = match_index s"
  by (simp_all add: rouse_def wake_def arm_lease_grace_def Let_def)

lemma adopt_term_same: "msg_term m \<le> current_term s \<Longrightarrow> adopt_term m s = s"
  by (simp add: adopt_term_def)

lemma note_departing_reply_none: "bm_get (departing s) p = None \<Longrightarrow> note_departing_reply p now s = s"
  by (simp add: note_departing_reply_def)

lemma offers_rouse: "offers x s \<Longrightarrow> offers x (rouse now (s\<lparr>now_hint := now\<rparr>))"
  by (simp add: offers_def next_of_def)

lemma handle_resp:
  assumes "offers x s"
  shows "handle sm (o_peer x) (InstallSnapshotResp (o_term x) li n) now entropy s =
    (let s = rouse now (s\<lparr>now_hint := now\<rparr>)
     in if 0 < li then install_acknowledged sm (o_peer x) li s
        else case bm_get (snapshot_send s) (o_peer x) of
               None \<Rightarrow> if n = 0 then ([], s) else chunk_acknowledged sm (o_peer x) n s
             | Some r \<Rightarrow>
                 if n = 0 \<and> map_option fst (last_sent r) = Some 0
                 then install_refused sm (o_peer x) (offer_base r) s
                 else chunk_acknowledged sm (o_peer x) n s)"
  using assms unfolding handle_install
  by (simp add: adopt_term_same offers_def handle_install_snapshot_resp_def note_departing_reply_none Let_def)

text \<open>The leader's next chunk.\<close>

lemma sends_chunk:
  assumes "offers x s" and "off \<le> length (o_image x)"
    and "(case Option.bind (bm_get (snapshot_send s) (o_peer x)) acked_offset of None \<Rightarrow> 0 | Some n \<Rightarrow> n) = off"
    and "chunk_resends (o_peer x) off s = 0"
  shows "\<exists>s'. replicate_list sm (o_peer x) (Capped cap) s = ([(o_peer x, chunk_msg x off)], s') \<and> sent_upto x off s'"
    "\<exists>s'. replicate_list sm (o_peer x) Always s = ([(o_peer x, chunk_msg x off)], s') \<and> sent_upto x off s'"
  using assms
  by (auto simp: replicate_list_def replicate_to_def departing_send_gate_def offers_def snapshot_chunk_for_def chunk_offset_def
      send_chunk_def Let_def chunk_msg_def chunk_stop_def sent_upto_def next_of_def send_record_def snapshot_send_default_def split: option.splits)

lemma next_chunk:
  assumes "sent_upto x off s" and "off < n" and "n \<le> length (o_image x)"
  shows "\<exists>s'. handle sm (o_peer x) (InstallSnapshotResp (o_term x) 0 n) now entropy s = ([(o_peer x, chunk_msg x n)], s') \<and> sent_upto x n s'"
proof -
  let ?y = "rouse now (s\<lparr>now_hint := now\<rparr>)"
  obtain r where r: "offers x s" "bm_get (snapshot_send s) (o_peer x) = Some r"
      "(case acked_offset r of None \<Rightarrow> 0 | Some n \<Rightarrow> n) = off" "map_option fst (last_sent r) = Some off"
    using assms(1) by (auto simp: sent_upto_def)
  let ?r = "r\<lparr>acked_offset := Some n, regressions := 0\<rparr>"
  let ?z = "?y\<lparr>snapshot_send := bm_insert (o_peer x) ?r (snapshot_send ?y)\<rparr>"
  have h: "handle sm (o_peer x) (InstallSnapshotResp (o_term x) 0 n) now entropy s = chunk_acknowledged sm (o_peer x) n ?y"
    using r assms(2) by (simp add: handle_resp)
  have a: "chunk_acknowledged sm (o_peer x) n ?y = replicate_list sm (o_peer x) (Capped SNAPSHOT_ACK_RESEND_CAP) ?z"
    using r(2,3,4) assms(2) by (simp add: chunk_acknowledged_def send_record_def Let_def)
  have "offers x ?z" using offers_rouse [OF r(1), of now] by (simp add: offers_def next_of_def)
  moreover have "chunk_resends (o_peer x) n ?z = 0" using r(4) assms(2) by (auto simp: chunk_resends_def)
  ultimately show ?thesis unfolding h a using assms(3) by (intro sends_chunk(1)) simp_all
qed

text \<open>The follower's side.\<close>

lemma follow_leader_fields [simp]:
  "current_term (follow_leader l now entropy s) = current_term s" "last_applied (follow_leader l now entropy s) = last_applied s"
  "last_installed_index (follow_leader l now entropy s) = last_installed_index s"
  "incoming_snapshot (follow_leader l now entropy s) = incoming_snapshot s"
  by (simp_all add: follow_leader_def reset_election_timer_def Let_def)

lemma config_change_fields [simp]:
  "snapshot_index (recompute_config s) = snapshot_index s" "snapshot_index (refresh_removed_flag s) = snapshot_index s"
  "snapshot_term (recompute_config s) = snapshot_term s" "snapshot_term (refresh_removed_flag s) = snapshot_term s"
  "last_applied (recompute_config s) = last_applied s" "last_applied (refresh_removed_flag s) = last_applied s"
  "current_term (recompute_config s) = current_term s" "current_term (refresh_removed_flag s) = current_term s"
  by (simp_all add: recompute_config_def apply_config_def Let_def refresh_removed_flag_def split: option.split)

lemma install_base_fields [simp]:
  "snapshot_index (install_base li lt cfg lrn s) = li" "snapshot_term (install_base li lt cfg lrn s) = lt"
  "last_applied (install_base li lt cfg lrn s) = li" "current_term (install_base li lt cfg lrn s) = current_term s"
  by (simp_all add: install_base_def Let_def)

definition buffered :: "Offer \<Rightarrow> nat \<Rightarrow> IncomingSnapshot" where
  "buffered x off = \<lparr>inc_last_index = o_base x, inc_last_term = o_base_term x, inc_total = length (o_image x),
                     inc_buf = take off (o_image x)\<rparr>"

lemma buffers_chunk:
  assumes "off \<le> length (o_image x)"
  shows "buffer_chunk (o_base x) (o_base_term x) off (take (chunk_stop x off - off) (drop off (o_image x)))
           (length (o_image x)) (if off = 0 then None else Some (buffered x off)) = Some (buffered x (chunk_stop x off))"
proof -
  have "take off (o_image x) @ take (chunk_stop x off - off) (drop off (o_image x)) = take (chunk_stop x off) (o_image x)"
    using assms take_add [of off "chunk_stop x off - off" "o_image x"] by (simp add: chunk_stop_def)
  then show ?thesis using assms by (simp add: buffer_chunk_def buffered_def Let_def)
qed

lemma follower_buffers:
  assumes "holds_upto x off s" and "off \<le> length (o_image x)"
  shows "\<exists>y. current_term y = o_term x \<and> last_installed_index y \<noteq> Some (o_base x) \<and> last_applied y < o_base x \<and>
           incoming_snapshot y = Some (buffered x (chunk_stop x off)) \<and>
           handle sm from (chunk_msg x off) now entropy s =
             (if chunk_stop x off = length (o_image x)
              then install_complete sm (o_leader x) (buffered x (chunk_stop x off)) (o_config x) (o_learners x) y
              else ([(o_leader x, InstallSnapshotResp (o_term x) 0 (chunk_stop x off))], y))"
proof -
  define m where "m = (chunk_msg x off :: 'a RaftMsg)"
  define u where "u = rouse now (adopt_term m (s\<lparr>now_hint := now\<rparr>))"
  define v where "v = follow_leader (o_leader x) now entropy (u\<lparr>heard_from := insert (o_leader x) (heard_from u)\<rparr>)"
  have h: "current_term s \<le> o_term x" "last_installed_index s \<noteq> Some (o_base x)" "last_applied s < o_base x"
    "incoming_snapshot s = (if off = 0 then None else Some (buffered x off))"
    using assms(1) by (simp_all add: holds_upto_def buffered_def)
  have u: "current_term u = o_term x" "last_installed_index u = last_installed_index s" "last_applied u = last_applied s"
      "incoming_snapshot u = incoming_snapshot s"
    using h(1) by (simp_all add: u_def m_def adopt_term_def chunk_msg_def)
  have v: "current_term v = o_term x" "last_installed_index v \<noteq> Some (o_base x)" "last_applied v < o_base x"
      "incoming_snapshot v = incoming_snapshot s"
    using u h by (simp_all add: v_def)
  define y where "y = v\<lparr>incoming_snapshot := Some (buffered x (chunk_stop x off))\<rparr>"
  have b: "buffer_chunk (o_base x) (o_base_term x) off (take (chunk_stop x off - off) (drop off (o_image x)))
           (length (o_image x)) (incoming_snapshot v) = Some (buffered x (chunk_stop x off))"
    unfolding v(4) h(4) by (rule buffers_chunk [OF assms(2)])
  have y: "current_term y = o_term x" "last_installed_index y \<noteq> Some (o_base x)" "last_applied y < o_base x"
      "incoming_snapshot y = Some (buffered x (chunk_stop x off))"
    using v by (simp_all add: y_def)
  have l: "length (inc_buf (buffered x (chunk_stop x off))) = chunk_stop x off" "inc_total (buffered x (chunk_stop x off)) = length (o_image x)"
    by (simp_all add: buffered_def chunk_stop_def)
  have "handle sm from m now entropy s =
     (if chunk_stop x off = length (o_image x)
      then install_complete sm (o_leader x) (buffered x (chunk_stop x off)) (o_config x) (o_learners x) y
      else ([(o_leader x, InstallSnapshotResp (o_term x) 0 (chunk_stop x off))], y))"
    unfolding m_def chunk_msg_def handle_install
    unfolding chunk_msg_def [symmetric] m_def [symmetric] u_def [symmetric] handle_install_snapshot_def Let_def
    unfolding v_def [symmetric] b y_def [symmetric] using u(1) v(2,3) y l by simp
  then show ?thesis using y unfolding m_def by blast
qed

lemma takes_chunk:
  assumes "holds_upto x off s" and "off \<le> length (o_image x)" and "chunk_stop x off \<noteq> length (o_image x)" and "0 < o_chunk x"
  shows "\<exists>s'. handle sm from (chunk_msg x off) now entropy s =
           ([(o_leader x, InstallSnapshotResp (o_term x) 0 (chunk_stop x off))], s') \<and> holds_upto x (chunk_stop x off) s'"
proof -
  have "0 < chunk_stop x off" using assms(2-) by (auto simp: chunk_stop_def min_def)
  then show ?thesis
    using follower_buffers [OF assms(1,2), of sm "from" now entropy] assms(3) by (auto simp: holds_upto_def buffered_def)
qed

lemma takes_last_chunk:
  assumes "holds_upto x off s" and "off \<le> length (o_image x)" and "chunk_stop x off = length (o_image x)" and "DRIVER_APPLIED sm"
  shows "\<exists>s'. handle sm from (chunk_msg x off) now entropy s =
           ([(o_leader x, InstallSnapshotResp (o_term x) (o_base x) (length (o_image x)))], s') \<and>
           pending_install s' = Some (o_base x, o_image x) \<and> snapshot_index s' = o_base x \<and> snapshot_term s' = o_base_term x \<and>
           last_applied s' = o_base x"
proof -
  obtain y where y: "current_term y = o_term x" "handle sm from (chunk_msg x off) now entropy s =
      install_complete sm (o_leader x) (buffered x (chunk_stop x off)) (o_config x) (o_learners x) y"
    using follower_buffers [OF assms(1,2), of sm "from" now entropy] assms(3) by auto
  let ?z = "(install_base (o_base x) (o_base_term x) (o_config x) (o_learners x)
      (y\<lparr>incoming_snapshot := None, last_installed_index := Some (o_base x)\<rparr>))\<lparr>snapshot_blob := None, pending_install := Some (o_base x, o_image x)\<rparr>"
  have "install_complete sm (o_leader x) (buffered x (chunk_stop x off)) (o_config x) (o_learners x) y =
      ([(o_leader x, InstallSnapshotResp (current_term ?z) (o_base x) (length (o_image x)))], ?z)"
    using assms(3,4) by (simp only: install_complete_def Let_def if_True) (simp add: buffered_def)
  then show ?thesis using y by (intro exI [of _ ?z]) simp
qed

text \<open>The leader hears that the image arrived.\<close>

lemma match_index_apply_to [simp]:
  "match_index (apply_to sm f s) = match_index s \<and> departing (apply_to sm f s) = departing s"
proof (induction sm f s rule: apply_to.induct)
  case (1 sm f s)
  then show ?case by (subst (1 2) apply_to.simps) (simp add: apply_entry_def Let_def)
qed

lemma match_index_apply_committed [simp]:
  "match_index (apply_committed sm s) = match_index s" "departing (apply_committed sm s) = departing s"
  by (simp_all add: apply_committed_def)

lemma match_index_forget [simp]:
  "match_index (forget_snapshot_transfer sm p s) = match_index s" "departing (forget_snapshot_transfer sm p s) = departing s"
  by (simp_all add: forget_snapshot_transfer_def Let_def)

lemma match_index_send_chunk [simp]: "match_index (snd (send_chunk p img off n s)) = match_index s"
  by (simp add: send_chunk_def Let_def)

lemma match_index_snapshot_chunk_for [simp]: "match_index (snd (snapshot_chunk_for p r s)) = match_index s"
  by (simp add: snapshot_chunk_for_def Let_def backoff_gate_def split: option.split SnapshotResend.split prod.split bool.split)

lemma match_index_replicate_list:
  assumes "bm_get (departing s) p = None"
  shows "match_index (snd (replicate_list sm p r s)) = match_index s"
proof -
  have "match_index (snd (replicate_to sm p r s)) = match_index s"
    using assms by (simp add: replicate_to_def departing_send_gate_def append_for_def Let_def)
  moreover have "snd (replicate_list sm p r s) = snd (replicate_to sm p r s)"
    by (simp add: replicate_list_def split: prod.split option.split)
  ultimately show ?thesis by simp
qed

lemma match_index_install_acknowledged:
  assumes "bm_get (departing s) p = None"
  shows "li \<le> peer_match (snd (install_acknowledged sm p li s)) p"
proof -
  define a where "a = forget_snapshot_transfer sm p s"
  define b where "b = a\<lparr>match_index := bm_insert p (max (peer_match a p) li) (match_index a)\<rparr>"
  define c where "c = b\<lparr>next_index := bm_insert p (max (next_of b p) (li + 1)) (next_index b)\<rparr>"
  define d where "d = c\<lparr>snapshot_served_through := bm_insert p (max (served_of c p) li) (snapshot_served_through c)\<rparr>"
  define e where "e = apply_committed sm (maybe_advance_commit d)"
  have e: "match_index e = match_index b" "bm_get (departing e) p = None"
    using assms by (simp_all add: e_def d_def c_def b_def a_def maybe_advance_commit_def)
  have "install_acknowledged sm p li s = (if next_of e p \<le> last_log_index e then replicate_list sm p Always e else ([], e))"
    unfolding install_acknowledged_def Let_def a_def [symmetric] b_def [symmetric] c_def [symmetric] d_def [symmetric] e_def [symmetric]
    using e(2) by simp
  then have "match_index (snd (install_acknowledged sm p li s)) = match_index b"
    using match_index_replicate_list [OF e(2)] e(1) by simp
  then show ?thesis by (simp add: peer_match_def b_def)
qed

lemma hears_completion:
  assumes "offers x s"
  shows "o_base x \<le> peer_match (snd (handle sm (o_peer x) (InstallSnapshotResp (o_term x) (o_base x) n) now entropy s)) (o_peer x)"
  using match_index_install_acknowledged [of "rouse now (s\<lparr>now_hint := now\<rparr>)" "o_peer x" "o_base x" sm] assms
  unfolding handle_resp [OF assms] by (simp add: offers_def Let_def)

section \<open>A transfer completes\<close>

text \<open>Rounds of a transfer over a network that delivers: the follower handles the message, the leader the
  answer.\<close>

fun exchange ::
  "('c, 's) StateMachine \<Rightarrow> NodeId \<Rightarrow> NodeId \<Rightarrow> (nat \<Rightarrow> nat \<times> nat) \<Rightarrow> nat \<Rightarrow> 'c Out list \<Rightarrow>
   ('c, 's) RaftCore \<Rightarrow> ('c, 's) RaftCore \<Rightarrow> ('c, 's) RaftCore \<times> ('c, 's) RaftCore" where
  "exchange sm l p clock 0 outs ls fs = (ls, fs)"
| "exchange sm l p clock (Suc k) outs ls fs =
     (case outs of
        [] \<Rightarrow> (ls, fs)
      | (_, msg) # _ \<Rightarrow>
          (case handle sm l msg (fst (clock 0)) (snd (clock 0)) fs of
             ([], fs) \<Rightarrow> (ls, fs)
           | ((_, reply) # _, fs) \<Rightarrow>
               (case handle sm p reply (fst (clock 0)) (snd (clock 0)) ls of
                  (outs, ls) \<Rightarrow> exchange sm l p (\<lambda>i. clock (Suc i)) k outs ls fs)))"

lemma exchange_completes:
  assumes "sent_upto x off ls" and "holds_upto x off fs" and "off \<le> length (o_image x)" and "DRIVER_APPLIED sm"
  shows "\<exists>k ls' fs'. k \<le> length (o_image x) - off + 1 \<and>
           exchange sm (o_leader x) (o_peer x) clock k [(o_peer x, chunk_msg x off)] ls fs = (ls', fs') \<and>
           pending_install fs' = Some (o_base x, o_image x) \<and> snapshot_index fs' = o_base x \<and> snapshot_term fs' = o_base_term x \<and>
           o_base x \<le> peer_match ls' (o_peer x)"
  using assms
proof (induction "length (o_image x) - off" arbitrary: off ls fs clock rule: less_induct)
  case less
  have pos: "offers x ls" "0 < o_chunk x" using less(2) by (auto simp: sent_upto_def offers_def)
  show ?case
  proof (cases "chunk_stop x off = length (o_image x)")
    case True
    obtain fs' where f: "handle sm (o_leader x) (chunk_msg x off) (fst (clock 0)) (snd (clock 0)) fs =
        ([(o_leader x, InstallSnapshotResp (o_term x) (o_base x) (length (o_image x)))], fs')"
        "pending_install fs' = Some (o_base x, o_image x)" "snapshot_index fs' = o_base x" "snapshot_term fs' = o_base_term x"
      using takes_last_chunk [OF less(3,4) True less(5)] by blast
    show ?thesis
      using f hears_completion [OF pos(1), of sm "length (o_image x)" "fst (clock 0)" "snd (clock 0)"]
      by (intro exI [of _ 1]) (simp add: case_prod_beta)
  next
    case False
    let ?n = "chunk_stop x off"
    have n: "off < ?n" "?n \<le> length (o_image x)" using False less(4) pos(2) by (auto simp: chunk_stop_def min_def split: if_splits)
    obtain fs' where f: "handle sm (o_leader x) (chunk_msg x off) (fst (clock 0)) (snd (clock 0)) fs =
        ([(o_leader x, InstallSnapshotResp (o_term x) 0 ?n)], fs')" "holds_upto x ?n fs'"
      using takes_chunk [OF less(3,4) False pos(2)] by blast
    obtain ls' where l: "handle sm (o_peer x) (InstallSnapshotResp (o_term x) 0 ?n) (fst (clock 0)) (snd (clock 0)) ls =
        ([(o_peer x, chunk_msg x ?n)], ls')" "sent_upto x ?n ls'"
      using next_chunk [OF less(2) n] by blast
    have "length (o_image x) - ?n < length (o_image x) - off" using n by simp
    from less(1) [OF this l(2) f(2) n(2) less(5), of "\<lambda>i. clock (Suc i)"]
    obtain k ls2 fs2 where r: "k \<le> length (o_image x) - ?n + 1"
        "exchange sm (o_leader x) (o_peer x) (\<lambda>i. clock (Suc i)) k [(o_peer x, chunk_msg x ?n)] ls' fs' = (ls2, fs2)"
        "pending_install fs2 = Some (o_base x, o_image x)" "snapshot_index fs2 = o_base x" "snapshot_term fs2 = o_base_term x"
        "o_base x \<le> peer_match ls2 (o_peer x)"
      by blast
    have "exchange sm (o_leader x) (o_peer x) clock (Suc k) [(o_peer x, chunk_msg x off)] ls fs = (ls2, fs2)"
      using f(1) l(1) r(2) by simp
    moreover have "Suc k \<le> length (o_image x) - off + 1" using r(1) n by simp
    ultimately show ?thesis using r(3-) by blast
  qed
qed

text \<open>C4: A snapshot transfer completes. A leader with an image to offer and a follower that lacks it, joined by
  a network that delivers, need at most one round per byte and one more until the follower holds exactly
  the leader's image at the leader's base and the leader knows that it does, whatever the chunk size and
  the clocks.\<close>
theorem snapshot_transfer_completes:
  assumes "DRIVER_APPLIED sm" and "role ls = Leader" and "snapshot_blob ls = Some img" and "0 < snapshot_chunk_bytes ls"
    and "next_of ls p \<le> snapshot_index ls" and "0 < snapshot_index ls" and "bm_get (departing ls) p = None"
    and "bm_get (snapshot_send ls) p = None"
    and "current_term fs \<le> current_term ls" and "last_applied fs < snapshot_index ls"
    and "last_installed_index fs \<noteq> Some (snapshot_index ls)" and "incoming_snapshot fs = None"
    and "replicate_list sm p Always ls = (outs, ls1)"
  shows "\<exists>k ls' fs'. k \<le> length img + 1 \<and> exchange sm (node_id ls) p clock k outs ls1 fs = (ls', fs') \<and>
           pending_install fs' = Some (snapshot_index ls, img) \<and>
           snapshot_index fs' = snapshot_index ls \<and> snapshot_term fs' = snapshot_term ls \<and>
           snapshot_index ls \<le> peer_match ls' p"
proof -
  define x where "x = \<lparr>o_leader = node_id ls, o_peer = p, o_term = current_term ls, o_base = snapshot_index ls,
    o_base_term = snapshot_term ls, o_image = img, o_chunk = snapshot_chunk_bytes ls,
    o_config = snapshot_config ls, o_learners = snapshot_learners ls\<rparr>"
  have o: "offers x ls" using assms by (simp add: offers_def x_def)
  have "\<exists>s'. replicate_list sm (o_peer x) Always ls = ([(o_peer x, chunk_msg x 0)], s') \<and> sent_upto x 0 s'"
    using assms(8) by (intro sends_chunk(2) [OF o]) (simp_all add: x_def chunk_resends_def)
  then have s: "outs = [(o_peer x, chunk_msg x 0)]" "sent_upto x 0 ls1" using assms(13) by (auto simp: x_def)
  have "holds_upto x 0 fs" using assms(9-12) by (simp add: holds_upto_def x_def)
  from exchange_completes [OF s(2) this _ assms(1), of clock] show ?thesis unfolding s(1) by (simp add: x_def)
qed

definition relay_sm :: "(nat, nat) StateMachine" where
  "relay_sm = sum_sm\<lparr>DRIVER_APPLIED := True\<rparr>"

definition sender :: "(nat, nat) RaftCore" where
  "sender = (core_init relay_sm ''a'' [''a'', ''b''] 0)\<lparr>role := Leader, current_term := 1, snapshot_index := 3, snapshot_term := 1,
     snapshot_blob := Some [7, 8, 9], snapshot_chunk_bytes := 2\<rparr>"

definition receiver :: "(nat, nat) RaftCore" where
  "receiver = core_init relay_sm ''b'' [''a'', ''b''] 0"

lemma sender_fields:
  "DRIVER_APPLIED relay_sm" "role sender = Leader" "snapshot_blob sender = Some [7, 8, 9]" "0 < snapshot_chunk_bytes sender"
  "next_of sender ''b'' \<le> snapshot_index sender" "snapshot_index sender = 3" "bm_get (departing sender) ''b'' = None"
  "bm_get (snapshot_send sender) ''b'' = None" "current_term receiver \<le> current_term sender" "last_applied receiver < snapshot_index sender"
  "last_installed_index receiver \<noteq> Some (snapshot_index sender)" "incoming_snapshot receiver = None" "node_id sender = ''a''"
  by (simp_all add: sender_def receiver_def core_init_def relay_sm_def next_of_def)

theorem snapshot_transfer_completes_witness:
  "\<exists>k ls' fs'. k \<le> 4 \<and>
     exchange relay_sm ''a'' ''b'' (\<lambda>_. (0, 0)) k (fst (replicate_list relay_sm ''b'' Always sender))
       (snd (replicate_list relay_sm ''b'' Always sender)) receiver = (ls', fs') \<and>
     pending_install fs' = Some (3, [7, 8, 9]) \<and> 3 \<le> peer_match ls' ''b''"
proof -
  obtain outs ls1 where r: "replicate_list relay_sm ''b'' Always sender = (outs, ls1)" by fastforce
  have "0 < snapshot_index sender" by (simp add: sender_fields)
  from snapshot_transfer_completes [OF sender_fields(1-5) this sender_fields(7-12) r, of "\<lambda>_. (0, 0)"]
  show ?thesis unfolding r by (auto simp: sender_fields numeral_eq_Suc)
qed

end
