(* ===== verification/Raft_Votes.thy ===== *)
theory Raft_Votes
  imports Raft_Frames
begin

text \<open>
  Votes of the consensus core: what one step of \<^verbatim>\<open>RaftCore\<close> may do to the term, the vote, the candidacy
  and the outbound vote traffic, for a fixed set of voters. The predicate \<open>vote_ok\<close> is the contract of
  a step; the lemmas show it for every handler, the tick and the proposals, and that contracts
  compose.
\<close>

section \<open>The contract of a step\<close>

definition hard :: "('c, 's) RaftCore \<Rightarrow> nat \<times> NodeId option" where
  "hard s = (current_term s, voted_for s)"

text \<open>Terms only grow, and within a term a cast vote stays.\<close>

definition hard_le :: "nat \<times> NodeId option \<Rightarrow> nat \<times> NodeId option \<Rightarrow> bool" where
  "hard_le h h' \<longleftrightarrow> fst h < fst h' \<or> (fst h = fst h' \<and> (snd h = None \<or> snd h = snd h'))"

definition promised :: "nat \<Rightarrow> NodeId \<Rightarrow> nat \<times> NodeId option \<Rightarrow> bool" where
  "promised t c h \<longleftrightarrow> t < fst h \<or> (fst h = t \<and> snd h = Some c)"

lemma hard_le_refl [simp]: "hard_le h h"
  by (simp add: hard_le_def)

lemma hard_le_trans: "hard_le a b \<Longrightarrow> hard_le b c \<Longrightarrow> hard_le a c"
  by (auto simp: hard_le_def)

lemma promised_mono: "promised t c h \<Longrightarrow> hard_le h h' \<Longrightarrow> promised t c h'"
  by (auto simp: promised_def hard_le_def)

lemma promised_unique: "promised t c h \<Longrightarrow> promised t c' h \<Longrightarrow> fst h = t \<Longrightarrow> c = c'"
  by (auto simp: promised_def)

text \<open>The voters are fixed: nothing in the log or the snapshot changes them.\<close>

definition cfg_in :: "NodeId set \<Rightarrow> NodeId set option \<Rightarrow> bool" where
  "cfg_in N c \<longleftrightarrow> c = None \<or> c = Some N"

fun record_cfg :: "NodeId set \<Rightarrow> ('c, 's) WalRecord \<Rightarrow> bool" where
  "record_cfg N (Append e) = cfg_in N (e_config e)"
| "record_cfg N (Snapshot m i t cfg lrn) = cfg_in N cfg"
| "record_cfg N _ = True"

definition cfg_ok :: "NodeId set \<Rightarrow> ('c, 's) RaftCore \<Rightarrow> bool" where
  "cfg_ok N s \<longleftrightarrow> config s = N \<and> cluster_size s = card N \<and> initial_config s = N \<and> cfg_in N (snapshot_config s)
     \<and> (\<forall>e \<in> set (rlog s). cfg_in N (e_config e)) \<and> (\<forall>r \<in> set (pending s). record_cfg N r)"

fun msg_cfg_ok :: "NodeId set \<Rightarrow> 'c RaftMsg \<Rightarrow> bool" where
  "msg_cfg_ok N (AppendEntries t l pli plt es lc) = (\<forall>e \<in> set es. cfg_in N (e_config e))"
| "msg_cfg_ok N (InstallSnapshot t l li lt off data tot fin cfg lrn) = cfg_in N cfg"
| "msg_cfg_ok N _ = True"

definition candidacy :: "('c, 's) RaftCore \<Rightarrow> bool" where
  "candidacy s \<longleftrightarrow> role s = Candidate \<or> role s = Leader"

definition cand_ok :: "('c, 's) RaftCore \<Rightarrow> bool" where
  "cand_ok s \<longleftrightarrow>
     (candidacy s \<longrightarrow> voted_for s = Some (node_id s) \<and> node_id s \<in> votes s \<and> votes s \<subseteq> config s) \<and>
     (role s = Leader \<longrightarrow> majority s \<le> card (votes s))"

text \<open>An outbound message of node \<open>i\<close> with hard state \<open>h\<close>. \<open>asked\<close> is the vote request the step
  answers, if it answers one.\<close>

definition out_ok :: "NodeId set \<Rightarrow> (nat \<times> NodeId) option \<Rightarrow> NodeId \<Rightarrow> nat \<times> NodeId option \<Rightarrow> 'c Out \<Rightarrow> bool" where
  "out_ok N asked i h out \<longleftrightarrow>
     msg_cfg_ok N (snd out) \<and>
     (case snd out of
        RequestVote t c _ _ \<Rightarrow> c = i \<and> h = (t, Some c)
      | RequestVoteResp t granted \<Rightarrow> granted \<longrightarrow> h = (t, Some (fst out)) \<and> asked = Some (t, fst out)
      | _ \<Rightarrow> True)"

definition vote_ok ::
  "NodeId set \<Rightarrow> (nat \<times> NodeId) option \<Rightarrow> (nat \<times> NodeId) option \<Rightarrow> ('c, 's) RaftCore \<Rightarrow> 'c Out list \<Rightarrow> ('c, 's) RaftCore \<Rightarrow> bool" where
  "vote_ok N asked granted s outs s' \<longleftrightarrow>
     node_id s' = node_id s \<and> cfg_ok N s' \<and> cand_ok s' \<and> hard_le (hard s) (hard s') \<and>
     (candidacy s' \<longrightarrow> (\<forall>v \<in> votes s'. v = node_id s \<or> granted = Some (current_term s', v) \<or>
        (candidacy s \<and> current_term s = current_term s' \<and> v \<in> votes s))) \<and>
     (\<forall>out \<in> set outs. out_ok N asked (node_id s) (hard s') out)"

section \<open>Composition\<close>

lemma vote_okD:
  assumes "vote_ok N asked granted s outs s'"
  shows "node_id s' = node_id s" "cfg_ok N s'" "cand_ok s'" "hard_le (hard s) (hard s')"
  using assms by (simp_all add: vote_ok_def)

lemma vote_ok_trans_nil:
  assumes "vote_ok N asked granted s [] s'" and "vote_ok N asked granted s' outs s''"
  shows "vote_ok N asked granted s outs s''"
proof -
  have h: "hard_le (hard s') (hard s'')" "hard_le (hard s) (hard s')" using assms vote_okD(4) by blast+
  have le: "hard_le (hard s) (hard s'')" using h hard_le_trans by blast
  have i: "node_id s' = node_id s" "node_id s'' = node_id s" using assms vote_okD(1) by metis+
  have o2: "\<forall>out \<in> set outs. out_ok N asked (node_id s) (hard s'') out"
    using assms(2) i unfolding vote_ok_def by simp
  have v: "\<forall>v \<in> votes s''. v = node_id s \<or> granted = Some (current_term s'', v) \<or>
      (candidacy s \<and> current_term s = current_term s'' \<and> v \<in> votes s)" if "candidacy s''"
  proof
    fix v assume "v \<in> votes s''"
    with that assms(2) i consider "v = node_id s" | "granted = Some (current_term s'', v)"
      | "candidacy s'" "current_term s' = current_term s''" "v \<in> votes s'" unfolding vote_ok_def by auto
    then show "v = node_id s \<or> granted = Some (current_term s'', v) \<or>
        (candidacy s \<and> current_term s = current_term s'' \<and> v \<in> votes s)"
      using assms(1) unfolding vote_ok_def by cases auto
  qed
  show ?thesis
    unfolding vote_ok_def using i(2) le v o2 vote_okD(2,3) [OF assms(2)] by blast
qed

lemma cfg_ok_view: "core_view s = core_view s' \<Longrightarrow> cfg_ok N s = cfg_ok N s'"
  by (auto simp: core_view_def cfg_ok_def)

lemma cand_ok_view: "core_view s = core_view s' \<Longrightarrow> cand_ok s = cand_ok s'"
  by (auto simp: core_view_def cand_ok_def candidacy_def majority_def)

text \<open>Steps that keep the vote state, whatever they do to the log.\<close>

lemma vote_ok_keep:
  assumes "node_id s' = node_id s" "role s' = role s" "current_term s' = current_term s" "voted_for s' = voted_for s"
    "votes s' = votes s" and "cfg_ok N s'" and "cfg_ok N s" and "cand_ok s" and "\<forall>out \<in> set outs. out_ok N asked (node_id s) (hard s') out"
  shows "vote_ok N asked granted s outs s'"
  using assms by (simp add: vote_ok_def cand_ok_def candidacy_def majority_def hard_def cfg_ok_def)

text \<open>Steps that end in a role without a candidacy.\<close>

lemma vote_ok_follow:
  assumes "node_id s' = node_id s" and "\<not> candidacy s'" and "hard_le (hard s) (hard s')" and "cfg_ok N s'"
    and "\<forall>out \<in> set outs. out_ok N asked (node_id s) (hard s') out"
  shows "vote_ok N asked granted s outs s'"
  using assms by (auto simp: vote_ok_def cand_ok_def candidacy_def)

lemma own_replication_out_ok:
  assumes "own_replication s (snd out)" and "cfg_ok N s"
  shows "out_ok N asked i h out"
  using assms take_filter_subset by (cases "snd out") (fastforce simp: out_ok_def cfg_ok_def)+

lemma vote_ok_view:
  assumes "core_view s' = core_view s" and "cfg_ok N s" and "cand_ok s" and "\<forall>out \<in> set outs. out_ok N asked (node_id s) (hard s') out"
  shows "vote_ok N asked granted s outs s'"
  using core_viewD [OF assms(1)] cfg_ok_view [OF assms(1)] assms by (intro vote_ok_keep) auto

section \<open>The log and the configuration\<close>

definition vote_view :: "('c, 's) RaftCore \<Rightarrow> NodeId \<times> Role \<times> nat \<times> NodeId option \<times> NodeId set" where
  "vote_view s = (node_id s, role s, current_term s, voted_for s, votes s)"

lemma vote_view_core: "core_view s' = core_view s \<Longrightarrow> vote_view s' = vote_view s"
  by (simp add: core_view_def vote_view_def)

lemma vote_viewD:
  assumes "vote_view s' = vote_view s"
  shows "node_id s' = node_id s" "role s' = role s" "current_term s' = current_term s"
    "voted_for s' = voted_for s" "votes s' = votes s"
  using assms by (simp_all add: vote_view_def)

lemma config_entry_upto_mem: "config_entry_upto s i = Some e \<Longrightarrow> e \<in> set (rlog s)"
  by (auto simp: config_entry_upto_def find_Some_iff) (metis length_rev nth_mem set_rev)

lemma config_at_fixed: "cfg_ok N s \<Longrightarrow> config_at s i = N"
  by (auto simp: config_at_def cfg_ok_def cfg_in_def dest!: config_entry_upto_mem split: option.split bind_splits)

lemma vote_view_apply_config: "vote_view (apply_config voters lrn s) = vote_view s"
  by (simp add: apply_config_def Let_def vote_view_def)

lemma cfg_ok_apply_config: "cfg_ok N s \<Longrightarrow> cfg_ok N (apply_config N lrn s)"
  by (auto simp: apply_config_def Let_def cfg_ok_def)

lemma vote_view_recompute_config: "vote_view (recompute_config s) = vote_view s"
  by (simp add: recompute_config_def vote_view_apply_config)

lemma vote_view_log_truncate: "vote_view (log_truncate k s) = vote_view s"
  unfolding log_truncate_def Let_def vote_view_recompute_config by (simp add: vote_view_def)

lemma vote_view_update [simp]:
  "vote_view (s\<lparr>departing := d\<rparr>) = vote_view s" "vote_view (s\<lparr>pending := p, rlog := l\<rparr>) = vote_view s"
  by (simp_all add: vote_view_def)

lemma cfg_ok_departing [simp]: "cfg_ok N (s\<lparr>departing := d\<rparr>) = cfg_ok N s"
  by (simp add: cfg_ok_def)

lemma cfg_ok_push:
  "cfg_ok N s \<Longrightarrow> cfg_in N (e_config e) \<Longrightarrow> cfg_ok N (s\<lparr>pending := pending s @ [Append e], rlog := rlog s @ [e]\<rparr>)"
  by (simp add: cfg_ok_def)

lemma cfg_ok_cut:
  "cfg_ok N s \<Longrightarrow> cfg_ok N (s\<lparr>rlog := take k (rlog s), durable_index := d, pending := pending s @ [Truncate k]\<rparr>)"
  using set_take_subset [of k "rlog s"] by (auto simp: cfg_ok_def)

lemma cfg_ok_recompute_config: "cfg_ok N s \<Longrightarrow> cfg_ok N (recompute_config s)"
  by (simp add: recompute_config_def config_at_fixed cfg_ok_apply_config)

lemma cfg_ok_log_truncate: "cfg_ok N s \<Longrightarrow> cfg_ok N (log_truncate k s)"
  unfolding log_truncate_def Let_def by (rule cfg_ok_recompute_config) (simp add: cfg_ok_cut)

lemma vote_view_adopt_config: "vote_view (adopt_config sm e voters s) = vote_view s"
  by (simp add: adopt_config_def Let_def vote_view_apply_config vote_view_core [OF core_view_reset_peer_progress]
      vote_view_core [OF core_view_depart_removed_peers])

lemma cfg_ok_adopt_config: "cfg_ok N s \<Longrightarrow> cfg_ok N (adopt_config sm e N s)"
  by (simp add: adopt_config_def Let_def cfg_ok_apply_config cfg_ok_view [OF core_view_reset_peer_progress]
      cfg_ok_view [OF core_view_depart_removed_peers])

lemma vote_view_log_append: "vote_view (log_append sm e s) = vote_view s"
  by (simp add: log_append_def Let_def vote_view_adopt_config vote_view_core [OF core_view_refresh_removed_flag] split: option.split)

lemma cfg_ok_log_append: "cfg_ok N s \<Longrightarrow> cfg_in N (e_config e) \<Longrightarrow> cfg_ok N (log_append sm e s)"
  using cfg_ok_push [of N s e] cfg_ok_push [of N "adopt_config sm e N s" e]
  by (auto simp: log_append_def Let_def cfg_in_def cfg_ok_adopt_config cfg_ok_view [OF core_view_refresh_removed_flag])

lemma vote_view_accept_entries: "vote_view (accept_entries sm i es s) = vote_view s"
  by (induction sm i es s rule: accept_entries.induct) (simp_all add: accept_entry_def vote_view_log_append vote_view_log_truncate)

lemma cfg_ok_accept_entries:
  "cfg_ok N s \<Longrightarrow> \<forall>e \<in> set es. cfg_in N (e_config e) \<Longrightarrow> cfg_ok N (accept_entries sm i es s)"
  by (induction sm i es s rule: accept_entries.induct)
    (simp_all add: accept_entry_def cfg_ok_log_append cfg_ok_log_truncate)

lemmas vote_frame [simp] =
  vote_viewD [OF vote_view_log_append] vote_viewD [OF vote_view_log_truncate]
  vote_viewD [OF vote_view_accept_entries] vote_viewD [OF vote_view_recompute_config]

lemmas cfg_frame [simp] = frame [THEN cfg_ok_view] frame_assign [THEN cfg_ok_view]

lemma core_view_reset_leader_progress [frame]: "core_view (reset_leader_progress now l p s) = core_view s"
  by (simp add: reset_leader_progress_def frame_assign)

lemma core_view_reset_departing_progress [frame]: "core_view (reset_departing_progress l pd s) = core_view s"
  by (simp add: reset_departing_progress_def frame_assign split: prod.split)

lemma core_view_leader_folds [frame]:
  "core_view (fold (reset_leader_progress now l) ps s) = core_view s"
  "core_view (fold (reset_departing_progress l) ds s) = core_view s"
  by (simp_all add: core_view_fold core_view_reset_leader_progress core_view_reset_departing_progress)

lemmas leader_frame [simp] =
  core_view_leader_folds [THEN core_viewD(1)] core_view_leader_folds [THEN core_viewD(2)]
  core_view_leader_folds [THEN core_viewD(3)] core_view_leader_folds [THEN core_viewD(4)]
  core_view_leader_folds [THEN core_viewD(5)] core_view_leader_folds [THEN cfg_ok_view]

section \<open>Elections\<close>

lemma cfg_ok_candidacy [simp]:
  "cfg_ok N (s\<lparr>role := r\<rparr>) = cfg_ok N s" "cfg_ok N (s\<lparr>current_term := t\<rparr>) = cfg_ok N s"
  "cfg_ok N (s\<lparr>voted_for := v\<rparr>) = cfg_ok N s" "cfg_ok N (s\<lparr>votes := vs\<rparr>) = cfg_ok N s"
  by (simp_all add: cfg_ok_def)

lemma become_leader_view: "vote_view (snd (become_leader sm now s)) = vote_view (s\<lparr>role := Leader\<rparr>)"
  by (simp add: become_leader_def Let_def vote_view_def)

lemma become_leader_cfg: "cfg_ok N s \<Longrightarrow> cfg_ok N (snd (become_leader sm now s))"
  by (simp add: become_leader_def Let_def cfg_ok_log_append cfg_in_def)

lemma become_leader_msgs:
  assumes "cfg_ok N s" and "out \<in> set (fst (become_leader sm now s))"
  shows "out_ok N asked i h out"
proof -
  obtain s' where "become_leader sm now s = broadcast_append sm Always s'" "cfg_ok N s'"
    using assms(1) by (simp add: become_leader_def Let_def cfg_ok_log_append cfg_in_def)
  then show ?thesis using assms(2) broadcast_append_msgs own_replication_out_ok by metis
qed

lemma vote_ok_become_leader:
  assumes "cfg_ok N s" and "role s = Candidate" and "cand_ok s" and "majority s \<le> card (votes s)"
  shows "vote_ok N asked granted s (fst (become_leader sm now s)) (snd (become_leader sm now s))"
proof -
  note v = vote_viewD [OF become_leader_view [of sm now s]]
  have "cfg_ok N (snd (become_leader sm now s))" using assms(1) by (rule become_leader_cfg)
  then show ?thesis
    using assms v become_leader_msgs [OF assms(1)]
    by (auto simp: vote_ok_def cand_ok_def candidacy_def majority_def hard_def cfg_ok_def)
qed

lemma vote_ok_start_election:
  assumes "cfg_ok N s" and "cand_ok s"
  shows "vote_ok N asked granted s (fst (start_election sm now entropy s)) (snd (start_election sm now entropy s))"
proof -
  let ?s = "reset_election_timer now entropy ((with_stats (\<lambda>c. c\<lparr>elections_started := elections_started c + 1\<rparr>) s)
      \<lparr>role := Candidate, current_term := current_term s + 1, voted_for := Some (node_id s),
       vote_lease_lapsed := False, leader_id := None, votes := {node_id s}\<rparr>)"
  have idle: "vote_ok N asked granted s [] (reset_election_timer now entropy s)"
    using assms by (intro vote_ok_view) (simp_all add: frame)
  have c: "cand_ok ?s" if "is_voter s" using that by (simp add: cand_ok_def candidacy_def is_voter_def)
  have one: "vote_ok N asked granted s [] ?s" if "is_voter s"
    using assms(1) c [OF that] by (auto simp: vote_ok_def hard_le_def hard_def)
  have lead: "vote_ok N asked granted s (fst (become_leader sm now ?s)) (snd (become_leader sm now ?s))"
    if "is_voter s" "majority ?s \<le> card (votes ?s)"
    using one [OF that(1)] by (rule vote_ok_trans_nil) (rule vote_ok_become_leader, use assms(1) c that in simp_all)
  have ask: "vote_ok N asked granted s (map (\<lambda>p. (p, RequestVote (current_term ?s) (node_id ?s) x y)) ps) ?s" if "is_voter s" for x y ps
    using one [OF that] by (auto simp: vote_ok_def out_ok_def hard_def)
  show ?thesis
    using idle lead ask by (auto simp: start_election_def Let_def)
qed

abbreviation vote_step ::
  "NodeId set \<Rightarrow> (nat \<times> NodeId) option \<Rightarrow> (nat \<times> NodeId) option \<Rightarrow> ('c, 's) RaftCore \<Rightarrow> 'c Out list \<times> ('c, 's) RaftCore \<Rightarrow> bool" where
  "vote_step N asked granted s r \<equiv> vote_ok N asked granted s (fst r) (snd r)"

lemma vote_step_quiet:
  assumes "cfg_ok N s" and "cand_ok s" and "core_view s' = core_view s"
  shows "vote_step N asked granted s ([], s')"
  using assms by (intro vote_ok_view) simp_all

lemma vote_step_start_pre_vote:
  assumes "cfg_ok N s" and "cand_ok s"
  shows "vote_step N asked granted s (start_pre_vote sm now entropy s)"
proof -
  let ?f = "reset_election_timer now entropy"
  have probe: "vote_ok N asked granted s (broadcast_cluster_probe x) (?f s)" for x :: "('a, 'b) RaftCore"
    using assms by (intro vote_ok_view) (auto simp: frame broadcast_cluster_probe_def out_ok_def)
  have idle: "vote_ok N asked granted s [] (?f (s\<lparr>leader_id := l, vote_lease_lapsed := v\<rparr>))" "vote_ok N asked granted s [] (?f s)" for l v
    using assms by (intro vote_ok_view; simp add: frame frame_assign)+
  have pre: "vote_ok N asked granted s [] s'" and ask: "vote_ok N asked granted s (map (\<lambda>p. (p, PreVote t i x y)) ps) s'"
    if "role s' = PreCandidate" "cfg_ok N s'" "node_id s' = node_id s" "hard s' = hard s" for s' :: "('a, 'b) RaftCore" and t i x y ps
    using that by (auto intro!: vote_ok_follow simp: candidacy_def out_ok_def)
  have elect: "vote_step N asked granted s (start_election sm now entropy s')"
    if "role s' = PreCandidate" "cfg_ok N s'" "node_id s' = node_id s" "hard s' = hard s" for s' :: "('a, 'b) RaftCore"
    using pre [OF that] by (rule vote_ok_trans_nil) (rule vote_ok_start_election, use that in \<open>simp_all add: cand_ok_def candidacy_def\<close>)
  show ?thesis
    using assms probe idle
    by (auto simp: start_pre_vote_def Let_def hard_def intro!: elect ask split: ClusterCheck.split)
qed

lemma vote_step_handle_pre_vote:
  assumes "cfg_ok N s" and "cand_ok s"
  shows "vote_step N asked granted s (handle_pre_vote c t lli llt now s)"
proof -
  have out: "out_ok N asked i h (c, PreVoteResp a b)" for i h a b by (simp add: out_ok_def)
  have keep: "vote_ok N asked granted s [(c, PreVoteResp a b)] (with_stats f s)" for a b f
    using assms out by (intro vote_ok_view) (simp_all add: frame)
  have concede: "vote_ok N asked granted s [(c, PreVoteResp a b)] (with_stats f (with_stats g (s\<lparr>role := Follower, votes := {}\<rparr>)))" for a b f g
    using assms out by (intro vote_ok_follow) (simp_all add: candidacy_def hard_def)
  show ?thesis
    unfolding handle_pre_vote_def Let_def using keep concede by simp
qed

lemma vote_step_handle_pre_vote_resp:
  assumes "cfg_ok N s" and "cand_ok s"
  shows "vote_step N asked granted s (handle_pre_vote_resp sm from t g now entropy s)"
proof -
  have quiet: "vote_step N asked granted s ([], with_stats f s)" for f
    using assms by (intro vote_step_quiet) (simp_all add: frame)
  have quiet2: "vote_step N asked granted s ([], (with_stats f s)\<lparr>pre_votes := x\<rparr>)" for f x
    using assms by (intro vote_step_quiet) (simp_all add: frame frame_assign)
  have elect: "vote_step N asked granted s (start_election sm now entropy ((with_stats f s)\<lparr>pre_votes := x\<rparr>))" for f x
  proof -
    have "cand_ok ((with_stats f s)\<lparr>pre_votes := x\<rparr>)"
      using assms(2) by (simp add: cand_ok_def candidacy_def majority_def)
    then have "vote_step N asked granted ((with_stats f s)\<lparr>pre_votes := x\<rparr>)
        (start_election sm now entropy ((with_stats f s)\<lparr>pre_votes := x\<rparr>))"
      using assms(1) by (intro vote_ok_start_election) simp_all
    then show ?thesis using quiet2 vote_ok_trans_nil by fastforce
  qed
  have down: "vote_step N asked granted s ([], reset_election_timer now entropy ((with_stats f s)
      \<lparr>current_term := t, voted_for := None, vote_lease_lapsed := False, role := Follower,
       leader_id := None, last_leader_contact := None, pre_votes := {}\<rparr>))" if "current_term s < t" for f
    using that assms(1) by (intro vote_ok_follow) (simp_all add: candidacy_def hard_def hard_le_def)
  have same: "vote_step N asked granted s ([], s)" using assms by (intro vote_step_quiet) simp_all
  show ?thesis
    unfolding handle_pre_vote_resp_def Let_def using quiet quiet2 elect down same by simp
qed

lemma vote_step_handle_request_vote:
  assumes "cfg_ok N s" and "cand_ok s" and "current_term s = t \<or> t < current_term s" 
  shows "vote_step N (Some (t, c)) granted s (handle_request_vote c t lli llt now entropy s)"
proof -
  let ?s = "s\<lparr>heard_from := insert c (heard_from s)\<rparr>"
  let ?g = "reset_election_timer now entropy (?s\<lparr>voted_for := Some c, vote_lease_lapsed := False\<rparr>)"
  have refuse: "vote_ok N (Some (t, c)) granted s [(c, RequestVoteResp (current_term ?s) False)] ?s"
    using assms by (intro vote_ok_view) (simp_all add: frame_assign out_ok_def)
  have grant: "vote_ok N (Some (t, c)) granted s [(c, RequestVoteResp (current_term ?g) True)] ?g"
    if "current_term s = t" "voted_for s = None \<or> voted_for s = Some c"
  proof -
    have "hard_le (hard s) (hard ?g)" using that by (auto simp: hard_def hard_le_def)
    moreover have "out_ok N (Some (t, c)) (node_id s) (hard ?g) (c, RequestVoteResp (current_term ?g) True)"
      using that by (simp add: out_ok_def hard_def)
    ultimately show ?thesis
      using assms that by (auto simp: vote_ok_def cand_ok_def candidacy_def majority_def)
  qed
  show ?thesis
    unfolding handle_request_vote_def Let_def using refuse grant assms(3) by (auto simp: not_less)
qed

lemma vote_step_handle_vote_resp:
  assumes "cfg_ok N s" and "cand_ok s"
  shows "vote_step N asked (if g then Some (t, from) else None) s (handle_vote_resp sm from t g now s)"
proof -
  let ?gr = "if g then Some (t, from) else None"
  let ?h = "if g then s\<lparr>heard_from := insert from (heard_from s)\<rparr> else s"
  let ?v = "?h\<lparr>votes := insert from (votes s)\<rparr>"
  have quiet: "vote_step N asked ?gr s ([], ?h)" using assms by (intro vote_step_quiet) (simp_all add: frame_assign)
  have c: "cand_ok ?v" "cfg_ok N ?v" if "role s = Candidate" "from \<in> config s"
    using that assms by (auto simp: cand_ok_def candidacy_def)
  have count: "vote_ok N asked ?gr s [] ?v" if "g" "role s = Candidate" "from \<in> config s" "t = current_term s"
    using that c assms by (auto simp: vote_ok_def candidacy_def hard_def)
  have lead: "vote_step N asked ?gr s (become_leader sm now ?v)"
    if "g" "role s = Candidate" "from \<in> config s" "t = current_term s" "majority ?v \<le> card (votes ?v)"
    using count [OF that(1-4)] by (rule vote_ok_trans_nil) (rule vote_ok_become_leader, use c that in auto)
  show ?thesis
    unfolding handle_vote_resp_def Let_def using quiet count lead by auto
qed

lemma vote_step_handle_timeout_now:
  assumes "cfg_ok N s" and "cand_ok s"
  shows "vote_step N asked granted s (handle_timeout_now sm t now entropy s)"
  using vote_ok_start_election [OF assms] vote_step_quiet [OF assms] by (simp add: handle_timeout_now_def)

section \<open>Replication\<close>

lemma append_resp_out_ok [simp]: "out_ok N asked i h (l, append_resp b m s)"
  by (simp add: out_ok_def append_resp_def)

lemma follow_leader_simps [simp]:
  "role (follow_leader l now e s) = Follower" "hard (follow_leader l now e s) = hard s"
  "node_id (follow_leader l now e s) = node_id s" "cfg_ok N (follow_leader l now e s) = cfg_ok N s"
  "voted_for (follow_leader l now e s) = voted_for s" "current_term (follow_leader l now e s) = current_term s"
  by (simp_all add: follow_leader_def hard_def)

lemma vote_step_handle_append_entries:
  assumes "cfg_ok N s" and "cand_ok s" and "\<forall>e \<in> set es. cfg_in N (e_config e)"
  shows "vote_step N asked granted s (handle_append_entries sm t l pli plt es lc now entropy s)"
proof -
  let ?s = "s\<lparr>heard_from := insert l (heard_from s)\<rparr>"
  have stale: "vote_ok N asked granted s [(l, append_resp b m x)] ?s" for b m and x :: "('a, 'b) RaftCore"
    using assms by (intro vote_ok_view) (simp_all add: frame_assign)
  let ?f = "follow_leader l now entropy ?s"
  let ?a = "\<lambda>n. accept_entries sm n es ?f"
  have follow: "vote_ok N asked granted s [(l, append_resp b m x)] ?f"
    "vote_ok N asked granted s [(l, append_resp b m x)] (?a n)"
    "vote_ok N asked granted s [(l, append_resp b m x)] (apply_committed sm ((?a n)\<lparr>commit_index := c\<rparr>))"
    for b m c n and x :: "('a, 'b) RaftCore"
    using assms by (intro vote_ok_follow; simp add: candidacy_def cfg_ok_accept_entries hard_def)+
  show ?thesis
    unfolding handle_append_entries_def Let_def using stale follow by simp
qed

text \<open>Steps made of operations that keep the core view, and of replication to one peer.\<close>

lemma vote_step_replicate_list:
  assumes "cfg_ok N s" and "cand_ok s" and "core_view s' = core_view s"
  shows "vote_step N asked granted s (replicate_list sm p r s')"
proof -
  have "cfg_ok N s'" using assms cfg_ok_view by blast
  then have "\<forall>out \<in> set (fst (replicate_list sm p r s')). out_ok N asked (node_id s) h out" for h
    using replicate_list_msgs own_replication_out_ok by metis
  then show ?thesis using assms by (intro vote_ok_view) (simp_all add: frame)
qed

lemma vote_step_let:
  assumes "core_view x = core_view s" and "\<And>s'. core_view s' = core_view s \<Longrightarrow> vote_step N asked granted s (b s')"
  shows "vote_step N asked granted s (let s' = x in b s')"
  using assms by simp

lemma vote_step_let_any: "(\<And>y. vote_step N asked granted s (b y)) \<Longrightarrow> vote_step N asked granted s (let y = x in b y)"
  by simp

lemma vote_step_if:
  "(c \<Longrightarrow> vote_step N asked granted s x) \<Longrightarrow> (\<not> c \<Longrightarrow> vote_step N asked granted s y) \<Longrightarrow>
   vote_step N asked granted s (if c then x else y)"
  by simp

end
