(* ===== verification/Raft_Handlers.thy ===== *)
theory Raft_Handlers
  imports Raft_Votes
begin

text \<open>
  The contract \<open>vote_ok\<close> for the remaining handlers of the consensus core, for the dispatch of a
  message, for the tick and for the driver's calls.
\<close>

lemma vote_step_handle_append_resp:
  assumes "cfg_ok N s" and "cand_ok s"
  shows "vote_step N asked granted s (handle_append_resp sm from t success m needs check app now s)"
  unfolding handle_append_resp_def
  by (rule vote_step_let | rule vote_step_let_any | rule vote_step_if | rule vote_step_replicate_list [OF assms]
      | rule vote_step_quiet [OF assms] | simp add: frame frame_assign Let_def)+

lemma vote_step_install_replies:
  assumes "cfg_ok N s" and "cand_ok s"
  shows "vote_step N asked granted s (install_acknowledged sm from li s)"
    "vote_step N asked granted s (install_refused sm from base s)"
    "vote_step N asked granted s (chunk_acknowledged sm from off s)"
  unfolding install_acknowledged_def install_refused_def chunk_acknowledged_def
  by (rule vote_step_let | rule vote_step_let_any | rule vote_step_if | rule vote_step_replicate_list [OF assms]
      | rule vote_step_quiet [OF assms] | simp add: frame frame_assign)+

lemma vote_step_note:
  assumes "cfg_ok N s" and "cand_ok s" and "core_view s' = core_view s"
    and "cfg_ok N s' \<Longrightarrow> cand_ok s' \<Longrightarrow> vote_step N asked granted s' r"
  shows "vote_step N asked granted s r"
proof -
  have "cfg_ok N s'" "cand_ok s'" using assms(1-3) cfg_ok_view cand_ok_view by blast+
  then show ?thesis
    using vote_ok_trans_nil [OF _ assms(4)] vote_step_quiet [OF assms(1-3)] by fastforce
qed

lemma vote_step_handle_install_snapshot_resp:
  assumes "cfg_ok N s" and "cand_ok s"
  shows "vote_step N asked granted s (handle_install_snapshot_resp sm from t li off now s)"
proof (cases "role s \<noteq> Leader \<or> t \<noteq> current_term s")
  case True
  then show ?thesis using vote_step_quiet [OF assms] by (simp add: handle_install_snapshot_resp_def)
next
  case False
  show ?thesis
  proof (rule vote_step_note [OF assms core_view_note_departing_reply [of "from" now s]])
    assume "cfg_ok N (note_departing_reply from now s)" "cand_ok (note_departing_reply from now s)"
    note r = vote_step_install_replies [OF this] vote_step_quiet [OF this refl]
    show "vote_step N asked granted (note_departing_reply from now s) (handle_install_snapshot_resp sm from t li off now s)"
      using False r by (auto simp: handle_install_snapshot_resp_def Let_def split: option.split)
  qed
qed

section \<open>Snapshot installation\<close>

lemma install_base_view: "vote_view (install_base li lt cfg lrn s) = vote_view s"
  by (simp add: install_base_def Let_def vote_view_def)

lemma cfg_ok_owed [simp]: "cfg_ok N (s\<lparr>install_rewrite_owed := b\<rparr>) = cfg_ok N s"
  by (simp add: cfg_ok_def)

lemma cfg_ok_push_base:
  "cfg_ok N s \<Longrightarrow> cfg_ok N (s\<lparr>pending := pending s @ [Snapshot m i t (snapshot_config s) l]\<rparr>)"
  by (simp add: cfg_ok_def)

lemma cfg_ok_install_base: "cfg_ok N s \<Longrightarrow> cfg_in N cfg \<Longrightarrow> cfg_ok N (install_base li lt cfg lrn s)"
proof -
  assume "cfg_ok N s" "cfg_in N cfg"
  then have "cfg_ok N (s\<lparr>snapshot_index := li, snapshot_term := lt, last_applied := li, commit_index := li, rlog := [],
      applied := [], snapshot_dirty := True, snapshot_config := cfg, snapshot_learners := lrn\<rparr>)"
    by (simp add: cfg_ok_def)
  then show ?thesis
    unfolding install_base_def Let_def by (simp only: cfg_ok_recompute_config cfg_frame cfg_ok_owed cfg_ok_push_base split: if_split) simp
qed

lemmas install_frame [simp] = vote_viewD [OF install_base_view]

lemma install_resp_out_ok [simp]: "out_ok N asked i h (l, InstallSnapshotResp a b c)"
  by (simp add: out_ok_def)

lemma vote_step_install_complete:
  assumes "cfg_ok N s" and "cfg_in N cfg" and "role s = Follower"
  shows "vote_step N asked granted s (install_complete sm l inc cfg lrn s)"
proof -
  have "vote_ok N asked granted s [(l, InstallSnapshotResp a b c)] s'"
    if "role s' = Follower" "current_term s' = current_term s" "voted_for s' = voted_for s" "node_id s' = node_id s" "cfg_ok N s'"
    for a b c s'
    using that by (intro vote_ok_follow) (simp_all add: candidacy_def hard_def)
  then show ?thesis
    unfolding install_complete_def Let_def using assms by (simp add: cfg_ok_install_base split: sum.split)
qed

lemma vote_step_handle_install_snapshot:
  assumes "cfg_ok N s" and "cand_ok s" and "cfg_in N cfg"
  shows "vote_step N asked granted s (handle_install_snapshot sm t l li lt off data tot fin cfg lrn now entropy s)"
proof -
  let ?s = "s\<lparr>heard_from := insert l (heard_from s)\<rparr>"
  let ?f = "follow_leader l now entropy ?s"
  have stale: "vote_ok N asked granted s [(l, InstallSnapshotResp a b c)] ?s" for a b c
    using assms by (intro vote_ok_view) (simp_all add: frame_assign)
  have follow: "vote_ok N asked granted s outs (?f\<lparr>incoming_snapshot := x\<rparr>)"
    if "\<forall>out \<in> set outs. \<exists>a b c. out = (l, InstallSnapshotResp a b c)" for outs x
    using assms that by (intro vote_ok_follow) (auto simp: candidacy_def hard_def)
  have complete: "vote_step N asked granted s (install_complete sm l inc cfg lrn (?f\<lparr>incoming_snapshot := x\<rparr>))" for inc x
    using assms by (intro vote_ok_trans_nil [OF follow vote_step_install_complete]) simp_all
  show ?thesis
    unfolding handle_install_snapshot_def Let_def using stale follow complete by (simp split: option.split)
qed

section \<open>Probes, quiescence and removal\<close>

lemma vote_step_plain:
  assumes "cfg_ok N s" and "cand_ok s" and "core_view s' = core_view s"
    and "\<forall>out \<in> set outs. \<forall>i h. out_ok N asked i h out"
  shows "vote_step N asked granted s (outs, s')"
  unfolding fst_conv snd_conv using assms by (intro vote_ok_view) blast+

lemma vote_step_small_handlers:
  assumes "cfg_ok N s" and "cand_ok s"
  shows "vote_step N asked granted s (handle_cluster_probe from s)"
    and "vote_step N asked granted s (handle_cluster_probe_resp from t ci cfg heard s)"
    and "vote_step N asked granted s ([], handle_quiesce from t ci s)"
    and "vote_step N asked granted s (handle_wake_request sm from s)"
    and "vote_step N asked granted s (handle_removed from t rm cfg lrn s)"
    and "vote_step N asked granted s ([], handle_removed_ack sm from t ri s)"
proof -
  show "vote_step N asked granted s (handle_cluster_probe from s)"
    unfolding handle_cluster_probe_def using assms by (intro vote_step_plain) (simp_all add: out_ok_def)
  show "vote_step N asked granted s (handle_cluster_probe_resp from t ci cfg heard s)"
    unfolding handle_cluster_probe_resp_def Let_def
    using vote_step_quiet [OF assms] by (simp add: frame_assign split: ClusterCheck.split)
  show "vote_step N asked granted s ([], handle_quiesce from t ci s)"
    using vote_step_quiet [OF assms] by (simp add: handle_quiesce_def frame_assign)
  show "vote_step N asked granted s (handle_wake_request sm from s)"
    unfolding handle_wake_request_def
    by (rule vote_step_if | rule vote_step_replicate_list [OF assms] | rule vote_step_quiet [OF assms] | simp)+
  have down: "vote_ok N asked granted s [(from, RemovedAck a b)] (s\<lparr>role := Follower, leader_id := l, removed_by_leader := r\<rparr>)" for a b l r
    using assms(1) by (intro vote_ok_follow) (simp_all add: candidacy_def hard_def out_ok_def)
  have stay: "vote_ok N asked granted s [(from, RemovedAck a b)] (bump_notices_ignored s)" "vote_ok N asked granted s [] (bump_notices_ignored s)" for a b
    using vote_step_plain [OF assms] by (simp_all add: frame out_ok_def)
  show "vote_step N asked granted s (handle_removed from t rm cfg lrn s)"
    unfolding handle_removed_def using down stay by simp
  have "core_view (handle_removed_ack sm from t ri s) = core_view s"
    by (simp add: handle_removed_ack_def Let_def frame frame_assign split: option.split)
  then show "vote_step N asked granted s ([], handle_removed_ack sm from t ri s)"
    by (rule vote_step_quiet [OF assms])
qed

section \<open>Dispatch\<close>

text \<open>The vote request a message carries and the grant a message carries.\<close>

fun asks :: "'c RaftMsg \<Rightarrow> (nat \<times> NodeId) option" where
  "asks (RequestVote t c _ _) = Some (t, c)"
| "asks _ = None"

fun grants :: "NodeId \<Rightarrow> 'c RaftMsg \<Rightarrow> (nat \<times> NodeId) option" where
  "grants from (RequestVoteResp t g) = (if g then Some (t, from) else None)"
| "grants from _ = None"

lemma stranger_notice_out_ok: "fst (stranger_notice c s) = Some out \<Longrightarrow> out_ok N asked i h out"
  by (auto simp: stranger_notice_def removal_notice_for_def out_ok_def split: if_splits option.splits)

lemma vote_step_append_notice:
  assumes "vote_step N asked granted s r" and "\<And>out i h. notice = Some out \<Longrightarrow> out_ok N asked i h out"
  shows "vote_step N asked granted s (case r of (out, s') \<Rightarrow> (out @ (case notice of None \<Rightarrow> [] | Some m \<Rightarrow> [m]), s'))"
  using assms by (cases r; cases notice) (auto simp: vote_ok_def)

lemma vote_step_with_notice:
  assumes "cfg_ok N s" and "cand_ok s"
    and "\<And>s'. core_view s' = core_view s \<Longrightarrow> cfg_ok N s' \<Longrightarrow> cand_ok s' \<Longrightarrow> vote_step N asked granted s' (f s')"
  shows "vote_step N asked granted s (case stranger_notice c s of (notice, s') \<Rightarrow>
    (case f s' of (out, s') \<Rightarrow> (out @ (case notice of None \<Rightarrow> [] | Some m \<Rightarrow> [m]), s')))"
proof -
  obtain notice s' where n: "stranger_notice c s = (notice, s')" by fastforce
  then have v: "core_view s' = core_view s" using core_view_stranger_notice [of c s] by simp
  have "vote_step N asked granted s (f s')"
    using vote_step_note [OF assms(1,2) v] assms(3) [OF v] by blast
  then show ?thesis
    using n stranger_notice_out_ok [of c s] by (simp add: vote_step_append_notice)
qed

lemma vote_step_dispatch:
  assumes "cfg_ok N s" and "cand_ok s" and "msg_cfg_ok N msg"
    and "\<And>t c lli llt. msg = RequestVote t c lli llt \<Longrightarrow> t \<le> current_term s"
  shows "vote_step N (asks msg) (grants from msg) s (dispatch sm from msg now entropy s)"
proof (cases msg)
  case (PreVote t c lli llt)
  show ?thesis
    unfolding PreVote dispatch.simps asks.simps grants.simps
    by (rule vote_step_with_notice [OF assms(1,2)]) (rule vote_step_handle_pre_vote)
next
  case (RequestVote t c lli llt)
  have "t \<le> current_term s" using assms(4) RequestVote by blast
  then have "vote_step N (Some (t, c)) None s' (handle_request_vote c t lli llt now entropy s')"
    if "core_view s' = core_view s" "cfg_ok N s'" "cand_ok s'" for s'
    using that core_viewD(3) [OF that(1)] by (intro vote_step_handle_request_vote) auto
  then show ?thesis
    unfolding RequestVote dispatch.simps asks.simps grants.simps by (rule vote_step_with_notice [OF assms(1,2)])
qed (use assms in \<open>simp_all add: vote_step_handle_pre_vote_resp vote_step_handle_vote_resp vote_step_handle_append_entries
    vote_step_handle_append_resp vote_step_handle_install_snapshot vote_step_handle_install_snapshot_resp
    vote_step_quiet [OF assms(1,2) refl, unfolded fst_conv snd_conv] vote_step_handle_timeout_now vote_step_small_handlers [OF assms(1,2), unfolded fst_conv snd_conv]\<close>)

lemma adopt_term_ok:
  assumes "cfg_ok N s" and "cand_ok s"
  shows "vote_ok N asked granted s [] (adopt_term msg s)"
proof (cases "adopt_term msg s = s")
  case True
  then show ?thesis using vote_step_quiet [OF assms refl] by simp
next
  case False
  then show ?thesis
    using assms(1) by (intro vote_ok_follow) (auto simp: adopt_term_def candidacy_def hard_def hard_le_def split: if_splits)
qed

lemma adopt_term_covers: "msg = RequestVote t c lli llt \<Longrightarrow> t \<le> current_term (adopt_term msg s)"
  by (simp add: adopt_term_def)

lemma vote_step_after:
  assumes "vote_step N asked granted s r" and "core_view s' = core_view (snd r)"
  shows "vote_step N asked granted s (fst r, s')"
proof -
  have "hard s' = hard (snd r)" "candidacy s' = candidacy (snd r)" "votes s' = votes (snd r)"
    "current_term s' = current_term (snd r)" "node_id s' = node_id (snd r)"
    using core_viewD [OF assms(2)] by (simp_all add: hard_def candidacy_def)
  then show ?thesis
    using assms(1) cfg_ok_view [OF assms(2)] cand_ok_view [OF assms(2)] unfolding vote_ok_def by simp
qed

lemma vote_step_handle:
  assumes "cfg_ok N s" and "cand_ok s" and "msg_cfg_ok N msg"
  shows "vote_step N (asks msg) (grants from msg) s (handle sm from msg now entropy s)"
proof -
  let ?a = "asks msg" and ?g = "grants from msg"
  let ?s = "s\<lparr>now_hint := now\<rparr>"
  let ?t = "adopt_term msg ?s"
  have v: "core_view ?s = core_view s" by (simp add: frame_assign)
  have c: "cfg_ok N ?s" "cand_ok ?s" using assms v cfg_ok_view cand_ok_view by blast+
  note t = adopt_term_ok [OF c, of ?a ?g msg]
  have tv: "vote_ok N ?a ?g s [] ?t"
    using vote_ok_trans_nil [OF vote_step_quiet [OF assms(1,2) v, unfolded fst_conv snd_conv] t] .
  have go: "vote_step N ?a ?g s (dispatch sm from msg now entropy s')" if "core_view s' = core_view ?t" for s'
  proof -
    have s': "vote_ok N ?a ?g ?t [] s'"
      using that vote_okD(2,3) [OF t] by (intro vote_ok_view) simp_all
    have "t \<le> current_term s'" if "msg = RequestVote t x y z" for t x y z
      using adopt_term_covers [OF that] core_viewD(3) [OF \<open>core_view s' = core_view ?t\<close>] by simp
    then have "vote_step N ?a ?g s' (dispatch sm from msg now entropy s')"
      using vote_okD(2,3) [OF s'] assms(3) by (intro vote_step_dispatch) auto
    then show ?thesis using tv s' vote_ok_trans_nil by blast
  qed
  have out: "vote_step N ?a ?g s (case dispatch sm from msg now entropy ?t of (o1, s1) \<Rightarrow> (o1, f o1 s1))"
    if "\<And>o1 s1. core_view (f o1 s1) = core_view s1" for f
    using vote_step_after [OF go [OF refl], of "f (fst (dispatch sm from msg now entropy ?t)) (snd (dispatch sm from msg now entropy ?t))"] that
    by (simp add: case_prod_beta)
  have ign: "vote_step N ?a ?g s (case stranger_notice x s1 of (notice, s2) \<Rightarrow>
      ((case notice of None \<Rightarrow> [] | Some m \<Rightarrow> [m]), if quiesced s2 then wake now s2 else s2))"
    if "core_view s1 = core_view s" for x s1
  proof -
    obtain notice s2 where n: "stranger_notice x s1 = (notice, s2)" by fastforce
    then have "core_view s2 = core_view s" using core_view_stranger_notice [of x s1] that by simp
    then show ?thesis
      unfolding n prod.case using stranger_notice_out_ok [of x s1] n assms(1,2)
      by (intro vote_step_plain) (simp_all add: frame split: option.split)
  qed
  have ack: "vote_step N ?a ?g s (case dispatch sm from msg now entropy ?t of (o1, s1) \<Rightarrow> (o1, if o1 \<noteq> [] then wake now s1 else s1))"
    by (rule out) (simp add: frame)
  have beat: "vote_step N ?a ?g s (case dispatch sm from msg now entropy ?t of (o1, s1) \<Rightarrow>
      (o1, if \<not> list_all clean_ack o1 \<or> last_log_index s1 \<noteq> commit_index s1 then s1\<lparr>quiesced := False, last_activity := now\<rparr> else s1))"
    by (rule out) (simp add: frame_assign)
  have woken: "vote_step N ?a ?g s (dispatch sm from msg now entropy (if quiesced ?t then wake now ?t else ?t))"
    by (rule go) (simp add: frame)
  show ?thesis
  proof (cases "ignored_vote msg now ?s")
    case None
    then show ?thesis unfolding handle_def Let_def using ack beat woken by simp
  next
    case (Some x)
    then show ?thesis unfolding handle_def Let_def using ign by (simp add: frame frame_assign)
  qed
qed

section \<open>Ticks and the driver's calls\<close>

lemma vote_step_broadcast_append:
  assumes "cfg_ok N s" and "cand_ok s" and "core_view s' = core_view s"
  shows "vote_step N asked granted s (broadcast_append sm r s')"
proof -
  have "cfg_ok N s'" using assms cfg_ok_view by blast
  then have "\<forall>out \<in> set (fst (broadcast_append sm r s')). out_ok N asked (node_id s) h out" for h
    using broadcast_append_msgs own_replication_out_ok by metis
  then show ?thesis using assms by (intro vote_ok_view) (simp_all add: frame)
qed

lemma vote_step_leader_tick:
  assumes "cfg_ok N s" and "cand_ok s" and "\<forall>out \<in> set probes. \<forall>i h. out_ok N asked i h out"
  shows "vote_step N asked granted s (leader_tick sm now probes s)"
proof -
  have q: "vote_step N asked granted s (broadcast_quiesce x, s')" if "core_view s' = core_view s" for s' and x :: "('a, 'b) RaftCore"
    using assms(1,2) that by (intro vote_step_plain) (auto simp: broadcast_quiesce_def out_ok_def)
  show ?thesis
    unfolding leader_tick_def
    by (rule vote_step_let | rule vote_step_if | rule q | rule vote_step_broadcast_append [OF assms(1,2)]
        | rule vote_step_plain [OF assms(1,2) _ assms(3)] | simp add: frame frame_assign)+
qed

lemma probes_out_ok: "out \<in> set (broadcast_cluster_probe s) \<Longrightarrow> out_ok N asked i h out"
  by (auto simp: broadcast_cluster_probe_def out_ok_def)

lemma resend_probes_view: "core_view (snd (resend_probes now entropy s)) = core_view s"
  by (simp add: resend_probes_def frame_assign split: ClusterCheck.split)

lemma resend_probes_out_ok: "out \<in> set (fst (resend_probes now entropy s)) \<Longrightarrow> out_ok N asked i h out"
  by (auto simp: resend_probes_def split: ClusterCheck.splits if_splits intro: probes_out_ok)

lemma vote_step_tick_gated:
  assumes "cfg_ok N s" and "cand_ok s"
  shows "vote_step N asked granted s (tick_gated sm now entropy admit s)"
proof -
  obtain probes s' where r: "resend_probes now entropy (s\<lparr>now_hint := now\<rparr>) = (probes, s')" by fastforce
  have v: "core_view s' = core_view s"
    using resend_probes_view [of now entropy "s\<lparr>now_hint := now\<rparr>"] r by (simp add: frame_assign)
  have p: "\<forall>out \<in> set probes. \<forall>i h. out_ok N asked i h out"
    using resend_probes_out_ok [of _ now entropy "s\<lparr>now_hint := now\<rparr>"] r by simp
  show ?thesis
    unfolding tick_gated_def r prod.case
  proof (rule vote_step_note [OF assms v])
    assume c: "cfg_ok N s'" "cand_ok s'"
    show "vote_step N asked granted s'
      (if role s' = Leader then leader_tick sm now probes s'
       else if election_deadline s' \<le> now then
         (if \<not> admit \<and> campaign_due now s' then ([], s'\<lparr>campaign_hold := Some (sat_add now (election_base s'))\<rparr>)
          else start_pre_vote sm now entropy s')
       else (probes, s'))"
      by (rule vote_step_if | rule vote_step_leader_tick [OF c p] | rule vote_step_start_pre_vote [OF c]
          | rule vote_step_quiet [OF c] | rule vote_step_plain [OF c _ p] | simp add: frame_assign)+
  qed
qed

lemma vote_step_replicate_now:
  assumes "cfg_ok N s" and "cand_ok s"
  shows "vote_step N asked granted s (replicate_now sm now s)"
  unfolding replicate_now_def
  by (rule vote_step_let | rule vote_step_if | rule vote_step_broadcast_append [OF assms]
      | rule vote_step_quiet [OF assms] | simp add: frame_assign)+

lemma vote_step_campaign_now:
  assumes "cfg_ok N s" and "cand_ok s"
  shows "vote_step N asked granted s (campaign_now sm now entropy s)"
  unfolding campaign_now_def
  by (rule vote_step_if | rule vote_step_quiet [OF assms] | rule vote_step_start_pre_vote [OF assms] | simp)+

lemma vote_step_begin_cluster_check:
  assumes "cfg_ok N s" and "cand_ok s"
  shows "vote_step N asked granted s (begin_cluster_check now entropy s)"
  unfolding begin_cluster_check_def
  by (rule vote_step_let | rule vote_step_if | rule vote_step_quiet [OF assms] | rule vote_step_plain [OF assms]
      | simp add: frame frame_assign probes_out_ok)+

lemma vote_step_on_local_wake:
  assumes "cfg_ok N s" and "cand_ok s"
  shows "vote_step N asked granted s (on_local_wake now entropy s)"
proof -
  have w: "vote_step N asked granted s (case leader_id x of Some l \<Rightarrow> ([(l, WakeRequest t)], s') | None \<Rightarrow> ([], s'))"
    if "core_view s' = core_view s" for s' t and x :: "('a, 'b) RaftCore"
    using vote_step_plain [OF assms that] by (simp add: out_ok_def split: option.split)
  show ?thesis
    unfolding on_local_wake_def
    by (rule vote_step_let | rule w | rule vote_step_if | rule vote_step_quiet [OF assms] | simp add: frame frame_assign)+
qed

text \<open>An entry the leader appends itself, when it leaves the voters alone.\<close>

lemma vote_ok_append_own:
  assumes "cfg_ok N s" and "cand_ok s" and "cfg_in N cfg"
  shows "vote_ok N asked granted s [] (snd (append_own sm command cfg lrn s))"
proof -
  let ?e = "\<lparr>e_term = current_term s, e_index = last_log_index s + 1, e_command = command, e_config = cfg, e_learners = lrn\<rparr>"
  have "cfg_ok N (log_append sm ?e s)" using assms by (simp add: cfg_ok_log_append)
  then show ?thesis
    using assms by (intro vote_ok_keep) (simp_all add: append_own_def Let_def)
qed

lemma vote_ok_proposals:
  assumes "cfg_ok N s" and "cand_ok s"
  shows "vote_ok N asked granted s [] (snd (propose sm command s))"
    and "vote_ok N asked granted s [] (snd (add_learner sm i s))"
    and "vote_ok N asked granted s [] (snd (remove_learner sm i s))"
proof -
  have c: "config s = N" using assms(1) by (simp add: cfg_ok_def)
  note r = vote_ok_append_own [OF assms] vote_step_quiet [OF assms refl, unfolded fst_conv snd_conv]
  show "vote_ok N asked granted s [] (snd (propose sm command s))"
    using r by (simp add: propose_def cfg_in_def split: option.split)
  show "vote_ok N asked granted s [] (snd (add_learner sm i s))" "vote_ok N asked granted s [] (snd (remove_learner sm i s))"
    using r c by (simp_all add: add_learner_def remove_learner_def append_membership_entry_def cfg_in_def split: option.split)
qed

lemma vote_ok_snapshot_upto:
  assumes "cfg_ok N s" and "cand_ok s"
  shows "vote_ok N asked granted s [] (snapshot_upto sm i s)"
proof -
  have c: "config_at s k = N" for k using assms(1) by (rule config_at_fixed)
  have "cfg_ok N (snapshot_upto sm i s)"
    using assms(1) c by (auto simp: snapshot_upto_def Let_def cfg_ok_def cfg_in_def)
  then show ?thesis
    using assms by (intro vote_ok_keep) (simp_all add: snapshot_upto_def Let_def)
qed

end
