(* ===== verification/Raft_Durability.thy ===== *)
theory Raft_Durability
  imports Raft_Handlers
begin

text \<open>
  The write-ahead log of the consensus core: what every step appends to the records still to be
  written, and that replaying them follows the in-memory log and snapshot base. \<open>wal_ok\<close> is the
  contract of a step; while an installed snapshot waits for the driver's rewrite of the whole file
  (\<open>install_rewrite_owed\<close>) nothing is claimed of the old records.
\<close>

section \<open>The contract of a step\<close>

fun is_hard :: "('c, 's) WalRecord \<Rightarrow> bool" where
  "is_hard (Hard t v) = True"
| "is_hard _ = False"

definition base_of :: "('c, 's) PersistedState \<Rightarrow> nat \<times> nat" where
  "base_of p = (case p_snapshot p of None \<Rightarrow> (0, 0) | Some (m, i, t) \<Rightarrow> (i, t))"

definition wal_match :: "('c, 's) RaftCore \<Rightarrow> ('c, 's) PersistedState \<Rightarrow> bool" where
  "wal_match s p \<longleftrightarrow> p_log p = rlog s \<and> base_of p = (snapshot_index s, snapshot_term s)
     \<and> p_snapshot_config p = snapshot_config s \<and> p_snapshot_learners p = snapshot_learners s"

definition wal_ok :: "('c, 's) RaftCore \<Rightarrow> ('c, 's) RaftCore \<Rightarrow> bool" where
  "wal_ok s s' \<longleftrightarrow>
     persisted_hard s' = persisted_hard s \<and> (install_rewrite_owed s \<longrightarrow> install_rewrite_owed s') \<and>
     (\<exists>new. pending s' = pending s @ new \<and> (\<forall>r \<in> set new. \<not> is_hard r) \<and>
        (\<not> install_rewrite_owed s' \<longrightarrow> (\<forall>p. wal_match s p \<longrightarrow> wal_match s' (fold replay_record new p))))"

lemma wal_ok_refl: "wal_ok s s"
  by (auto simp: wal_ok_def intro!: exI [of _ "[]"])

lemma wal_ok_trans:
  assumes "wal_ok s s'" and "wal_ok s' s''"
  shows "wal_ok s s''"
proof -
  obtain new where n: "pending s' = pending s @ new" "\<forall>r \<in> set new. \<not> is_hard r"
      "\<not> install_rewrite_owed s' \<longrightarrow> (\<forall>p. wal_match s p \<longrightarrow> wal_match s' (fold replay_record new p))"
    using assms(1) by (auto simp: wal_ok_def)
  obtain new' where n': "pending s'' = pending s' @ new'" "\<forall>r \<in> set new'. \<not> is_hard r"
      "\<not> install_rewrite_owed s'' \<longrightarrow> (\<forall>p. wal_match s' p \<longrightarrow> wal_match s'' (fold replay_record new' p))"
    using assms(2) by (auto simp: wal_ok_def)
  have o: "install_rewrite_owed s' \<longrightarrow> install_rewrite_owed s''" using assms(2) by (simp add: wal_ok_def)
  have "pending s'' = pending s @ (new @ new')" using n n' by simp
  moreover have "\<forall>r \<in> set (new @ new'). \<not> is_hard r" using n n' by auto
  moreover have "\<not> install_rewrite_owed s'' \<longrightarrow> (\<forall>p. wal_match s p \<longrightarrow> wal_match s'' (fold replay_record (new @ new') p))"
    using n(3) n'(3) o by auto
  moreover have "persisted_hard s'' = persisted_hard s" "install_rewrite_owed s \<longrightarrow> install_rewrite_owed s''"
    using assms by (simp_all add: wal_ok_def)
  ultimately show ?thesis unfolding wal_ok_def by blast
qed

definition wal_view ::
  "('c, 's) RaftCore \<Rightarrow> ('c LogEntry list \<times> nat \<times> nat \<times> NodeId set option \<times> NodeId set option) \<times>
     ('c, 's) WalRecord list \<times> (nat \<times> NodeId option) \<times> bool \<times> bool" where
  "wal_view s = ((rlog s, snapshot_index s, snapshot_term s, snapshot_config s, snapshot_learners s),
     pending s, persisted_hard s, install_rewrite_owed s, snapshot_dirty s)"

lemma wal_ok_cong: "wal_view s' = wal_view s'' \<Longrightarrow> wal_ok s s' = wal_ok s s''"
  by (auto simp: wal_view_def wal_ok_def wal_match_def)

lemma wal_view_core: "core_view s' = core_view s'' \<Longrightarrow> wal_view s' = wal_view s''"
  by (simp add: core_view_def wal_view_def)

lemma wal_ok_core: "core_view s' = core_view s'' \<Longrightarrow> wal_ok s s' = wal_ok s s''"
  by (rule wal_ok_cong) (rule wal_view_core)

lemmas wal_frame [simp] =
  frame [THEN wal_ok_core] frame_assign [THEN wal_ok_core] core_view_leader_folds [THEN wal_ok_core]

lemma wal_ok_assign [simp]:
  "wal_ok s (x\<lparr>role := r\<rparr>) = wal_ok s x" "wal_ok s (x\<lparr>current_term := t\<rparr>) = wal_ok s x"
  "wal_ok s (x\<lparr>voted_for := v\<rparr>) = wal_ok s x" "wal_ok s (x\<lparr>votes := vs\<rparr>) = wal_ok s x"
  by (rule wal_ok_cong, simp add: wal_view_def)+

section \<open>The log\<close>

lemma wal_view_apply_config: "wal_view (apply_config voters lrn s) = wal_view s"
  by (simp add: apply_config_def Let_def wal_view_def)

lemma wal_view_departing: "wal_view (s\<lparr>departing := d\<rparr>) = wal_view s"
  by (simp add: wal_view_def)

lemma wal_view_adopt_config: "wal_view (adopt_config sm e voters s) = wal_view s"
  by (simp add: adopt_config_def Let_def wal_view_apply_config wal_view_departing
      wal_view_core [OF core_view_reset_peer_progress] wal_view_core [OF core_view_depart_removed_peers])

lemma wal_ok_push: "wal_ok s (s\<lparr>pending := pending s @ [Append e], rlog := rlog s @ [e]\<rparr>)"
  by (auto simp: wal_ok_def wal_match_def base_of_def intro!: exI [of _ "[Append e]"])

lemma wal_ok_log_append:
  assumes "wal_ok s x"
  shows "wal_ok s (log_append sm e x)"
proof -
  let ?a = "case e_config e of None \<Rightarrow> x | Some voters \<Rightarrow> adopt_config sm e voters x"
  have "wal_ok s ?a"
    using assms by (cases "e_config e") (simp_all add: wal_ok_cong [OF wal_view_adopt_config])
  then have "wal_ok s (?a\<lparr>pending := pending ?a @ [Append e], rlog := rlog ?a @ [e]\<rparr>)"
    using wal_ok_push wal_ok_trans by blast
  then show ?thesis
    unfolding log_append_def Let_def by (cases "e_config e") simp_all
qed

lemma wal_ok_log_truncate:
  assumes "wal_ok s x"
  shows "wal_ok s (log_truncate k x)"
proof -
  have "wal_ok x (x\<lparr>rlog := take k (rlog x), durable_index := d, pending := pending x @ [Truncate k]\<rparr>)" for d
    by (auto simp: wal_ok_def wal_match_def base_of_def intro!: exI [of _ "[Truncate k]"])
  then have "wal_ok s (x\<lparr>rlog := take k (rlog x), durable_index := d, pending := pending x @ [Truncate k]\<rparr>)" for d
    using assms wal_ok_trans by blast
  then show ?thesis
    unfolding log_truncate_def Let_def recompute_config_def wal_ok_cong [OF wal_view_apply_config] by simp
qed

lemma wal_ok_accept_entries: "wal_ok s x \<Longrightarrow> wal_ok s (accept_entries sm i es x)"
  by (induction sm i es x rule: accept_entries.induct)
    (simp_all add: accept_entry_def wal_ok_log_append wal_ok_log_truncate)

lemma wal_ok_install_base:
  assumes "wal_ok s x"
  shows "wal_ok s (install_base li lt cfg lrn x)"
proof -
  let ?y = "x\<lparr>snapshot_index := li, snapshot_term := lt, last_applied := li, commit_index := li, rlog := [],
      applied := [], snapshot_dirty := True, snapshot_config := cfg, snapshot_learners := lrn\<rparr>"
  define z where "z = refresh_removed_flag (recompute_config ?y)"
  have "wal_view z = wal_view ?y"
    by (simp add: z_def wal_view_core [OF core_view_refresh_removed_flag] recompute_config_def wal_view_apply_config)
  then have z: "rlog z = []" "snapshot_index z = li" "snapshot_term z = lt" "snapshot_config z = cfg"
      "snapshot_learners z = lrn" "pending z = pending x" "persisted_hard z = persisted_hard x"
      "install_rewrite_owed z = install_rewrite_owed x"
    by (simp_all add: wal_view_def)
  have i: "install_base li lt cfg lrn x =
      (if \<not> wal_records_install z then z\<lparr>install_rewrite_owed := True\<rparr>
       else z\<lparr>pending := pending z @ [Snapshot (metadata z) (snapshot_index z) (snapshot_term z) (snapshot_config z) (snapshot_learners z)]\<rparr>)"
    by (simp add: install_base_def z_def Let_def)
  have "wal_ok x (install_base li lt cfg lrn x)"
    unfolding i using z
    by (auto simp: wal_ok_def wal_match_def base_of_def intro!: exI [of _ "[Snapshot (metadata z) li lt cfg lrn]"])
  then show ?thesis using assms wal_ok_trans by blast
qed

lemmas wal_log = wal_ok_log_append wal_ok_log_truncate wal_ok_accept_entries wal_ok_install_base

section \<open>Steps\<close>

lemma wal_let:
  assumes "wal_ok s x" and "\<And>s'. wal_ok s s' \<Longrightarrow> wal_ok s (snd (b s'))"
  shows "wal_ok s (snd (let s' = x in b s'))"
  using assms by simp

lemma wal_let_any: "(\<And>y. wal_ok s (snd (b y))) \<Longrightarrow> wal_ok s (snd (let y = x in b y))"
  by simp

lemma wal_if: "(c \<Longrightarrow> wal_ok s (snd x)) \<Longrightarrow> (\<not> c \<Longrightarrow> wal_ok s (snd y)) \<Longrightarrow> wal_ok s (snd (if c then x else y))"
  by simp

lemma wal_ok_become_leader: "wal_ok s x \<Longrightarrow> wal_ok s (snd (become_leader sm now x))"
  unfolding become_leader_def Let_def by (simp add: wal_log)

lemma wal_ok_start_election: "wal_ok s x \<Longrightarrow> wal_ok s (snd (start_election sm now entropy x))"
  unfolding start_election_def Let_def by (simp add: wal_ok_become_leader)

lemma wal_ok_start_pre_vote: "wal_ok s x \<Longrightarrow> wal_ok s (snd (start_pre_vote sm now entropy x))"
  unfolding start_pre_vote_def Let_def by (simp add: wal_ok_start_election split: ClusterCheck.split)

lemma wal_ok_follow_leader [simp]: "wal_ok s (follow_leader l now entropy x) = wal_ok s x"
  by (simp add: follow_leader_def)

lemma wal_ok_votes:
  assumes "wal_ok s x"
  shows "wal_ok s (snd (handle_pre_vote c t lli llt now x))"
    and "wal_ok s (snd (handle_pre_vote_resp sm from t g now entropy x))"
    and "wal_ok s (snd (handle_request_vote c t lli llt now entropy x))"
    and "wal_ok s (snd (handle_vote_resp sm from t g now x))"
    and "wal_ok s (snd (handle_timeout_now sm t now entropy x))"
  unfolding handle_pre_vote_def handle_pre_vote_resp_def handle_request_vote_def handle_vote_resp_def handle_timeout_now_def Let_def
  using assms by (simp_all add: wal_ok_start_election wal_ok_become_leader)

lemma wal_ok_handle_append_entries:
  "wal_ok s x \<Longrightarrow> wal_ok s (snd (handle_append_entries sm t l pli plt es lc now entropy x))"
  unfolding handle_append_entries_def Let_def by (simp add: wal_log)

lemma wal_ok_handle_append_resp:
  "wal_ok s x \<Longrightarrow> wal_ok s (snd (handle_append_resp sm from t success m needs check app now x))"
  unfolding handle_append_resp_def
  by (rule wal_let | rule wal_let_any | rule wal_if | simp add: Let_def)+

lemma wal_ok_install_replies:
  assumes "wal_ok s x"
  shows "wal_ok s (snd (install_acknowledged sm from li x))"
    "wal_ok s (snd (install_refused sm from base x))"
    "wal_ok s (snd (chunk_acknowledged sm from off x))"
  unfolding install_acknowledged_def install_refused_def chunk_acknowledged_def
  using assms by - (rule wal_let | rule wal_let_any | rule wal_if | simp)+

lemma wal_ok_handle_install_snapshot_resp:
  "wal_ok s x \<Longrightarrow> wal_ok s (snd (handle_install_snapshot_resp sm from t li off now x))"
  unfolding handle_install_snapshot_resp_def Let_def by (simp add: wal_ok_install_replies split: option.split)

lemma wal_ok_install_complete: "wal_ok s x \<Longrightarrow> wal_ok s (snd (install_complete sm l inc cfg lrn x))"
  unfolding install_complete_def Let_def by (simp add: wal_log split: sum.split)

lemma wal_ok_handle_install_snapshot:
  "wal_ok s x \<Longrightarrow> wal_ok s (snd (handle_install_snapshot sm t l li lt off data tot fin cfg lrn now entropy x))"
  unfolding handle_install_snapshot_def Let_def by (simp add: wal_ok_install_complete split: option.split)

lemma wal_ok_small_handlers:
  assumes "wal_ok s x"
  shows "wal_ok s (snd (handle_cluster_probe from x))" "wal_ok s (snd (handle_cluster_probe_resp from t ci cfg heard x))"
    "wal_ok s (handle_quiesce from t ci x)" "wal_ok s (snd (handle_wake_request sm from x))"
    "wal_ok s (snd (handle_removed from t rm cfg lrn x))" "wal_ok s (handle_removed_ack sm from t ri x)"
  unfolding handle_cluster_probe_def handle_cluster_probe_resp_def handle_quiesce_def handle_wake_request_def
    handle_removed_def handle_removed_ack_def Let_def
  using assms by (simp_all split: ClusterCheck.split option.split)

lemma wal_ok_dispatch:
  assumes "wal_ok s x"
  shows "wal_ok s (snd (dispatch sm from msg now entropy x))"
proof (cases msg)
  case (PreVote t c lli llt)
  obtain notice y where n: "stranger_notice c x = (notice, y)" by fastforce
  then have "wal_ok s y" using assms wal_ok_core [OF core_view_stranger_notice [of c x], of s] by simp
  then show ?thesis using PreVote n wal_ok_votes(1) [of s y c t lli llt now] by (simp add: case_prod_beta)
next
  case (RequestVote t c lli llt)
  obtain notice y where n: "stranger_notice c x = (notice, y)" by fastforce
  then have "wal_ok s y" using assms wal_ok_core [OF core_view_stranger_notice [of c x], of s] by simp
  then show ?thesis using RequestVote n wal_ok_votes(3) [of s y c t lli llt now entropy] by (simp add: case_prod_beta)
qed (use assms in \<open>simp_all add: wal_ok_votes wal_ok_handle_append_entries wal_ok_handle_append_resp
    wal_ok_handle_install_snapshot wal_ok_handle_install_snapshot_resp wal_ok_small_handlers\<close>)

lemma wal_ok_adopt_term: "wal_ok s x \<Longrightarrow> wal_ok s (adopt_term msg x)"
  by (simp add: adopt_term_def)

lemma wal_ok_handle: "wal_ok s (snd (handle sm from msg now entropy s))"
proof -
  let ?s = "s\<lparr>now_hint := now\<rparr>"
  let ?t = "adopt_term msg ?s"
  have t: "wal_ok s ?t" by (simp add: wal_ok_adopt_term wal_ok_refl)
  have d: "wal_ok s (snd (dispatch sm from msg now entropy x))" if "wal_ok s x" for x
    using that by (rule wal_ok_dispatch)
  obtain o1 s1 where d1: "dispatch sm from msg now entropy ?t = (o1, s1)" by fastforce
  then have s1: "wal_ok s s1" using d [OF t] by simp
  have w: "wal_ok s (snd (dispatch sm from msg now entropy (if quiesced ?t then wake now ?t else ?t)))"
    using t by (intro d) simp
  show ?thesis
  proof (cases "ignored_vote msg now ?s")
    case None
    then show ?thesis using d1 s1 w by (simp add: handle_def Let_def)
  next
    case (Some c)
    let ?x = "(with_stats (\<lambda>c. c\<lparr>rv_ignored_lease := rv_ignored_lease c + 1\<rparr>) ?s)\<lparr>heard_from := insert c (heard_from s)\<rparr>"
    have "wal_ok s (snd (stranger_notice c ?x))" by (simp add: wal_ok_refl)
    then show ?thesis using Some by (simp add: handle_def Let_def case_prod_beta with_stats_def)
  qed
qed

lemma wal_ok_leader_tick: "wal_ok s x \<Longrightarrow> wal_ok s (snd (leader_tick sm now probes x))"
  unfolding leader_tick_def by (rule wal_let | rule wal_if | simp)+

lemma wal_ok_tick_gated: "wal_ok s (snd (tick_gated sm now entropy admit s))"
proof -
  obtain probes x where r: "resend_probes now entropy (s\<lparr>now_hint := now\<rparr>) = (probes, x)" by fastforce
  then have "core_view x = core_view s"
    using resend_probes_view [of now entropy "s\<lparr>now_hint := now\<rparr>"] by (simp add: frame_assign)
  then have "wal_ok s x" using wal_ok_core wal_ok_refl by blast
  then show ?thesis by (simp add: tick_gated_def r wal_ok_leader_tick wal_ok_start_pre_vote)
qed

lemma wal_ok_calls:
  shows "wal_ok s (snd (replicate_now sm now s))" "wal_ok s (snd (campaign_now sm now entropy s))"
    "wal_ok s (snd (begin_cluster_check now entropy s))" "wal_ok s (snd (on_local_wake now entropy s))"
    "wal_ok s (mark_durable_through sm n s)"
  unfolding replicate_now_def campaign_now_def begin_cluster_check_def on_local_wake_def Let_def
  by (simp_all add: wal_ok_refl wal_ok_start_pre_vote split: option.split)

lemma wal_ok_append_own: "wal_ok s (snd (append_own sm command cfg lrn s))"
  unfolding append_own_def Let_def by (simp add: wal_log wal_ok_refl)

lemma wal_ok_proposals:
  shows "wal_ok s (snd (propose sm command s))" "wal_ok s (snd (change_membership sm voters s))"
    "wal_ok s (snd (add_learner sm i s))" "wal_ok s (snd (promote_learner sm i s))" "wal_ok s (snd (remove_learner sm i s))"
  unfolding propose_def change_membership_def add_learner_def promote_learner_def remove_learner_def append_membership_entry_def
  by (simp_all add: wal_ok_append_own wal_ok_refl split: option.split)

end
