(* ===== verification/Raft_Log.thy ===== *)
theory Raft_Log
  imports Raft_Durability
begin

text \<open>
  What a step of the consensus core may do to its log. Apart from the two handlers a leader's messages
  reach, a step leaves the log alone or, as leader, appends one entry of its own term; a node becomes
  leader or candidate only in the ways of an election; and an append request carries a slice of the
  sender's log. \<open>step_ok\<close> is that contract.
\<close>

section \<open>The contract\<close>

definition role_ok :: "('c, 's) RaftCore \<Rightarrow> ('c, 's) RaftCore \<Rightarrow> bool" where
  "role_ok s s' \<longleftrightarrow>
     current_term s \<le> current_term s' \<and>
     (role s' = Leader \<longrightarrow>
        (role s = Leader \<or> role s = Candidate) \<and> current_term s' = current_term s \<or> current_term s < current_term s') \<and>
     (role s' = Candidate \<longrightarrow> role s = Candidate \<and> current_term s' = current_term s \<or> current_term s < current_term s')"

definition own_append :: "('c, 's) RaftCore \<Rightarrow> ('c, 's) RaftCore \<Rightarrow> bool" where
  "own_append s s' \<longleftrightarrow>
     role s' = Leader \<and>
     (\<exists>e. e_term e = current_term s' \<and> e_index e = last_log_index s + 1 \<and>
          wal_view s' = wal_view (s\<lparr>pending := pending s @ [Append e], rlog := rlog s @ [e]\<rparr>))"

fun rep_ok :: "('c, 's) RaftCore \<Rightarrow> 'c RaftMsg \<Rightarrow> bool" where
  "rep_ok s (AppendEntries t l pli plt es lc) = own_replication s (AppendEntries t l pli plt es lc)"
| "rep_ok s _ = True"

definition step_ok :: "('c, 's) RaftCore \<Rightarrow> 'c Out list \<times> ('c, 's) RaftCore \<Rightarrow> bool" where
  "step_ok s r \<longleftrightarrow>
     role_ok s (snd r) \<and> (wal_view (snd r) = wal_view s \<or> own_append s (snd r)) \<and>
     (\<forall>out \<in> set (fst r). rep_ok (snd r) (snd out))"

lemma role_ok_refl [simp]: "role_ok s s"
  by (simp add: role_ok_def)

lemma role_ok_trans: "role_ok s x \<Longrightarrow> role_ok x y \<Longrightarrow> role_ok s y"
  unfolding role_ok_def by (auto dest: order_trans le_less_trans less_le_trans)

lemma last_log_index_wal: "wal_view x = wal_view s \<Longrightarrow> last_log_index x = last_log_index s"
  by (simp add: wal_view_def last_log_index_def)

lemma wal_view_push_cong:
  "wal_view x = wal_view s \<Longrightarrow>
   wal_view (x\<lparr>pending := pending x @ [Append e], rlog := rlog x @ [e]\<rparr>) =
   wal_view (s\<lparr>pending := pending s @ [Append e], rlog := rlog s @ [e]\<rparr>)"
  by (simp add: wal_view_def)

lemma step_ok_after:
  assumes "wal_view x = wal_view s" and "role_ok s x" and "step_ok x r"
  shows "step_ok s r"
proof -
  have "wal_view (snd r) = wal_view s \<or> own_append s (snd r)"
    using assms(3) unfolding step_ok_def own_append_def
    by (auto simp: assms(1) last_log_index_wal [OF assms(1)] wal_view_push_cong [OF assms(1)])
  then show ?thesis using assms(2,3) role_ok_trans by (auto simp: step_ok_def)
qed

lemma rep_ok_view: "core_view s = core_view s' \<Longrightarrow> rep_ok s m = rep_ok s' m"
  using own_replication_view [of s s' m] by (cases m) simp_all

lemma own_replication_rep_ok: "own_replication s m \<Longrightarrow> rep_ok s m"
  by (cases m) simp_all

lemma role_ok_view: "core_view s' = core_view s \<Longrightarrow> role_ok s s'"
  using core_viewD [of s' s] by (simp add: role_ok_def)

text \<open>Steps that keep the core view.\<close>

lemma step_ok_plain:
  assumes "core_view s' = core_view s" and "\<forall>out \<in> set outs. rep_ok s' (snd out)"
  shows "step_ok s (outs, s')"
  using assms role_ok_view wal_view_core by (auto simp: step_ok_def)

lemma step_ok_quiet: "core_view s' = core_view s \<Longrightarrow> step_ok s ([], s')"
  by (simp add: step_ok_plain)

lemma step_ok_down:
  assumes "wal_view s' = wal_view s" and "role s' = Follower \<or> role s' = PreCandidate" and "current_term s \<le> current_term s'"
    and "\<forall>out \<in> set outs. rep_ok s' (snd out)"
  shows "step_ok s (outs, s')"
  using assms by (auto simp: step_ok_def role_ok_def)

lemma step_ok_let:
  assumes "core_view x = core_view s" and "\<And>s'. core_view s' = core_view s \<Longrightarrow> step_ok s (b s')"
  shows "step_ok s (let s' = x in b s')"
  using assms by simp

lemma step_ok_let_any: "(\<And>y. step_ok s (b y)) \<Longrightarrow> step_ok s (let y = x in b y)"
  by simp

lemma step_ok_if: "(c \<Longrightarrow> step_ok s x) \<Longrightarrow> (\<not> c \<Longrightarrow> step_ok s y) \<Longrightarrow> step_ok s (if c then x else y)"
  by simp

lemma step_ok_replicate_list: "core_view s' = core_view s \<Longrightarrow> step_ok s (replicate_list sm p r s')"
proof -
  assume v: "core_view s' = core_view s"
  have v': "core_view (snd (replicate_list sm p r s')) = core_view s'" by (rule core_view_replicate_list)
  have "rep_ok (snd (replicate_list sm p r s')) (snd out)" if "out \<in> set (fst (replicate_list sm p r s'))" for out
    using own_replication_rep_ok [OF replicate_list_msgs [OF that]] rep_ok_view [OF v'] by simp
  then show "step_ok s (replicate_list sm p r s')"
    using step_ok_plain [of "snd (replicate_list sm p r s')" s "fst (replicate_list sm p r s')"] v v' by simp
qed

lemma step_ok_broadcast_append: "core_view s' = core_view s \<Longrightarrow> step_ok s (broadcast_append sm r s')"
proof -
  assume v: "core_view s' = core_view s"
  have v': "core_view (snd (broadcast_append sm r s')) = core_view s'" by (rule core_view_broadcast_append)
  have "rep_ok (snd (broadcast_append sm r s')) (snd out)" if "out \<in> set (fst (broadcast_append sm r s'))" for out
    using own_replication_rep_ok [OF broadcast_append_msgs [OF that]] rep_ok_view [OF v'] by simp
  then show "step_ok s (broadcast_append sm r s')"
    using step_ok_plain [of "snd (broadcast_append sm r s')" s "fst (broadcast_append sm r s')"] v v' by simp
qed

section \<open>Own entries and elections\<close>

lemmas wal_view_frame [simp] =
  frame [THEN wal_view_core] frame_assign [THEN wal_view_core] core_view_leader_folds [THEN wal_view_core]

lemma wal_view_vote_fields [simp]:
  "wal_view (x\<lparr>role := r\<rparr>) = wal_view x" "wal_view (x\<lparr>current_term := t\<rparr>) = wal_view x"
  "wal_view (x\<lparr>voted_for := v\<rparr>) = wal_view x" "wal_view (x\<lparr>votes := vs\<rparr>) = wal_view x"
  by (simp_all add: wal_view_def)

lemma wal_view_log_append:
  "wal_view (log_append sm e x) = wal_view (x\<lparr>pending := pending x @ [Append e], rlog := rlog x @ [e]\<rparr>)"
proof -
  let ?a = "case e_config e of None \<Rightarrow> x | Some voters \<Rightarrow> adopt_config sm e voters x"
  have "wal_view ?a = wal_view x" by (cases "e_config e") (simp_all add: wal_view_adopt_config)
  from wal_view_push_cong [OF this, of e] show ?thesis
    by (cases "e_config e") (simp_all add: log_append_def Let_def)
qed

lemma log_append_vote_fields [simp]:
  "role (log_append sm e x) = role x" "current_term (log_append sm e x) = current_term x"
  by (simp_all add: log_append_def adopt_config_def apply_config_def Let_def split: option.split)

lemma step_ok_append_own:
  assumes "role s = Leader"
  shows "role_ok s (snd (append_own sm command cfg lrn s)) \<and> own_append s (snd (append_own sm command cfg lrn s))"
proof -
  let ?e = "\<lparr>e_term = current_term s, e_index = last_log_index s + 1, e_command = command, e_config = cfg, e_learners = lrn\<rparr>"
  have "wal_view (snd (append_own sm command cfg lrn s)) = wal_view (s\<lparr>pending := pending s @ [Append ?e], rlog := rlog s @ [?e]\<rparr>)"
    by (simp add: append_own_def Let_def wal_view_log_append)
  then show ?thesis
    using assms by (auto simp: own_append_def role_ok_def append_own_def Let_def intro!: exI [of _ ?e])
qed

lemma step_ok_become_leader:
  assumes "role s = Candidate"
  shows "step_ok s (become_leader sm now s)"
proof -
  let ?e = "\<lparr>e_term = current_term s, e_index = last_log_index s + 1, e_command = sm_noop sm, e_config = None, e_learners = None\<rparr>"
  obtain x where b: "become_leader sm now s = broadcast_append sm Always x" and r: "role x = Leader" "current_term x = current_term s"
    and w: "wal_view x = wal_view (s\<lparr>pending := pending s @ [Append ?e], rlog := rlog s @ [?e]\<rparr>)"
  proof -
    define y where "y = s\<lparr>role := Leader, inflight_sent := [], campaign_hold := None, leader_id := Some (node_id s),
      leader_since := Some now, elected_at_commit := max (commit_index s) (snapshot_index s),
      last_leader_contact := Some (node_id s, now), had_leader_contact := True, quiesced := False, last_activity := now,
      peer_check_pending := [], peer_recovered_at := [], peer_applied := []\<rparr>"
    define z where "z = fold (reset_departing_progress (last_log_index s))
        (removals_in_log ((fold (reset_leader_progress now (last_log_index s)) (peers y @ sorted_list_of_set (learners y)) y)\<lparr>departing := []\<rparr>))
        ((fold (reset_leader_progress now (last_log_index s)) (peers y @ sorted_list_of_set (learners y)) y)\<lparr>departing := []\<rparr>)"
    have zy: "core_view z = core_view y"
      unfolding z_def by (simp add: core_view_leader_folds frame_assign)
    have wz: "wal_view z = wal_view s" "role z = Leader" "current_term z = current_term s"
      using core_viewD [OF zy] wal_view_core [OF zy] by (simp_all add: y_def)
    let ?z = "z\<lparr>transfer_target := None, snapshot_send := [], term_start_index := last_log_index s + 1\<rparr>"
    define a where "a = apply_committed sm (maybe_advance_commit (log_append sm ?e ?z))"
    have "become_leader sm now s = broadcast_append sm Always (a\<lparr>heartbeat_deadline := sat_add now (heartbeat_nanos a)\<rparr>)"
      unfolding become_leader_def Let_def a_def
      by (simp add: wz(3)) (simp add: z_def y_def last_log_index_def)
    moreover have "wal_view a = wal_view (s\<lparr>pending := pending s @ [Append ?e], rlog := rlog s @ [?e]\<rparr>)"
      using wal_view_push_cong [of ?z s ?e] wz(1) by (simp add: a_def wal_view_log_append)
    moreover have "role a = Leader" "current_term a = current_term s" using wz by (simp_all add: a_def)
    ultimately show thesis using that by simp
  qed
  have v: "core_view (snd (broadcast_append sm Always x)) = core_view x" by (rule core_view_broadcast_append)
  have "own_append s (snd (broadcast_append sm Always x))" "role_ok s (snd (broadcast_append sm Always x))"
    using r w assms by (auto simp: own_append_def role_ok_def intro!: exI [of _ ?e])
  moreover have "\<forall>out \<in> set (fst (broadcast_append sm Always x)). rep_ok (snd (broadcast_append sm Always x)) (snd out)"
    using step_ok_broadcast_append [of x x sm Always] by (simp add: step_ok_def)
  ultimately show ?thesis by (simp add: step_ok_def b)
qed

lemma step_ok_start_election: "step_ok s (start_election sm now entropy s)"
proof -
  let ?s = "reset_election_timer now entropy ((with_stats (\<lambda>c. c\<lparr>elections_started := elections_started c + 1\<rparr>) s)
      \<lparr>role := Candidate, current_term := current_term s + 1, voted_for := Some (node_id s),
       vote_lease_lapsed := False, leader_id := None, votes := {node_id s}\<rparr>)"
  have r: "role_ok s ?s" "wal_view ?s = wal_view s" "role ?s = Candidate" by (simp_all add: role_ok_def)
  have idle: "step_ok s ([], reset_election_timer now entropy s)" by (intro step_ok_quiet) (simp add: frame)
  have lead: "step_ok s (become_leader sm now ?s)"
    using step_ok_after [OF r(2,1)] step_ok_become_leader [OF r(3)] by blast
  have ask: "step_ok s (map (\<lambda>p. (p, RequestVote (current_term ?s) (node_id ?s) x y)) ps, ?s)" for x y ps
    using r by (auto simp: step_ok_def)
  show ?thesis using idle lead ask by (auto simp: start_election_def Let_def)
qed

lemma step_ok_start_pre_vote: "step_ok s (start_pre_vote sm now entropy s)"
proof -
  let ?f = "reset_election_timer now entropy"
  have probe: "step_ok s (broadcast_cluster_probe x, ?f s)" for x :: "('a, 'b) RaftCore"
    by (intro step_ok_plain) (auto simp: frame broadcast_cluster_probe_def)
  have idle: "step_ok s ([], ?f (s\<lparr>leader_id := l, vote_lease_lapsed := v\<rparr>))" "step_ok s ([], ?f s)" for l v
    by (intro step_ok_quiet; simp add: frame frame_assign)+
  have pre: "role_ok s s'" if "role s' = PreCandidate" "current_term s' = current_term s" for s' :: "('a, 'b) RaftCore"
    using that by (simp add: role_ok_def)
  have ask: "step_ok s (map (\<lambda>p. (p, PreVote t i x y)) ps, s')"
    if "role s' = PreCandidate" "current_term s' = current_term s" "wal_view s' = wal_view s" for s' :: "('a, 'b) RaftCore" and t i x y ps
    using that by (intro step_ok_down) auto
  have elect: "step_ok s (start_election sm now entropy s')"
    if "role s' = PreCandidate" "current_term s' = current_term s" "wal_view s' = wal_view s" for s' :: "('a, 'b) RaftCore"
    using step_ok_after [OF that(3) pre [OF that(1,2)] step_ok_start_election] .
  show ?thesis
    using probe idle by (auto simp: start_pre_vote_def Let_def intro!: elect ask split: ClusterCheck.split)
qed

lemma step_ok_handle_pre_vote: "step_ok s (handle_pre_vote c t lli llt now s)"
proof -
  have keep: "step_ok s ([(c, PreVoteResp a b)], with_stats f s)" for a b f
    by (intro step_ok_plain) (simp_all add: frame)
  have concede: "step_ok s ([(c, PreVoteResp a b)], with_stats f (with_stats g (s\<lparr>role := Follower, votes := {}\<rparr>)))" for a b f g
    by (intro step_ok_down) simp_all
  show ?thesis unfolding handle_pre_vote_def Let_def using keep concede by simp
qed

lemma step_ok_handle_pre_vote_resp: "step_ok s (handle_pre_vote_resp sm from t g now entropy s)"
proof -
  have quiet: "step_ok s ([], with_stats f s)" for f by (intro step_ok_quiet) (simp add: frame)
  have quiet2: "step_ok s ([], (with_stats f s)\<lparr>pre_votes := x\<rparr>)" for f x by (intro step_ok_quiet) (simp add: frame frame_assign)
  have elect: "step_ok s (start_election sm now entropy ((with_stats f s)\<lparr>pre_votes := x\<rparr>))" for f x
    by (rule step_ok_after [OF _ _ step_ok_start_election]) (simp_all add: role_ok_def)
  have down: "step_ok s ([], reset_election_timer now entropy ((with_stats f s)
      \<lparr>current_term := t, voted_for := None, vote_lease_lapsed := False, role := Follower,
       leader_id := None, last_leader_contact := None, pre_votes := {}\<rparr>))" if "current_term s < t" for f
    using that by (intro step_ok_down) simp_all
  have same: "step_ok s ([], s)" by (intro step_ok_quiet) simp
  show ?thesis unfolding handle_pre_vote_resp_def Let_def using quiet quiet2 elect down same by simp
qed

lemma step_ok_keep_role:
  assumes "wal_view s' = wal_view s" and "role s' = role s" and "current_term s' = current_term s" and "\<forall>out \<in> set outs. rep_ok s' (snd out)"
  shows "step_ok s (outs, s')"
  using assms by (simp add: step_ok_def role_ok_def)

lemma step_ok_handle_request_vote: "step_ok s (handle_request_vote c t lli llt now entropy s)"
  unfolding handle_request_vote_def Let_def by (auto intro!: step_ok_keep_role)

lemma step_ok_handle_vote_resp: "step_ok s (handle_vote_resp sm from t g now s)"
proof -
  let ?h = "if g then s\<lparr>heard_from := insert from (heard_from s)\<rparr> else s"
  let ?v = "?h\<lparr>votes := insert from (votes s)\<rparr>"
  have quiet: "step_ok s ([], ?h)" by (intro step_ok_quiet) (simp add: frame_assign)
  have count: "step_ok s ([], ?v)" by (intro step_ok_keep_role) simp_all
  have lead: "step_ok s (become_leader sm now ?v)" if "role s = Candidate"
    using that by (intro step_ok_after [OF _ _ step_ok_become_leader]) (simp_all add: role_ok_def)
  show ?thesis unfolding handle_vote_resp_def Let_def using quiet count lead by auto
qed

lemma step_ok_handle_timeout_now: "step_ok s (handle_timeout_now sm t now entropy s)"
  using step_ok_start_election [of s] step_ok_quiet [of s s] by (simp add: handle_timeout_now_def)

section \<open>Replies and small handlers\<close>

lemma step_ok_handle_append_resp: "step_ok s (handle_append_resp sm from t success m needs check app now s)"
  unfolding handle_append_resp_def
  by (rule step_ok_let | rule step_ok_let_any | rule step_ok_if | rule step_ok_replicate_list
      | rule step_ok_quiet | simp add: frame frame_assign Let_def)+

lemma step_ok_install_replies:
  "step_ok s (install_acknowledged sm from li s)" "step_ok s (install_refused sm from base s)"
  "step_ok s (chunk_acknowledged sm from off s)"
  unfolding install_acknowledged_def install_refused_def chunk_acknowledged_def
  by (rule step_ok_let | rule step_ok_let_any | rule step_ok_if | rule step_ok_replicate_list
      | rule step_ok_quiet | simp add: frame frame_assign)+

lemma step_ok_note: "core_view s' = core_view s \<Longrightarrow> step_ok s' r \<Longrightarrow> step_ok s r"
  using step_ok_after [OF wal_view_core role_ok_view] by blast

lemma step_ok_handle_install_snapshot_resp: "step_ok s (handle_install_snapshot_resp sm from t li off now s)"
proof (cases "role s \<noteq> Leader \<or> t \<noteq> current_term s")
  case True
  then show ?thesis using step_ok_quiet [of s s] by (simp add: handle_install_snapshot_resp_def)
next
  case False
  note r = step_ok_install_replies [of "note_departing_reply from now s"] step_ok_quiet [OF refl, of "note_departing_reply from now s"]
  show ?thesis
    by (rule step_ok_note [OF core_view_note_departing_reply [of "from" now s]])
      (use False r in \<open>auto simp: handle_install_snapshot_resp_def Let_def split: option.split\<close>)
qed

lemma step_ok_small_handlers:
  shows "step_ok s (handle_cluster_probe from s)" "step_ok s (handle_cluster_probe_resp from t ci cfg heard s)"
    "step_ok s ([], handle_quiesce from t ci s)" "step_ok s (handle_wake_request sm from s)"
    "step_ok s (handle_removed from t rm cfg lrn s)" "step_ok s ([], handle_removed_ack sm from t ri s)"
proof -
  show "step_ok s (handle_cluster_probe from s)"
    unfolding handle_cluster_probe_def by (intro step_ok_plain) simp_all
  show "step_ok s (handle_cluster_probe_resp from t ci cfg heard s)"
    unfolding handle_cluster_probe_resp_def Let_def by (auto simp: frame_assign intro!: step_ok_quiet split: ClusterCheck.split)
  show "step_ok s ([], handle_quiesce from t ci s)"
    by (intro step_ok_quiet) (simp add: handle_quiesce_def frame_assign)
  show "step_ok s (handle_wake_request sm from s)"
    unfolding handle_wake_request_def by (rule step_ok_if | rule step_ok_replicate_list | rule step_ok_quiet | simp)+
  have down: "step_ok s ([(from, RemovedAck a b)], s\<lparr>role := Follower, leader_id := l, removed_by_leader := r\<rparr>)" for a b l r
    by (intro step_ok_down) (simp_all add: wal_view_def)
  have stay: "step_ok s ([(from, RemovedAck a b)], bump_notices_ignored s)" "step_ok s ([], bump_notices_ignored s)" for a b
    by (intro step_ok_plain; simp add: frame)+
  show "step_ok s (handle_removed from t rm cfg lrn s)"
    unfolding handle_removed_def using down stay by simp
  have "core_view (handle_removed_ack sm from t ri s) = core_view s"
    by (simp add: handle_removed_ack_def Let_def frame frame_assign split: option.split)
  then show "step_ok s ([], handle_removed_ack sm from t ri s)" by (rule step_ok_quiet)
qed

section \<open>Ticks and calls\<close>

lemma step_ok_leader_tick:
  assumes "\<forall>out \<in> set probes. \<forall>x. rep_ok (x :: ('c, 's) RaftCore) (snd out)"
  shows "step_ok s (leader_tick sm now probes (s :: ('c, 's) RaftCore))"
proof -
  have q: "step_ok s (broadcast_quiesce x, s')" if "core_view s' = core_view s" for s' and x :: "('c, 's) RaftCore"
    using that by (intro step_ok_plain) (auto simp: broadcast_quiesce_def)
  have p: "step_ok s (probes, s')" if "core_view s' = core_view s" for s'
    using that assms by (intro step_ok_plain) simp_all
  show ?thesis
    unfolding leader_tick_def
    by (rule step_ok_let | rule step_ok_if | rule q | rule step_ok_broadcast_append | rule p | simp add: frame frame_assign)+
qed

lemma step_ok_tick_gated: "step_ok s (tick_gated sm now entropy admit s)"
proof -
  obtain probes s' where r: "resend_probes now entropy (s\<lparr>now_hint := now\<rparr>) = (probes, s')" by fastforce
  have v: "core_view s' = core_view s"
    using resend_probes_view [of now entropy "s\<lparr>now_hint := now\<rparr>"] r by (simp add: frame_assign)
  have p: "\<forall>out \<in> set probes. \<forall>x. rep_ok (x :: ('a, 'b) RaftCore) (snd out)"
    using r by (auto simp: resend_probes_def broadcast_cluster_probe_def split: ClusterCheck.splits if_splits)
  have pp: "step_ok s' (probes, s')" using p by (intro step_ok_plain) simp_all
  show ?thesis
    unfolding tick_gated_def r prod.case
    by (rule step_ok_note [OF v])
      (rule step_ok_if | rule step_ok_leader_tick [OF p] | rule step_ok_start_pre_vote | rule step_ok_quiet | rule pp | simp add: frame_assign)+
qed

lemma step_ok_proposals:
  shows "step_ok s ([], snd (propose sm command s))" "step_ok s ([], snd (add_learner sm i s))"
    "step_ok s ([], snd (remove_learner sm i s))"
proof -
  have own: "step_ok s ([], snd (append_own sm command cfg lrn s))" if "role s = Leader" for command cfg lrn
    using step_ok_append_own [OF that] by (simp add: step_ok_def)
  have idle: "step_ok s ([], s)" by (intro step_ok_quiet) simp
  show "step_ok s ([], snd (propose sm command s))"
    using own idle by (simp add: propose_def split: option.split)
  have lead: "learner_change_precheck s = None \<Longrightarrow> role s = Leader"
    by (simp add: learner_change_precheck_def split: if_splits)
  show "step_ok s ([], snd (add_learner sm i s))" "step_ok s ([], snd (remove_learner sm i s))"
    using own idle lead by (simp_all add: add_learner_def remove_learner_def append_membership_entry_def split: option.split)
qed

end
