(* ===== verification/Raft_Chain.thy ===== *)
theory Raft_Chain
  imports Raft_Log
begin

text \<open>
  The history of a log. A history is the set of all entries ever appended by a leader, each with the term
  of the entry before it; a log is chained when every entry follows its predecessor as the history says.
  \<open>log_step\<close> is the contract of a step of the consensus core: it keeps the log chained, and so does every
  prefix of the records it adds to the write-ahead log, unless it is a leader that appends an entry of
  its own.
\<close>

section \<open>Chains\<close>

fun chained :: "(nat \<times> 'c LogEntry) set \<Rightarrow> nat \<times> nat \<Rightarrow> 'c LogEntry list \<Rightarrow> bool" where
  "chained H b [] = True"
| "chained H b (e # es) \<longleftrightarrow> e_index e = Suc (fst b) \<and> (snd b, e) \<in> H \<and> chained H (e_index e, e_term e) es"

definition tip :: "nat \<times> nat \<Rightarrow> 'c LogEntry list \<Rightarrow> nat \<times> nat" where
  "tip b es = (if es = [] then b else (e_index (last es), e_term (last es)))"

lemma tip_simps [simp]: "tip b [] = b" "tip b (e # es) = tip (e_index e, e_term e) es" "tip b (es @ [e]) = (e_index e, e_term e)"
  by (simp_all add: tip_def)

lemma chained_append [simp]: "chained H b (xs @ ys) \<longleftrightarrow> chained H b xs \<and> chained H (tip b xs) ys"
  by (induction xs arbitrary: b) auto

lemma chained_mono: "chained H b es \<Longrightarrow> H \<subseteq> H' \<Longrightarrow> chained H' b es"
  by (induction es arbitrary: b) auto

lemma chained_take: "chained H b es \<Longrightarrow> chained H b (take k es)"
  using chained_append [of H b "take k es" "drop k es"] by simp

lemma chained_drop: "chained H b es \<Longrightarrow> chained H (tip b (take k es)) (drop k es)"
  using chained_append [of H b "take k es" "drop k es"] by simp

lemma tip_index: "chained H b es \<Longrightarrow> fst (tip b es) = fst b + length es"
  by (induction es arbitrary: b) auto

lemma chained_nth_index: "chained H b es \<Longrightarrow> k < length es \<Longrightarrow> e_index (es ! k) = fst b + 1 + k"
proof (induction es arbitrary: b k)
  case (Cons e es)
  then show ?case by (cases k) auto
qed simp

lemma chained_above: "chained H b es \<Longrightarrow> \<forall>x \<in> set es. fst b < e_index x"
  by (induction es arbitrary: b) fastforce+

lemma chained_filter:
  assumes "chained H b es" and "fst b \<le> i"
  shows "filter (\<lambda>e. i < e_index e) es = drop (i - fst b) es"
  using assms
proof (induction es arbitrary: b)
  case (Cons e es)
  show ?case
  proof (cases "i = fst b")
    case True
    then have "\<forall>x \<in> set (e # es). i < e_index x" using chained_above [OF Cons(2)] by simp
    then show ?thesis using True by (simp add: filter_id_conv)
  next
    case False
    then have "e_index e = Suc (fst b)" "Suc (fst b) \<le> i" "i - fst b = Suc (i - Suc (fst b))" using Cons(2,3) by simp_all
    then show ?thesis using Cons(1) [of "(e_index e, e_term e)"] Cons(2) by simp
  qed
qed simp

text \<open>A base below index 1 has term 0.\<close>

definition nbase :: "nat \<times> nat \<Rightarrow> nat \<times> nat" where
  "nbase b = (fst b, if fst b = 0 then 0 else snd b)"

definition log_base :: "('c, 's) RaftCore \<Rightarrow> nat \<times> nat" where
  "log_base s = nbase (snapshot_index s, snapshot_term s)"

definition chained_core :: "(nat \<times> 'c LogEntry) set \<Rightarrow> ('c, 's) RaftCore \<Rightarrow> bool" where
  "chained_core H s \<longleftrightarrow> chained H (log_base s) (rlog s)"

lemma fst_log_base [simp]: "fst (log_base s) = snapshot_index s"
  by (simp add: log_base_def nbase_def)

lemma last_log_index_chained: "chained_core H s \<Longrightarrow> last_log_index s = snapshot_index s + length (rlog s)"
  using tip_index [of H "log_base s" "rlog s"] by (auto simp: chained_core_def last_log_index_def tip_def)

lemma term_at_chained:
  assumes "chained_core H s" and "snapshot_index s \<le> i" and "i \<le> last_log_index s"
  shows "tip (log_base s) (take (i - snapshot_index s) (rlog s)) = (i, term_at s i)"
proof (cases "i = snapshot_index s")
  case True
  then show ?thesis by (simp add: log_base_def nbase_def term_at_def)
next
  case False
  let ?k = "i - snapshot_index s - 1"
  have k: "?k < length (rlog s)" "i - snapshot_index s = Suc ?k" using assms(2,3) last_log_index_chained [OF assms(1)] False by auto
  have "e_index (rlog s ! ?k) = i"
    using chained_nth_index [of H "log_base s" "rlog s" ?k] assms(1,2) k by (simp add: chained_core_def)
  moreover have "term_at s i = e_term (rlog s ! ?k)" using k False assms(2) by (simp add: term_at_def Let_def)
  ultimately show ?thesis using k by (simp add: take_Suc_conv_app_nth)
qed

section \<open>The contract of a step\<close>

definition good :: "(nat \<times> 'c LogEntry) set \<Rightarrow> ('c, 's) PersistedState \<Rightarrow> bool" where
  "good H p \<longleftrightarrow> chained H (nbase (base_of p)) (p_log p)"

definition log_match :: "('c, 's) RaftCore \<Rightarrow> ('c, 's) PersistedState \<Rightarrow> bool" where
  "log_match s p \<longleftrightarrow> p_log p = rlog s \<and> nbase (base_of p) = log_base s"

definition log_ok :: "(nat \<times> 'c LogEntry) set \<Rightarrow> ('c, 's) RaftCore \<Rightarrow> ('c, 's) RaftCore \<Rightarrow> bool" where
  "log_ok H s s' \<longleftrightarrow>
     chained_core H s' \<and> (install_rewrite_owed s \<longrightarrow> install_rewrite_owed s') \<and>
     (snapshot_dirty s \<longrightarrow> snapshot_dirty s') \<and> (install_rewrite_owed s' \<longrightarrow> install_rewrite_owed s \<or> snapshot_dirty s') \<and>
     (\<exists>new. pending s' = pending s @ new \<and>
        (\<not> install_rewrite_owed s' \<longrightarrow>
           (\<forall>p. log_match s p \<longrightarrow>
              log_match s' (fold replay_record new p) \<and> (\<forall>k. good H (fold replay_record (take k new) p)))))"

lemma good_match: "chained_core H s \<Longrightarrow> log_match s p \<Longrightarrow> good H p"
  by (simp add: good_def log_match_def chained_core_def)

lemma log_ok_view:
  assumes "chained_core H s" and "wal_view s' = wal_view s"
  shows "log_ok H s s'"
proof -
  have "rlog s' = rlog s" "log_base s' = log_base s" "pending s' = pending s"
      "install_rewrite_owed s' = install_rewrite_owed s" "snapshot_dirty s' = snapshot_dirty s"
    using assms(2) by (simp_all add: wal_view_def log_base_def)
  then show ?thesis
    using assms(1) good_match [OF assms(1)] by (auto simp: log_ok_def chained_core_def log_match_def intro!: exI [of _ "[]"])
qed

lemma log_ok_cong: "wal_view s' = wal_view s'' \<Longrightarrow> log_ok H s s' = log_ok H s s''"
  unfolding log_ok_def chained_core_def log_match_def log_base_def wal_view_def by simp

lemma log_ok_cong_left: "wal_view s' = wal_view s'' \<Longrightarrow> log_ok H s' s = log_ok H s'' s"
  unfolding log_ok_def log_match_def log_base_def wal_view_def by simp

lemma log_okD: "log_ok H s s' \<Longrightarrow> chained_core H s'"
  by (simp add: log_ok_def)

lemma log_ok_trans:
  assumes "log_ok H s s'" and "log_ok H s' s''"
  shows "log_ok H s s''"
proof -
  obtain new where n: "pending s' = pending s @ new"
      "\<not> install_rewrite_owed s' \<Longrightarrow> log_match s p \<Longrightarrow>
         log_match s' (fold replay_record new p) \<and> (\<forall>k. good H (fold replay_record (take k new) p))" for p
    using assms(1) unfolding log_ok_def by blast
  obtain new' where n': "pending s'' = pending s' @ new'"
      "\<not> install_rewrite_owed s'' \<Longrightarrow> log_match s' p \<Longrightarrow>
         log_match s'' (fold replay_record new' p) \<and> (\<forall>k. good H (fold replay_record (take k new') p))" for p
    using assms(2) unfolding log_ok_def by blast
  have o: "install_rewrite_owed s' \<Longrightarrow> install_rewrite_owed s''" using assms(2) by (simp add: log_ok_def)
  have "log_match s'' (fold replay_record (new @ new') p) \<and> (\<forall>k. good H (fold replay_record (take k (new @ new')) p))"
    if no: "\<not> install_rewrite_owed s''" and m: "log_match s p" for p
  proof -
    have f: "log_match s' (fold replay_record new p)" "good H (fold replay_record (take k new) p)" for k
      using n(2) [of p] o no m by blast+
    have g: "good H (fold replay_record (take k new') (fold replay_record new p))" for k using n'(2) [OF no f(1)] by blast
    have "good H (fold replay_record (take k (new @ new')) p)" for k
      using f(2) [of k] g [of "k - length new"] by (cases "k \<le> length new") simp_all
    then show ?thesis using n'(2) [OF no f(1)] by simp
  qed
  then have "\<exists>w. pending s'' = pending s @ w \<and>
        (\<not> install_rewrite_owed s'' \<longrightarrow>
           (\<forall>p. log_match s p \<longrightarrow>
              log_match s'' (fold replay_record w p) \<and> (\<forall>k. good H (fold replay_record (take k w) p))))"
    using n(1) n'(1) by (intro exI [of _ "new @ new'"]) simp
  then show ?thesis using assms unfolding log_ok_def by blast
qed

text \<open>One entry at the end, one truncation, one snapshot base.\<close>

lemma take_single: "take k [x] = (if k = 0 then [] else [x])"
  by (cases k) simp_all

lemma log_ok_push:
  assumes "chained_core H s" and "(snd (tip (log_base s) (rlog s)), e) \<in> H" and "e_index e = Suc (last_log_index s)"
  shows "log_ok H s (s\<lparr>pending := pending s @ [Append e], rlog := rlog s @ [e]\<rparr>)"
proof -
  let ?s = "s\<lparr>pending := pending s @ [Append e], rlog := rlog s @ [e]\<rparr>"
  have c: "chained H (log_base s) (rlog s @ [e])"
    using assms last_log_index_chained [OF assms(1)] tip_index [of H "log_base s" "rlog s"] by (simp add: chained_core_def)
  have "log_match ?s (replay_record (Append e) p) \<and> good H p \<and> good H (replay_record (Append e) p)" if "log_match s p" for p
    using that c good_match [OF assms(1) that] by (simp add: log_match_def good_def base_of_def log_base_def)
  then show ?thesis
    using c by (auto simp: log_ok_def chained_core_def log_base_def take_single intro!: exI [of _ "[Append e]"])
qed

lemma log_ok_log_append:
  assumes "chained_core H s" and "(snd (tip (log_base s) (rlog s)), e) \<in> H" and "e_index e = Suc (last_log_index s)"
  shows "log_ok H s (log_append sm e s)"
  unfolding log_ok_cong [OF wal_view_log_append] using assms by (rule log_ok_push)

lemma wal_view_log_truncate:
  "wal_view (log_truncate k s) = wal_view (s\<lparr>rlog := take k (rlog s), pending := pending s @ [Truncate k]\<rparr>)"
  by (simp add: log_truncate_def Let_def recompute_config_def wal_view_apply_config) (simp add: wal_view_def)

lemma log_ok_log_truncate:
  assumes "chained_core H s"
  shows "log_ok H s (log_truncate k s)"
proof -
  let ?s = "s\<lparr>rlog := take k (rlog s), pending := pending s @ [Truncate k]\<rparr>"
  have c: "chained H (log_base s) (take k (rlog s))" using assms by (simp add: chained_core_def chained_take)
  have "log_match ?s (replay_record (Truncate k) p) \<and> good H p \<and> good H (replay_record (Truncate k) p)" if "log_match s p" for p
    using that c good_match [OF assms that] by (simp add: log_match_def good_def base_of_def log_base_def)
  then have "log_ok H s ?s"
    using c by (auto simp: log_ok_def chained_core_def log_base_def take_single intro!: exI [of _ "[Truncate k]"])
  then show ?thesis unfolding log_ok_cong [OF wal_view_log_truncate] .
qed

lemma log_ok_install_base:
  assumes "chained_core H s"
  shows "log_ok H s (install_base li lt cfg lrn s)"
proof -
  let ?y = "s\<lparr>snapshot_index := li, snapshot_term := lt, last_applied := li, commit_index := li, rlog := [],
      applied := [], snapshot_dirty := True, snapshot_config := cfg, snapshot_learners := lrn\<rparr>"
  define z where "z = refresh_removed_flag (recompute_config ?y)"
  have "wal_view z = wal_view ?y"
    by (simp add: z_def wal_view_core [OF core_view_refresh_removed_flag] recompute_config_def wal_view_apply_config)
  then have z: "rlog z = []" "snapshot_index z = li" "snapshot_term z = lt" "pending z = pending s" "snapshot_dirty z"
      "install_rewrite_owed z = install_rewrite_owed s"
    by (simp_all add: wal_view_def)
  have i: "install_base li lt cfg lrn s =
      (if \<not> wal_records_install z then z\<lparr>install_rewrite_owed := True\<rparr>
       else z\<lparr>pending := pending z @ [Snapshot (metadata z) (snapshot_index z) (snapshot_term z) (snapshot_config z) (snapshot_learners z)]\<rparr>)"
    by (simp add: install_base_def z_def Let_def)
  have m: "good H p" if "log_match s p" for p using good_match [OF assms that] .
  show ?thesis
    unfolding i using z m
    by (auto simp: log_ok_def chained_core_def log_match_def base_of_def log_base_def take_single good_def
        intro!: exI [of _ "[Snapshot (metadata z) li lt (snapshot_config z) (snapshot_learners z)]"])
qed

section \<open>Accepting a leader's entries\<close>

lemma chained_viewD:
  assumes "wal_view s' = wal_view s"
  shows "chained_core H s' = chained_core H s" "last_log_index s' = last_log_index s" "term_at s' i = term_at s i"
    "snapshot_index s' = snapshot_index s" "log_base s' = log_base s" "rlog s' = rlog s"
  using assms by (simp_all add: wal_view_def chained_core_def log_base_def last_log_index_def term_at_def Let_def)

lemma log_ok_append_at:
  assumes "chained_core H s" and "snapshot_index s \<le> i" and "i = last_log_index s" and "(term_at s i, e) \<in> H" and "e_index e = Suc i"
  shows "log_ok H s (log_append sm e s) \<and> last_log_index (log_append sm e s) = Suc i \<and>
         term_at (log_append sm e s) (Suc i) = e_term e \<and> snapshot_index (log_append sm e s) = snapshot_index s"
proof -
  let ?x = "s\<lparr>pending := pending s @ [Append e], rlog := rlog s @ [e]\<rparr>"
  have "length (rlog s) = i - snapshot_index s" using last_log_index_chained [OF assms(1)] assms(2,3) by simp
  then have t: "tip (log_base s) (rlog s) = (i, term_at s i)" using term_at_chained [OF assms(1,2)] assms(3) by simp
  have "log_ok H s (log_append sm e s)" using assms t by (intro log_ok_log_append) simp_all
  moreover have "last_log_index ?x = Suc i" "snapshot_index ?x = snapshot_index s" using assms(5) by (simp_all add: last_log_index_def)
  moreover have "term_at ?x (Suc i) = e_term e"
    using assms(2,3) last_log_index_chained [OF assms(1)] by (simp add: term_at_def Let_def)
  ultimately show ?thesis using chained_viewD [OF wal_view_log_append [of sm e s]] by simp
qed

lemma log_ok_accept_entry:
  assumes "chained_core H s" and "snapshot_index s \<le> i" and "i \<le> last_log_index s" and "(term_at s i, e) \<in> H" and "e_index e = Suc i"
  shows "log_ok H s (accept_entry sm (Suc i) e s) \<and> Suc i \<le> last_log_index (accept_entry sm (Suc i) e s) \<and>
         term_at (accept_entry sm (Suc i) e s) (Suc i) = e_term e \<and> snapshot_index (accept_entry sm (Suc i) e s) = snapshot_index s"
proof (cases "Suc i \<le> last_log_index s")
  case False
  then show ?thesis using log_ok_append_at [OF assms(1,2) _ assms(4,5), of sm] assms(3) by (simp add: accept_entry_def)
next
  case True
  show ?thesis
  proof (cases "term_at s (Suc i) = e_term e")
    case same: True
    then show ?thesis using True log_ok_view [OF assms(1) refl] by (simp add: accept_entry_def)
  next
    case differs: False
    let ?k = "i - snapshot_index s"
    let ?t = "log_truncate ?k s"
    note v = chained_viewD [OF wal_view_log_truncate [of ?k s]]
    have t: "log_ok H s ?t" by (rule log_ok_log_truncate [OF assms(1)])
    have c: "chained_core H ?t" using log_okD [OF t] .
    have l: "last_log_index ?t = i" "snapshot_index ?t = snapshot_index s"
      using last_log_index_chained [OF c] last_log_index_chained [OF assms(1)] assms(2,3) v(4,6) by simp_all
    have "tip (log_base ?t) (take (i - snapshot_index ?t) (rlog ?t)) = (i, term_at ?t i)"
      using l assms(2) by (intro term_at_chained [OF c]) simp_all
    moreover have "tip (log_base s) (take (i - snapshot_index s) (rlog s)) = (i, term_at s i)"
      using term_at_chained [OF assms(1-3)] .
    ultimately have "term_at ?t i = term_at s i" using v(5,6) l(2) by (simp add: log_base_def)
    then have "log_ok H ?t (log_append sm e ?t) \<and> last_log_index (log_append sm e ?t) = Suc i \<and>
         term_at (log_append sm e ?t) (Suc i) = e_term e \<and> snapshot_index (log_append sm e ?t) = snapshot_index ?t"
      using log_ok_append_at [OF c _ _ _ assms(5), of sm] l assms(2,4) by simp
    then show ?thesis using True differs log_ok_trans [OF t] l by (simp add: accept_entry_def)
  qed
qed

lemma log_ok_accept_entries:
  assumes "chained_core H s" and "snapshot_index s \<le> i" and "i \<le> last_log_index s" and "chained H (i, term_at s i) es"
  shows "log_ok H s (accept_entries sm i es s)"
  using assms
proof (induction es arbitrary: i s)
  case Nil
  then show ?case using log_ok_view by fastforce
next
  case (Cons e es)
  have e: "e_index e = Suc i" "(term_at s i, e) \<in> H" "chained H (Suc i, e_term e) es" using Cons(5) by auto
  note a = log_ok_accept_entry [OF Cons(2-4) e(2,1), of sm]
  have "log_ok H (accept_entry sm (Suc i) e s) (accept_entries sm (Suc i) es (accept_entry sm (Suc i) e s))"
    using a e(3) log_okD Cons(3) by (intro Cons(1)) (blast | simp)+
  then show ?case using a log_ok_trans by auto
qed

section \<open>Steps of the core\<close>

definition log_step :: "(nat \<times> 'c LogEntry) set \<Rightarrow> ('c, 's) RaftCore \<Rightarrow> 'c Out list \<times> ('c, 's) RaftCore \<Rightarrow> bool" where
  "log_step H s r \<longleftrightarrow>
     role_ok s (snd r) \<and> (\<forall>out \<in> set (fst r). rep_ok (snd r) (snd out)) \<and>
     (log_ok H s (snd r) \<and> (role (snd r) = Leader \<longrightarrow> last_log_index s \<le> last_log_index (snd r)) \<or> own_append s (snd r))"

fun msg_chained :: "(nat \<times> 'c LogEntry) set \<Rightarrow> 'c RaftMsg \<Rightarrow> bool" where
  "msg_chained H (AppendEntries t l pli plt es lc) = chained H (nbase (pli, plt)) es"
| "msg_chained H _ = True"

lemma step_ok_log_step: "chained_core H s \<Longrightarrow> step_ok s r \<Longrightarrow> log_step H s r"
  using log_ok_view [of H s "snd r"] last_log_index_wal [of "snd r" s] by (auto simp: step_ok_def log_step_def)

lemma log_step_after:
  assumes "wal_view x = wal_view s" and "role_ok s x" and "log_step H x r"
  shows "log_step H s r"
proof -
  have "own_append s (snd r)" if "own_append x (snd r)"
    using that unfolding own_append_def
    by (auto simp: assms(1) last_log_index_wal [OF assms(1)] wal_view_push_cong [OF assms(1)])
  moreover have "log_ok H s (snd r) = log_ok H x (snd r)" using log_ok_cong_left [OF assms(1)] by simp
  ultimately show ?thesis
    using assms(2,3) role_ok_trans last_log_index_wal [OF assms(1)] unfolding log_step_def by auto
qed

lemma log_step_then:
  assumes "log_step H s (outs, s')" and "core_view s'' = core_view s'"
  shows "log_step H s (outs, s'')"
proof -
  have v: "wal_view s'' = wal_view s'" "role s'' = role s'" "current_term s'' = current_term s'"
    using wal_view_core [OF assms(2)] core_viewD [OF assms(2)] by simp_all
  have "role_ok s s'' = role_ok s s'" "own_append s s'' = own_append s s'" "log_ok H s s'' = log_ok H s s'"
    "last_log_index s'' = last_log_index s'"
    using v log_ok_cong [OF v(1)] last_log_index_wal [OF v(1)] by (simp_all add: role_ok_def own_append_def)
  then show ?thesis using assms(1) v rep_ok_view [OF assms(2)] by (simp add: log_step_def)
qed

lemma log_step_notice:
  assumes "log_step H s r" and "\<And>out x. notice = Some out \<Longrightarrow> rep_ok (x :: ('c, 's) RaftCore) (snd out)"
  shows "log_step H (s :: ('c, 's) RaftCore) (case r of (out, s') \<Rightarrow> (out @ (case notice of None \<Rightarrow> [] | Some m \<Rightarrow> [m]), s'))"
  using assms by (cases r; cases notice) (auto simp: log_step_def)

lemma log_step_follow:
  assumes "log_ok H s s'" and "role s' = Follower" and "current_term s \<le> current_term s'" and "\<forall>out \<in> set outs. rep_ok s' (snd out)"
  shows "log_step H s (outs, s')"
  using assms by (simp add: log_step_def role_ok_def)

lemma rep_ok_append_resp [simp]: "rep_ok s (append_resp b m x)"
  by (simp add: append_resp_def)

lemma accept_entries_vote_fields [simp]:
  "role (accept_entries sm i es s) = role s" "current_term (accept_entries sm i es s) = current_term s"
  using vote_viewD [OF vote_view_accept_entries [of sm i es s]] by simp_all

lemma log_step_handle_append_entries:
  assumes "chained_core H s" and "chained H (nbase (pli, plt)) es"
  shows "log_step H s (handle_append_entries sm t l pli plt es lc now entropy s)"
proof -
  let ?s = "s\<lparr>heard_from := insert l (heard_from s)\<rparr>"
  let ?f = "follow_leader l now entropy ?s"
  have f: "wal_view ?f = wal_view s" by (simp add: follow_leader_def)
  have cf: "chained_core H ?f" using chained_viewD(1) [OF f] assms(1) by simp
  have stale: "log_step H s ([(l, append_resp b m x)], ?s)" for b m and x :: "('a, 'b) RaftCore"
    by (rule step_ok_log_step [OF assms(1)]) (auto intro!: step_ok_plain simp: frame_assign)
  have follow: "log_step H s ([(l, append_resp b m x)], ?f)" for b m and x :: "('a, 'b) RaftCore"
    by (rule step_ok_log_step [OF assms(1)]) (auto intro!: step_ok_down simp: f)
  have acc: "log_step H s ([(l, append_resp b m x)], y)"
    if "snapshot_index ?f \<le> pli" "\<not> (0 < pli \<and> (last_log_index ?f < pli \<or> term_at ?f pli \<noteq> plt))"
      "core_view y = core_view (accept_entries sm pli es ?f)" for b m x and y :: "('a, 'b) RaftCore"
  proof -
    have p: "pli \<le> last_log_index ?f" "nbase (pli, plt) = (pli, term_at ?f pli)"
      using that(2) by (auto simp: nbase_def term_at_def)
    have "log_ok H ?f (accept_entries sm pli es ?f)"
      using assms(2) p by (intro log_ok_accept_entries [OF cf that(1)]) simp_all
    then have "log_ok H s y"
      unfolding log_ok_cong [OF wal_view_core [OF that(3)]] using log_ok_cong_left [OF f] by blast
    then show ?thesis using core_viewD [OF that(3)] by (intro log_step_follow) simp_all
  qed
  have adv: "core_view (if c then apply_committed sm (a\<lparr>commit_index := k\<rparr>) else a) = core_view a" for c k and a :: "('a, 'b) RaftCore"
    by (simp add: frame frame_assign)
  consider (a) "t < current_term ?s" | (b) "\<not> t < current_term ?s" "pli < snapshot_index ?f"
    | (c) "\<not> t < current_term ?s" "\<not> pli < snapshot_index ?f" "0 < pli \<and> (last_log_index ?f < pli \<or> term_at ?f pli \<noteq> plt)"
    | (d) "\<not> t < current_term ?s" "\<not> pli < snapshot_index ?f" "\<not> (0 < pli \<and> (last_log_index ?f < pli \<or> term_at ?f pli \<noteq> plt))"
    by blast
  then show ?thesis
  proof cases
    case a
    show ?thesis unfolding handle_append_entries_def Let_def if_P [OF a] by (rule stale)
  next
    case b
    show ?thesis unfolding handle_append_entries_def Let_def if_not_P [OF b(1)] if_P [OF b(2)] by (rule follow)
  next
    case c
    show ?thesis unfolding handle_append_entries_def Let_def if_not_P [OF c(1)] if_not_P [OF c(2)] if_P [OF c(3)] by (rule follow)
  next
    case d
    show ?thesis
      unfolding handle_append_entries_def Let_def if_not_P [OF d(1)] if_not_P [OF d(2)] if_not_P [OF d(3)]
      by (rule acc [OF _ d(3) adv]) (use d(2) in simp)
  qed
qed

lemma wal_view_install_fields [simp]:
  "wal_view (x\<lparr>incoming_snapshot := a\<rparr>) = wal_view x" "wal_view (x\<lparr>last_installed_index := b\<rparr>) = wal_view x"
  "wal_view (x\<lparr>snapshot_blob := c\<rparr>) = wal_view x" "wal_view (x\<lparr>pending_install := d\<rparr>) = wal_view x"
  "wal_view (x\<lparr>metadata := e\<rparr>) = wal_view x"
  by (simp_all add: wal_view_def)

lemma log_step_install_complete:
  assumes "chained_core H s" and "role s = Follower"
  shows "log_step H s (install_complete sm l inc cfg lrn s)"
proof -
  let ?x = "s\<lparr>incoming_snapshot := None, last_installed_index := Some (inc_last_index inc)\<rparr>"
  have base: "log_step H s ([(l, InstallSnapshotResp a b c)], y)"
    if "wal_view y = wal_view (install_base (inc_last_index inc) (inc_last_term inc) cfg lrn z)" "wal_view z = wal_view s"
      "role y = Follower" "current_term y = current_term s" for a b c and y z :: "('a, 'b) RaftCore"
  proof -
    have "chained_core H z" using chained_viewD(1) [OF that(2)] assms(1) by simp
    then have "log_ok H z (install_base (inc_last_index inc) (inc_last_term inc) cfg lrn z)" by (rule log_ok_install_base)
    then have "log_ok H s y" using log_ok_cong [OF that(1)] log_ok_cong_left [OF that(2)] by blast
    then show ?thesis using that(3,4) by (intro log_step_follow) simp_all
  qed
  have refuse: "log_step H s ([(l, InstallSnapshotResp a b c)], ?x)" for a b c
    by (rule log_step_follow) (use log_ok_view [OF assms(1), of ?x] assms(2) in simp_all)
  show ?thesis
    unfolding install_complete_def Let_def using assms(2)
    by (auto intro!: base refuse split: sum.split)
qed

lemma log_step_handle_install_snapshot:
  assumes "chained_core H s"
  shows "log_step H s (handle_install_snapshot sm t l li lt off data tot fin cfg lrn now entropy s)"
proof -
  let ?s = "s\<lparr>heard_from := insert l (heard_from s)\<rparr>"
  let ?f = "follow_leader l now entropy ?s"
  have stale: "log_step H s ([(l, InstallSnapshotResp a b c)], ?s)" for a b c
    by (rule step_ok_log_step [OF assms]) (auto intro!: step_ok_plain simp: frame_assign)
  have follow: "log_step H s ([(l, InstallSnapshotResp a b c)], ?f\<lparr>incoming_snapshot := x\<rparr>)" for a b c x
    by (rule step_ok_log_step [OF assms]) (auto intro!: step_ok_down simp: follow_leader_def)
  have inst: "log_step H s (install_complete sm l inc cfg lrn (?f\<lparr>incoming_snapshot := x\<rparr>))" for inc x
  proof -
    have v: "wal_view (?f\<lparr>incoming_snapshot := x\<rparr>) = wal_view s" by (simp add: follow_leader_def)
    have c: "chained_core H (?f\<lparr>incoming_snapshot := x\<rparr>)" using chained_viewD(1) [OF v] assms by simp
    show ?thesis by (rule log_step_after [OF v _ log_step_install_complete [OF c]]) (simp_all add: role_ok_def)
  qed
  show ?thesis
    unfolding handle_install_snapshot_def Let_def using stale follow inst by (simp split: option.split)
qed

lemma stranger_notice_rep_ok: "fst (stranger_notice c s) = Some out \<Longrightarrow> rep_ok x (snd out)"
  by (auto simp: stranger_notice_def removal_notice_for_def split: if_splits option.splits)

lemma log_step_with_notice:
  assumes "chained_core H s" and "\<And>s'. step_ok s' (f s')"
  shows "log_step H s (case stranger_notice c s of (notice, s') \<Rightarrow>
    (case f s' of (out, s') \<Rightarrow> (out @ (case notice of None \<Rightarrow> [] | Some m \<Rightarrow> [m]), s')))"
proof -
  obtain notice s' where n: "stranger_notice c s = (notice, s')" by fastforce
  then have v: "core_view s' = core_view s" using core_view_stranger_notice [of c s] by simp
  have "log_step H s (f s')" using step_ok_log_step [OF assms(1) step_ok_note [OF v assms(2)]] .
  then show ?thesis
    unfolding n prod.case by (rule log_step_notice) (rule stranger_notice_rep_ok [of c s], simp add: n)
qed

lemma log_step_dispatch:
  assumes "chained_core H s" and "msg_chained H msg"
  shows "log_step H s (dispatch sm from msg now entropy s)"
proof (cases msg)
  case (PreVote t c lli llt)
  show ?thesis
    unfolding PreVote dispatch.simps by (rule log_step_with_notice [OF assms(1)]) (rule step_ok_handle_pre_vote)
next
  case (RequestVote t c lli llt)
  show ?thesis
    unfolding RequestVote dispatch.simps by (rule log_step_with_notice [OF assms(1)]) (rule step_ok_handle_request_vote)
next
  case (AppendEntries t l pli plt es lc)
  then show ?thesis using assms log_step_handle_append_entries by simp
next
  case (InstallSnapshot t l li lt off data tot fin cfg lrn)
  then show ?thesis using assms log_step_handle_install_snapshot by simp
qed (use step_ok_log_step [OF assms(1)] in \<open>simp_all add: step_ok_handle_pre_vote_resp step_ok_handle_vote_resp
    step_ok_handle_append_resp step_ok_handle_install_snapshot_resp step_ok_quiet step_ok_handle_timeout_now step_ok_small_handlers\<close>)

lemma log_step_handle:
  assumes "chained_core H s" and "msg_chained H msg"
  shows "log_step H s (handle sm from msg now entropy s)"
proof -
  let ?s = "s\<lparr>now_hint := now\<rparr>"
  let ?t = "adopt_term msg ?s"
  have t: "wal_view ?t = wal_view s" "role_ok s ?t" by (simp_all add: adopt_term_def role_ok_def)
  have go: "log_step H s (dispatch sm from msg now entropy x)" if "core_view x = core_view ?t" for x
  proof -
    have v: "wal_view x = wal_view s" "role_ok s x"
      using wal_view_core [OF that] t role_ok_trans [OF t(2) role_ok_view [OF that]] by simp_all
    have "chained_core H x" using chained_viewD(1) [OF v(1)] assms(1) by simp
    then show ?thesis using log_step_after [OF v] log_step_dispatch assms(2) by blast
  qed
  have out: "log_step H s (case dispatch sm from msg now entropy ?t of (o1, s1) \<Rightarrow> (o1, f o1 s1))"
    if f: "\<And>o1 s1. core_view (f o1 s1) = core_view s1" for f
  proof -
    obtain o1 s1 where d: "dispatch sm from msg now entropy ?t = (o1, s1)" by fastforce
    show ?thesis using log_step_then [OF go [OF refl, unfolded d] f] by (simp add: d)
  qed
  have ack: "log_step H s (case dispatch sm from msg now entropy ?t of (o1, s1) \<Rightarrow> (o1, if o1 \<noteq> [] then wake now s1 else s1))"
    by (rule out) (simp add: frame)
  have beat: "log_step H s (case dispatch sm from msg now entropy ?t of (o1, s1) \<Rightarrow>
      (o1, if \<not> list_all clean_ack o1 \<or> last_log_index s1 \<noteq> commit_index s1 then s1\<lparr>quiesced := False, last_activity := now\<rparr> else s1))"
    by (rule out) (simp add: frame_assign)
  have woken: "log_step H s (dispatch sm from msg now entropy (if quiesced ?t then wake now ?t else ?t))"
    by (rule go) (simp add: frame)
  have ign: "log_step H s (case stranger_notice x s1 of (notice, s2) \<Rightarrow>
      ((case notice of None \<Rightarrow> [] | Some m \<Rightarrow> [m]), if quiesced s2 then wake now s2 else s2))"
    if "core_view s1 = core_view s" for x s1
  proof -
    obtain notice s2 where n: "stranger_notice x s1 = (notice, s2)" by fastforce
    then have "core_view s2 = core_view s" using core_view_stranger_notice [of x s1] that by simp
    moreover have "rep_ok y (snd out)" if "notice = Some out" for out and y :: "('a, 'b) RaftCore"
      by (rule stranger_notice_rep_ok [of x s1]) (simp add: n that)
    ultimately show ?thesis
      unfolding n prod.case by (intro step_ok_log_step [OF assms(1)] step_ok_plain) (cases notice; simp add: frame)+
  qed
  show ?thesis
  proof (cases "ignored_vote msg now ?s")
    case None
    then show ?thesis unfolding handle_def Let_def using ack beat woken by simp
  next
    case (Some x)
    then show ?thesis unfolding handle_def Let_def using ign by (simp add: frame frame_assign)
  qed
qed

end
