(* ===== verification/Raft_Driver.thy ===== *)
theory Raft_Driver
  imports Raft_Durability
begin

text \<open>
  The driver of a control-plane node: the write-ahead log rounds of
  \<^verbatim>\<open>persist_round.rs\<close> (\<open>PersistProgress\<close>, \<open>GatedOuts\<close>) and the loop of
  \<^verbatim>\<open>node.rs\<close> around the consensus core (boot, receive, tick, persist, compaction, the
  rewrite after a full disk). An asynchronous write is two steps, one that starts it and one that
  ends it, and any other step of the node may fall between them; the lock of the log file is
  \<open>n_io\<close>. The file is its list of records: what a crash leaves of its bytes is a prefix of the
  records written last, which is what \<open>recover_wal\<close> reads back.
\<close>

section \<open>Rounds\<close>

record PersistProgress =
  drained :: nat
  durable :: nat
  suspect :: bool

definition progress_default :: PersistProgress where
  "progress_default = \<lparr>drained = 0, durable = 0, suspect = False\<rparr>"

definition begin_drain :: "PersistProgress \<Rightarrow> nat \<times> PersistProgress" where
  "begin_drain p = (drained p + 1, p\<lparr>drained := drained p + 1\<rparr>)"

definition fully_durable :: "bool \<Rightarrow> PersistProgress \<Rightarrow> bool" where
  "fully_durable dirty p \<longleftrightarrow> \<not> dirty \<and> drained p \<le> durable p \<and> \<not> suspect p"

definition mark_suspect :: "PersistProgress \<Rightarrow> PersistProgress" where
  "mark_suspect p = p\<lparr>suspect := True\<rparr>"

definition complete_drain :: "nat \<Rightarrow> PersistProgress \<Rightarrow> PersistProgress" where
  "complete_drain round p = p\<lparr>durable := max (durable p) round\<rparr>"

definition complete_all_drained :: "PersistProgress \<Rightarrow> PersistProgress" where
  "complete_all_drained p = complete_drain (drained p) p"

definition gate :: "bool \<Rightarrow> PersistProgress \<Rightarrow> nat option" where
  "gate dirty p =
     (if dirty then Some (drained p + 1)
      else if durable p < drained p then Some (drained p) else None)"

definition drain_for_round ::
  "('c, 's) RaftCore \<Rightarrow> PersistProgress \<Rightarrow> ('c, 's) WalRecord list \<times> nat option \<times> ('c, 's) RaftCore \<times> PersistProgress" where
  "drain_for_round s p =
     (case drain_persist s of (rs, s') \<Rightarrow>
        if rs = [] then (rs, None, s', p)
        else case begin_drain p of (r, p') \<Rightarrow> (rs, Some r, s', p'))"

type_synonym 'c GatedOuts = "(nat \<times> 'c Out list) list"

definition gated_push :: "nat \<Rightarrow> 'c Out list \<Rightarrow> 'c GatedOuts \<Rightarrow> 'c GatedOuts" where
  "gated_push round outs w = (if outs = [] then w else w @ [(round, outs)])"

definition min_round :: "'c GatedOuts \<Rightarrow> nat option" where
  "min_round w = (case w of [] \<Rightarrow> None | b # _ \<Rightarrow> Some (fst b))"

definition release :: "nat \<Rightarrow> 'c GatedOuts \<Rightarrow> 'c Out list \<times> 'c GatedOuts" where
  "release k w =
     (concat (map snd (takeWhile (\<lambda>b. fst b \<le> k) w)), dropWhile (\<lambda>b. fst b \<le> k) w)"

fun ships_before_durable :: "'c RaftMsg \<Rightarrow> bool" where
  "ships_before_durable (RequestVote _ _ _ _) = False"
| "ships_before_durable (RequestVoteResp _ _) = False"
| "ships_before_durable (AppendEntriesResp _ _ _ _ _ _) = False"
| "ships_before_durable (InstallSnapshotResp _ _ _) = False"
| "ships_before_durable _ = True"

section \<open>A node\<close>

text \<open>Who holds the lock of the log file, with the write it has started.\<close>

datatype ('c, 's) Io =
    Appending nat nat
  | Compacting "('c, 's) WalRecord list" nat "nat option"
  | Rewriting "('c, 's) WalRecord list" nat

text \<open>\<open>n_wal\<close> is durable; \<open>n_tail\<close> are the records of an append that has not been synced, of which a
  crash keeps some prefix.\<close>

record ('c, 's) Node =
  n_core :: "('c, 's) RaftCore"
  n_wal :: "('c, 's) WalRecord list"
  n_tail :: "('c, 's) WalRecord list"
  n_io :: "('c, 's) Io option"
  n_task :: bool
  n_progress :: PersistProgress
  n_gated :: "'c GatedOuts"
  n_halted :: bool

text \<open>The restart of a node from the records its log file decodes to.\<close>

definition node_boot ::
  "('c, 's) StateMachine \<Rightarrow> NodeId \<Rightarrow> NodeId list \<Rightarrow> ('c, 's) WalRecord list \<Rightarrow> nat \<Rightarrow> nat \<Rightarrow> 'c Out list \<times> ('c, 's) Node" where
  "node_boot sm i all_nodes rs now entropy =
     (let fresh = core_new sm i all_nodes now entropy;
          p = replay rs;
          halted = (case check_log_contiguous p of Inl _ \<Rightarrow> True | Inr _ \<Rightarrow> False);
          (outs, s) = (if halted then ([], fresh)
                       else if \<not> persisted_is_empty p then ([], recovered sm i all_nodes p now entropy)
                       else begin_cluster_check now entropy fresh)
      in (outs, \<lparr>n_core = s, n_wal = rs, n_tail = [], n_io = None, n_task = False,
                 n_progress = progress_default, n_gated = [], n_halted = halted\<rparr>))"

section \<open>One turn of the loop\<close>

text \<open>The send stage: what a step of the core emitted is sent at once or held for the round that
  makes it durable, then the held batches that are durable go out.\<close>

definition node_send :: "'c Out list \<Rightarrow> nat option \<Rightarrow> ('c, 's) Node \<Rightarrow> 'c Out list \<times> ('c, 's) Node" where
  "node_send outs g n =
     (let immediate = (case g of None \<Rightarrow> outs | Some _ \<Rightarrow> filter (\<lambda>out. ships_before_durable (snd out)) outs);
          held = (case g of None \<Rightarrow> [] | Some _ \<Rightarrow> filter (\<lambda>out. \<not> ships_before_durable (snd out)) outs);
          w = (case g of None \<Rightarrow> n_gated n | Some round \<Rightarrow> gated_push round held (n_gated n));
          (released, w) = release (durable (n_progress n)) w;
          settled = (w \<noteq> [] \<and> fully_durable (has_unflushed_wal (n_core n)) (n_progress n) \<and> \<not> n_task n);
          (rest, w) = (if settled then release u64_max w else ([], w))
      in (immediate @ released @ rest, n\<lparr>n_gated := w\<rparr>))"

definition node_step :: "('c Out list \<times> ('c, 's) RaftCore) \<Rightarrow> ('c, 's) Node \<Rightarrow> 'c Out list \<times> ('c, 's) Node" where
  "node_step r n =
     (case r of (outs, s) \<Rightarrow> node_send outs (gate (has_unflushed_wal s) (n_progress n)) (n\<lparr>n_core := s\<rparr>))"

definition node_recv ::
  "('c, 's) StateMachine \<Rightarrow> NodeId \<Rightarrow> 'c RaftMsg \<Rightarrow> nat \<Rightarrow> nat \<Rightarrow> ('c, 's) Node \<Rightarrow> 'c Out list \<times> ('c, 's) Node" where
  "node_recv sm from msg now entropy n =
     (case msg of Heartbeat _ \<Rightarrow> node_send [] None n
      | _ \<Rightarrow> node_step (handle sm from msg now entropy (n_core n)) n)"

definition node_tick ::
  "('c, 's) StateMachine \<Rightarrow> nat \<Rightarrow> nat \<Rightarrow> ('c, 's) Node \<Rightarrow> 'c Out list \<times> ('c, 's) Node" where
  "node_tick sm now entropy n = node_step (tick sm now entropy (n_core n)) n"

text \<open>The wake-up by a round that ended.\<close>

definition node_wake :: "('c, 's) Node \<Rightarrow> 'c Out list \<times> ('c, 's) Node" where
  "node_wake n = node_send [] None n"

section \<open>Writing the log\<close>

definition persist_spawn :: "('c, 's) Node \<Rightarrow> ('c, 's) Node" where
  "persist_spawn n =
     (if \<not> n_task n \<and> (has_unflushed_wal (n_core n) \<or> suspect (n_progress n)) \<and> \<not> install_rewrite_owed (n_core n)
      then n\<lparr>n_task := True\<rparr> else n)"

text \<open>\<open>persist_wal\<close> up to its append, once it holds the lock.\<close>

definition persist_begin :: "('c, 's) Node \<Rightarrow> ('c, 's) Node" where
  "persist_begin n =
     (if \<not> n_task n \<or> n_io n \<noteq> None \<or> suspect (n_progress n) then n
      else if install_rewrite_owed (n_core n) then n\<lparr>n_task := False\<rparr>
      else case drain_for_round (n_core n) (n_progress n) of
             (rs, None, s, p) \<Rightarrow> n\<lparr>n_core := s, n_progress := p, n_task := False\<rparr>
           | (rs, Some r, s, p) \<Rightarrow>
               n\<lparr>n_core := s, n_progress := p, n_tail := rs, n_io := Some (Appending (last_log_index s) r)\<rparr>)"

text \<open>The tail of the compaction step: the log file is replaced by an image of the core.\<close>

definition compact_begin ::
  "('c, 's) StateMachine \<Rightarrow> nat \<Rightarrow> bytes option \<Rightarrow> ('c, 's) Node \<Rightarrow> ('c, 's) Node" where
  "compact_begin sm ea blob n =
     (if n_io n \<noteq> None \<or> suspect (n_progress n) then n
      else let s = snapshot_upto sm ea (n_core n);
               s = (case blob of None \<Rightarrow> s | Some b \<Rightarrow> set_snapshot_blob b s);
               (dirty, s) = take_snapshot_dirty s
           in if \<not> dirty then n\<lparr>n_core := s\<rparr>
              else case drain_for_round s (n_progress n) of (_, r, s', p) \<Rightarrow>
                n\<lparr>n_core := s', n_progress := p, n_io := Some (Compacting (wal_image s) (last_log_index s) r)\<rparr>)"

text \<open>\<open>recover_suspect_wal\<close>, once the probe has found room: the whole file is rewritten.\<close>

definition rewrite_begin :: "('c, 's) Node \<Rightarrow> ('c, 's) Node" where
  "rewrite_begin n =
     (if \<not> n_task n \<or> n_io n \<noteq> None \<or> \<not> suspect (n_progress n) then n
      else case drain_for_round (n_core n) (n_progress n) of (_, _, s, p) \<Rightarrow>
        n\<lparr>n_core := s, n_progress := p, n_io := Some (Rewriting (wal_image s) (last_log_index s))\<rparr>)"

definition io_done :: "('c, 's) StateMachine \<Rightarrow> ('c, 's) Node \<Rightarrow> ('c, 's) Node" where
  "io_done sm n =
     (case n_io n of
        None \<Rightarrow> n
      | Some (Appending through r) \<Rightarrow>
          n\<lparr>n_wal := n_wal n @ n_tail n, n_tail := [], n_io := None, n_task := False,
            n_core := mark_durable_through sm through (n_core n), n_progress := complete_drain r (n_progress n)\<rparr>
      | Some (Compacting img through r) \<Rightarrow>
          n\<lparr>n_wal := img, n_tail := [], n_io := None, n_core := mark_durable_through sm through (n_core n),
            n_progress := (case r of None \<Rightarrow> n_progress n | Some r \<Rightarrow> complete_drain r (n_progress n))\<rparr>
      | Some (Rewriting img through) \<Rightarrow>
          n\<lparr>n_wal := img, n_tail := [], n_io := None, n_task := False,
            n_core := mark_durable_through sm through (n_core n),
            n_progress := (complete_all_drained (n_progress n))\<lparr>suspect := False\<rparr>\<rparr>)"

text \<open>The write fails on a full disk. What it left behind is read back only by a restart: a prefix of
  the appended records, or one of the two whole images (\<open>landed\<close>).\<close>

definition io_full :: "bool \<Rightarrow> ('c, 's) Node \<Rightarrow> ('c, 's) Node" where
  "io_full landed n =
     (case n_io n of
        None \<Rightarrow> n
      | Some (Appending through r) \<Rightarrow> n\<lparr>n_io := None, n_progress := mark_suspect (n_progress n)\<rparr>
      | Some (Compacting img through r) \<Rightarrow>
          (if landed then n\<lparr>n_wal := img, n_tail := [], n_io := None, n_progress := mark_suspect (n_progress n)\<rparr>
           else n\<lparr>n_io := None, n_progress := mark_suspect (n_progress n)\<rparr>)
      | Some (Rewriting img through) \<Rightarrow>
          (if landed then n\<lparr>n_wal := img, n_tail := [], n_io := None\<rparr> else n\<lparr>n_io := None\<rparr>))"

text \<open>What a restart may find in the file.\<close>

definition wal_survives :: "('c, 's) Node \<Rightarrow> ('c, 's) WalRecord list \<Rightarrow> bool" where
  "wal_survives n rs \<longleftrightarrow>
     rs \<in> set (map (\<lambda>k. n_wal n @ take k (n_tail n)) [0..<Suc (length (n_tail n))]) \<or>
     (case n_io n of Some (Compacting img _ _) \<Rightarrow> rs = img | Some (Rewriting img _) \<Rightarrow> rs = img | _ \<Rightarrow> False)"

end
