(* ===== verification/Raft_Node.thy ===== *)
theory Raft_Node
  imports Raft_Driver
begin

text \<open>
  What a node keeps between its disk and its messages: the hard state in the log file never runs ahead
  of the one in memory and is equal to it once every drained round is durable (\<open>disk_ok\<close>), and a held
  message is covered by the hard state its round makes durable (\<open>held_ok\<close>). Every step of the driver
  preserves both, and every message it sends is covered by the file.
\<close>

section \<open>The hard state of a log file\<close>

definition wal_hard :: "('c, 's) WalRecord list \<Rightarrow> nat \<times> NodeId option" where
  "wal_hard rs = (p_term (replay rs), p_voted_for (replay rs))"

lemma replay_record_hard: "\<not> is_hard r \<Longrightarrow> p_term (replay_record r p) = p_term p \<and> p_voted_for (replay_record r p) = p_voted_for p"
  by (cases r) auto

lemma fold_replay_hard:
  "\<forall>r \<in> set rs. \<not> is_hard r \<Longrightarrow>
     p_term (fold replay_record rs p) = p_term p \<and> p_voted_for (fold replay_record rs p) = p_voted_for p"
  by (induction rs arbitrary: p) (auto simp: replay_record_hard)

lemma wal_hard_quiet: "\<forall>r \<in> set new. \<not> is_hard r \<Longrightarrow> wal_hard (rs @ new) = wal_hard rs"
  using fold_replay_hard [of new] by (auto simp: wal_hard_def replay_def)

lemma wal_hard_snoc [simp]: "wal_hard (rs @ [Hard t v]) = (t, v)"
  by (simp add: wal_hard_def replay_def)

lemma wal_hard_image [simp]: "wal_hard (wal_image s) = hard s"
proof -
  have "wal_image s = ((if 0 < snapshot_index s
      then [Snapshot (metadata s) (snapshot_index s) (snapshot_term s) (snapshot_config s) (snapshot_learners s)] else [])
      @ [Hard (current_term s) (voted_for s)]) @ map Append (rlog s)"
    by (simp add: wal_image_def)
  then show ?thesis by (simp only: wal_hard_quiet wal_hard_snoc) (simp add: wal_hard_quiet wal_hard_snoc hard_def del: append_assoc)
qed

text \<open>A drained batch ends with the hard state, when it changed.\<close>

lemma drain_persist_cases:
  assumes "drain_persist s = (rs, s')" and "\<forall>r \<in> set (pending s). \<not> is_hard r"
  shows "persisted_hard s' = hard s" "hard s' = hard s" "pending s' = []"
    and "rs = pending s \<and> persisted_hard s = hard s \<or> rs = pending s @ [Hard (current_term s) (voted_for s)]"
  using assms by (auto simp: drain_persist_def checkpoint_hard_def hard_def Let_def split: if_splits)

lemma take_snoc_cases: "take k (xs @ [x]) = take k xs \<or> take k (xs @ [x]) = xs @ [x]"
  by (cases "k \<le> length xs") auto

lemma drained_prefix_hard:
  assumes "drain_persist s = (rs, s')" and "\<forall>r \<in> set (pending s). \<not> is_hard r" and "wal_hard w = persisted_hard s"
  shows "wal_hard (w @ take k rs) \<in> {persisted_hard s, hard s}" and "wal_hard (w @ rs) = hard s"
proof -
  have q: "wal_hard (w @ take k (pending s)) = wal_hard w" for k
    using assms(2) by (intro wal_hard_quiet) (auto dest: in_set_takeD)
  note c = drain_persist_cases(4) [OF assms(1,2)]
  have l: "wal_hard (w @ pending s @ [Hard (current_term s) (voted_for s)]) = hard s"
    using wal_hard_snoc [of "w @ pending s"] by (simp add: hard_def)
  show "wal_hard (w @ take k rs) \<in> {persisted_hard s, hard s}"
    using c
  proof
    assume "rs = pending s \<and> persisted_hard s = hard s"
    then show ?thesis using q assms(3) by simp
  next
    assume rs: "rs = pending s @ [Hard (current_term s) (voted_for s)]"
    then show ?thesis
      using take_snoc_cases [of k "pending s" "Hard (current_term s) (voted_for s)"] q [of k] l assms(3) by auto
  qed
  show "wal_hard (w @ rs) = hard s"
    using c q [of "length (pending s)"] l assms(3) by auto
qed

section \<open>The disk of a node\<close>

definition disk_ok :: "('c, 's) Node \<Rightarrow> bool" where
  "disk_ok n \<longleftrightarrow>
     (let H = wal_hard (n_wal n); P = persisted_hard (n_core n); p = n_progress n in
        hard_le P (hard (n_core n)) \<and> (\<forall>r \<in> set (pending (n_core n)). \<not> is_hard r) \<and>
        (\<forall>k. hard_le H (wal_hard (n_wal n @ take k (n_tail n))) \<and> hard_le (wal_hard (n_wal n @ take k (n_tail n))) P) \<and>
        durable p \<le> drained p \<and> (durable p = drained p \<longrightarrow> H = P) \<and>
        (case n_io n of
           None \<Rightarrow> \<not> suspect p \<longrightarrow> durable p = drained p \<and> n_tail n = []
         | Some (Appending through r) \<Rightarrow> \<not> suspect p \<and> wal_hard (n_wal n @ n_tail n) = P \<and> r = drained p
         | Some (Compacting img through r) \<Rightarrow>
             \<not> suspect p \<and> n_tail n = [] \<and> wal_hard img = P \<and> (case r of None \<Rightarrow> durable p = drained p | Some r \<Rightarrow> r = drained p)
         | Some (Rewriting img through) \<Rightarrow> suspect p \<and> wal_hard img = P))"

lemma disk_okD:
  assumes "disk_ok n"
  shows "hard_le (persisted_hard (n_core n)) (hard (n_core n))" "\<forall>r \<in> set (pending (n_core n)). \<not> is_hard r"
    "hard_le (wal_hard (n_wal n)) (persisted_hard (n_core n))" "durable (n_progress n) \<le> drained (n_progress n)"
    "durable (n_progress n) = drained (n_progress n) \<Longrightarrow> wal_hard (n_wal n) = persisted_hard (n_core n)"
  using assms by (auto simp: disk_ok_def Let_def dest: spec [of _ 0])

lemma disk_ok_survives:
  assumes "disk_ok n" and "wal_survives n rs"
  shows "hard_le (wal_hard (n_wal n)) (wal_hard rs)"
proof -
  have "hard_le (wal_hard (n_wal n)) (wal_hard (n_wal n @ take k (n_tail n)))" for k
    using assms(1) by (simp add: disk_ok_def Let_def)
  moreover have "wal_hard img = persisted_hard (n_core n)"
    if "n_io n = Some (Compacting img a b) \<or> n_io n = Some (Rewriting img a)" for img a b
    using that assms(1) by (auto simp: disk_ok_def Let_def)
  ultimately show ?thesis
    using assms(2) disk_okD(3) [OF assms(1)]
    by (auto simp: wal_survives_def simp del: upt_Suc split: option.splits Io.splits)
qed

text \<open>A step of the core leaves the file and the rounds alone.\<close>

lemma disk_ok_core:
  assumes "disk_ok n" and "wal_ok (n_core n) s" and "hard_le (hard (n_core n)) (hard s)"
  shows "disk_ok (n\<lparr>n_core := s\<rparr>)"
proof -
  have "persisted_hard s = persisted_hard (n_core n)" "\<forall>r \<in> set (pending s). \<not> is_hard r"
    using assms(2) disk_okD(2) [OF assms(1)] by (auto simp: wal_ok_def)
  moreover have "hard_le (persisted_hard (n_core n)) (hard s)"
    using disk_okD(1) [OF assms(1)] assms(3) hard_le_trans by blast
  ultimately show ?thesis using assms(1) by (simp add: disk_ok_def Let_def cong: option.case_cong Io.case_cong)
qed

lemma disk_ok_other [simp]:
  "disk_ok (n\<lparr>n_gated := w\<rparr>) = disk_ok n" "disk_ok (n\<lparr>n_task := b\<rparr>) = disk_ok n"
  by (simp_all add: disk_ok_def cong: option.case_cong Io.case_cong)

lemma drain_for_round_cases:
  assumes "drain_for_round s p = (rs, r, s', p')"
  shows "drain_persist s = (rs, s')"
    and "rs = [] \<and> r = None \<and> p' = p \<or> rs \<noteq> [] \<and> r = Some (drained p + 1) \<and> p' = p\<lparr>drained := drained p + 1\<rparr>"
  using assms by (auto simp: drain_for_round_def begin_drain_def split: prod.splits if_splits)

lemma drain_empty:
  assumes "drain_persist s = ([], s')"
  shows "persisted_hard s = hard s" "pending s = []"
  using assms by (auto simp: drain_persist_def checkpoint_hard_def hard_def Let_def split: if_splits)

lemma disk_ok_persist_begin:
  assumes "disk_ok n"
  shows "disk_ok (persist_begin n)"
proof (cases "\<not> n_task n \<or> n_io n \<noteq> None \<or> suspect (n_progress n) \<or> install_rewrite_owed (n_core n)")
  case True
  then show ?thesis using assms by (auto simp: persist_begin_def)
next
  case False
  let ?s = "n_core n" and ?p = "n_progress n"
  obtain rs r s' p' where d: "drain_for_round ?s ?p = (rs, r, s', p')" by (metis prod_cases4)
  note dp = drain_for_round_cases [OF d]
  note c = drain_persist_cases [OF dp(1) disk_okD(2) [OF assms]]
  have idle: "durable ?p = drained ?p" "n_tail n = []" using False assms by (auto simp: disk_ok_def Let_def)
  have H: "wal_hard (n_wal n) = persisted_hard ?s" using disk_okD(5) [OF assms idle(1)] .
  note pre = drained_prefix_hard [OF dp(1) disk_okD(2) [OF assms] H]
  have le: "hard_le (persisted_hard ?s) (hard ?s)" using disk_okD(1) [OF assms] .
  show ?thesis
  proof (cases r)
    case None
    then have "rs = []" "p' = ?p" using dp(2) by auto
    then show ?thesis using None False d idle H c drain_empty(1) dp(1)
      by (simp add: persist_begin_def disk_ok_def Let_def)
  next
    case (Some k)
    then have "k = drained ?p + 1" "p' = ?p\<lparr>drained := drained ?p + 1\<rparr>" using dp(2) by auto
    moreover have "hard_le (persisted_hard ?s) (wal_hard (n_wal n @ take j rs)) \<and> hard_le (wal_hard (n_wal n @ take j rs)) (hard ?s)" for j
      using pre(1) [of j] le by auto
    ultimately show ?thesis using Some False d idle H c pre(2)
      by (simp add: persist_begin_def disk_ok_def Let_def)
  qed
qed

text \<open>A compaction changes neither the hard state nor the records still to be written.\<close>

lemma snapshot_upto_fields [simp]:
  "persisted_hard (snapshot_upto sm i s) = persisted_hard s" "pending (snapshot_upto sm i s) = pending s"
  "hard (snapshot_upto sm i s) = hard s" "current_term (snapshot_upto sm i s) = current_term s"
  "voted_for (snapshot_upto sm i s) = voted_for s"
  by (simp_all add: snapshot_upto_def Let_def hard_def)

definition compacted :: "('c, 's) StateMachine \<Rightarrow> nat \<Rightarrow> bytes option \<Rightarrow> ('c, 's) RaftCore \<Rightarrow> ('c, 's) RaftCore" where
  "compacted sm ea blob s =
     snd (take_snapshot_dirty (case blob of None \<Rightarrow> snapshot_upto sm ea s | Some b \<Rightarrow> set_snapshot_blob b (snapshot_upto sm ea s)))"

lemma compacted_fields [simp]:
  "persisted_hard (compacted sm ea blob s) = persisted_hard s" "pending (compacted sm ea blob s) = pending s"
  "hard (compacted sm ea blob s) = hard s"
  by (simp_all add: compacted_def take_snapshot_dirty_def set_snapshot_blob_def hard_def split: option.split)

lemma compact_begin_cases:
  fixes n :: "('c, 's) Node"
  obtains (idle) "compact_begin sm ea blob n = n"
    | (clean) "n_io n = None" "\<not> suspect (n_progress n)" "compact_begin sm ea blob n = n\<lparr>n_core := compacted sm ea blob (n_core n)\<rparr>"
        "\<not> snapshot_dirty (case blob of None \<Rightarrow> snapshot_upto sm ea (n_core n) | Some b \<Rightarrow> set_snapshot_blob b (snapshot_upto sm ea (n_core n)))"
    | (rewrite) rs r s' p' where "n_io n = None" "\<not> suspect (n_progress n)"
        "drain_for_round (compacted sm ea blob (n_core n)) (n_progress n) = (rs, r, s', p')"
        "compact_begin sm ea blob n = n\<lparr>n_core := s', n_progress := p',
           n_io := Some (Compacting (wal_image (compacted sm ea blob (n_core n))) (last_log_index (compacted sm ea blob (n_core n))) r)\<rparr>"
proof -
  let ?x = "case blob of None \<Rightarrow> snapshot_upto sm ea (n_core n) | Some b \<Rightarrow> set_snapshot_blob b (snapshot_upto sm ea (n_core n))"
  obtain rs r s' p' where d: "drain_for_round (compacted sm ea blob (n_core n)) (n_progress n) = (rs, r, s', p')"
    by (metis prod_cases4)
  obtain dirty where t: "take_snapshot_dirty ?x = (dirty, compacted sm ea blob (n_core n))"
    by (metis compacted_def prod.collapse)
  then have c: "dirty = snapshot_dirty ?x" by (simp add: take_snapshot_dirty_def)
  show thesis
  proof (cases "n_io n \<noteq> None \<or> suspect (n_progress n)")
    case True
    then show thesis by (intro idle) (auto simp: compact_begin_def)
  next
    case False
    then show thesis using t c d clean rewrite by (cases dirty) (auto simp: compact_begin_def Let_def)
  qed
qed

lemma disk_ok_compact_begin:
  fixes n :: "('c, 's) Node"
  assumes "disk_ok n"
  shows "disk_ok (compact_begin sm ea blob n)"
proof (cases rule: compact_begin_cases [of sm ea blob n, case_names idle clean rewrite])
  case idle
  then show ?thesis using assms by simp
next
  case clean
  then show ?thesis using assms by (simp add: disk_ok_def Let_def)
next
  case (rewrite rs r s' p')
  let ?s = "n_core n" and ?p = "n_progress n"
  note dp = drain_for_round_cases [OF rewrite(3)]
  have c: "persisted_hard s' = hard ?s" "hard s' = hard ?s" "pending s' = []"
    using drain_persist_cases [OF dp(1)] disk_okD(2) [OF assms] by simp_all
  have idle: "durable ?p = drained ?p" "n_tail n = []" using rewrite(1,2) assms by (auto simp: disk_ok_def Let_def)
  have H: "wal_hard (n_wal n) = persisted_hard ?s" using disk_okD(5) [OF assms idle(1)] .
  have le: "hard_le (persisted_hard ?s) (hard ?s)" using disk_okD(1) [OF assms] .
  from dp(2) consider "rs = []" "r = None" "p' = ?p" | "r = Some (drained ?p + 1)" "p' = ?p\<lparr>drained := drained ?p + 1\<rparr>" by blast
  then show ?thesis
  proof cases
    case 1
    then have "persisted_hard ?s = hard ?s" using drain_empty(1) [of "compacted sm ea blob ?s"] dp(1) by simp
    then show ?thesis using 1 rewrite(1,2,4) c idle H by (simp add: disk_ok_def Let_def)
  next
    case 2
    then show ?thesis using rewrite(1,2,4) c idle H le by (simp add: disk_ok_def Let_def)
  qed
qed

lemma disk_ok_rewrite_begin:
  assumes "disk_ok n"
  shows "disk_ok (rewrite_begin n)"
proof (cases "\<not> n_task n \<or> n_io n \<noteq> None \<or> \<not> suspect (n_progress n)")
  case True
  then show ?thesis using assms by (auto simp: rewrite_begin_def)
next
  case False
  let ?s = "n_core n" and ?p = "n_progress n"
  obtain rs r s' p' where d: "drain_for_round ?s ?p = (rs, r, s', p')" by (metis prod_cases4)
  note dp = drain_for_round_cases [OF d]
  note c = drain_persist_cases [OF dp(1) disk_okD(2) [OF assms]]
  have le: "hard_le (persisted_hard ?s) (hard ?s)" using disk_okD(1) [OF assms] .
  have tail: "hard_le (wal_hard (n_wal n)) (wal_hard (n_wal n @ take k (n_tail n))) \<and>
      hard_le (wal_hard (n_wal n @ take k (n_tail n))) (hard ?s)" for k
    using assms le hard_le_trans unfolding disk_ok_def Let_def by blast
  from dp(2) consider "rs = []" "p' = ?p" | "p' = ?p\<lparr>drained := drained ?p + 1\<rparr>" by blast
  then show ?thesis
  proof cases
    case 1
    then have "persisted_hard ?s = hard ?s" using drain_empty(1) dp(1) by simp
    then show ?thesis using 1 False d c tail disk_okD(4,5) [OF assms]
      by (simp add: rewrite_begin_def disk_ok_def Let_def)
  next
    case 2
    then show ?thesis using False d c tail disk_okD(4) [OF assms]
      by (simp add: rewrite_begin_def disk_ok_def Let_def)
  qed
qed

lemma hard_view: "core_view s = core_view s' \<Longrightarrow> hard s = hard s'"
  by (simp add: core_view_def hard_def)

lemma mark_durable_fields [simp]:
  "hard (mark_durable_through sm k s) = hard s" "persisted_hard (mark_durable_through sm k s) = persisted_hard s"
  "pending (mark_durable_through sm k s) = pending s"
  by (simp_all add: hard_view [OF core_view_mark_durable_through] core_viewD [OF core_view_mark_durable_through])

lemma disk_ok_io_done:
  assumes "disk_ok n"
  shows "disk_ok (io_done sm n)" and "hard_le (wal_hard (n_wal n)) (wal_hard (n_wal (io_done sm n)))"
proof -
  have le: "hard_le (wal_hard (n_wal n)) (persisted_hard (n_core n))" "durable (n_progress n) \<le> drained (n_progress n)"
    using disk_okD(3,4) [OF assms] by auto
  show "disk_ok (io_done sm n)"
    using assms le
    by (auto simp: disk_ok_def io_done_def Let_def complete_drain_def complete_all_drained_def max_def
        split: option.splits Io.splits)
  show "hard_le (wal_hard (n_wal n)) (wal_hard (n_wal (io_done sm n)))"
    using assms le by (auto simp: disk_ok_def io_done_def Let_def split: option.splits Io.splits)
qed

lemma disk_ok_io_full:
  assumes "disk_ok n"
  shows "disk_ok (io_full landed n)" and "hard_le (wal_hard (n_wal n)) (wal_hard (n_wal (io_full landed n)))"
proof -
  have le: "hard_le (wal_hard (n_wal n)) (persisted_hard (n_core n))" "durable (n_progress n) \<le> drained (n_progress n)"
    using disk_okD(3,4) [OF assms] by auto
  show "disk_ok (io_full landed n)"
    using assms le
    by (auto simp: disk_ok_def io_full_def Let_def mark_suspect_def split: option.splits Io.splits)
  show "hard_le (wal_hard (n_wal n)) (wal_hard (n_wal (io_full landed n)))"
    using assms le by (auto simp: disk_ok_def io_full_def Let_def split: option.splits Io.splits)
qed

section \<open>Held messages\<close>

text \<open>The vote a message carries: a request for the sender's own candidacy, or a grant.\<close>

fun claim :: "'c Out \<Rightarrow> (nat \<times> NodeId) option" where
  "claim (to, RequestVote t c lli llt) = Some (t, c)"
| "claim (to, RequestVoteResp t granted) = (if granted then Some (t, to) else None)"
| "claim _ = None"

text \<open>The hard state that is durable once \<open>round\<close> is.\<close>

definition level :: "nat \<Rightarrow> ('c, 's) Node \<Rightarrow> nat \<times> NodeId option" where
  "level round n =
     (if round \<le> durable (n_progress n) then wal_hard (n_wal n)
      else if round \<le> drained (n_progress n) then persisted_hard (n_core n) else hard (n_core n))"

fun own_request :: "NodeId \<Rightarrow> 'c RaftMsg \<Rightarrow> bool" where
  "own_request i (RequestVote t c lli llt) = (c = i)"
| "own_request i _ = True"

definition msg_ok :: "NodeId set \<Rightarrow> NodeId \<Rightarrow> nat \<times> NodeId option \<Rightarrow> 'c Out \<Rightarrow> bool" where
  "msg_ok N i h out \<longleftrightarrow>
     msg_cfg_ok N (snd out) \<and> own_request i (snd out) \<and> (\<forall>t c. claim out = Some (t, c) \<longrightarrow> promised t c h)"

definition held_ok :: "NodeId set \<Rightarrow> NodeId \<Rightarrow> ('c, 's) Node \<Rightarrow> bool" where
  "held_ok N i n \<longleftrightarrow> (\<forall>b \<in> set (n_gated n). \<forall>out \<in> set (snd b). msg_ok N i (level (fst b) n) out)"

lemma msg_ok_mono: "msg_ok N i h out \<Longrightarrow> hard_le h h' \<Longrightarrow> msg_ok N i h' out"
  using promised_mono [of _ _ h h'] by (simp add: msg_ok_def)

lemma held_ok_mono:
  assumes "held_ok N i n" and "set (n_gated n') \<subseteq> set (n_gated n)" and "\<And>r. hard_le (level r n) (level r n')"
  shows "held_ok N i n'"
  unfolding held_ok_def
proof (intro ballI)
  fix b out assume "b \<in> set (n_gated n')" "out \<in> set (snd b)"
  then have "msg_ok N i (level (fst b) n) out" using assms(1,2) by (auto simp: held_ok_def)
  then show "msg_ok N i (level (fst b) n') out" using assms(3) by (rule msg_ok_mono)
qed

lemma out_ok_msg_ok: "out_ok N asked i h out \<Longrightarrow> msg_ok N i h out"
  by (cases out; cases "snd out") (auto simp: out_ok_def msg_ok_def promised_def)

lemma early_no_claim: "ships_before_durable (snd out) \<Longrightarrow> claim out = None"
  by (cases out; cases "snd out") auto

lemma msg_ok_early: "msg_ok N i h out \<Longrightarrow> ships_before_durable (snd out) \<Longrightarrow> msg_ok N i h' out"
  by (simp add: msg_ok_def early_no_claim)

lemma level_bounds:
  assumes "disk_ok n"
  shows "hard_le (wal_hard (n_wal n)) (level r n)" and "hard_le (level r n) (hard (n_core n))"
proof -
  note d = disk_okD(1) [OF assms] disk_okD(3) [OF assms]
  show "hard_le (wal_hard (n_wal n)) (level r n)" using d hard_le_trans [OF d(2,1)] by (auto simp: level_def)
  show "hard_le (level r n) (hard (n_core n))" using d hard_le_trans [OF d(2,1)] by (auto simp: level_def)
qed

text \<open>When nothing is owed to the disk every level is the file's.\<close>

lemma clean_level:
  assumes "disk_ok n" and "\<not> has_unflushed_wal (n_core n)" and "drained (n_progress n) \<le> durable (n_progress n)"
  shows "hard (n_core n) = wal_hard (n_wal n)" and "level r n = wal_hard (n_wal n)"
proof -
  have "wal_hard (n_wal n) = persisted_hard (n_core n)" using disk_okD(4,5) [OF assms(1)] assms(3) by simp
  moreover have "hard (n_core n) = persisted_hard (n_core n)" using assms(2) by (simp add: has_unflushed_wal_def hard_def)
  ultimately show "hard (n_core n) = wal_hard (n_wal n)" "level r n = wal_hard (n_wal n)"
    by (simp_all add: level_def)
qed

lemma gate_level:
  assumes "disk_ok n" and "gate (has_unflushed_wal (n_core n)) (n_progress n) = g"
  shows "g = None \<Longrightarrow> hard (n_core n) = wal_hard (n_wal n)"
    and "g = Some r \<Longrightarrow> level r n = hard (n_core n)"
proof -
  show "hard (n_core n) = wal_hard (n_wal n)" if "g = None"
    using that assms(2) by (intro clean_level(1) [OF assms(1)]) (auto simp: gate_def split: if_splits)
  show "level r n = hard (n_core n)" if "g = Some r"
    using that assms(2) disk_okD(4) [OF assms(1)]
    by (auto simp: gate_def level_def has_unflushed_wal_def hard_def split: if_splits)
qed

section \<open>The send stage\<close>

lemma release_parts:
  assumes "release k w = (outs, w')"
  shows "set w' \<subseteq> set w" and "\<And>out. out \<in> set outs \<Longrightarrow> \<exists>b \<in> set w. fst b \<le> k \<and> out \<in> set (snd b)"
  using assms by (auto simp: release_def dest!: set_takeWhileD set_dropWhileD)

text \<open>Everything sent is covered by the file; everything held by its round.\<close>

lemma node_send_ok:
  assumes "node_send outs g n = (sent, n')" and "disk_ok n" and "held_ok N i n"
    and "\<forall>out \<in> set outs. msg_ok N i (hard (n_core n)) out"
    and "outs \<noteq> [] \<Longrightarrow> gate (has_unflushed_wal (n_core n)) (n_progress n) = g"
  shows "\<forall>out \<in> set sent. msg_ok N i (wal_hard (n_wal n)) out" and "held_ok N i n'"
    and "n' = n\<lparr>n_gated := n_gated n'\<rparr>"
    and "\<And>out. out \<in> set sent \<or> (\<exists>b \<in> set (n_gated n'). out \<in> set (snd b)) \<Longrightarrow>
           out \<in> set outs \<or> (\<exists>b \<in> set (n_gated n). out \<in> set (snd b))"
proof -
  define imm where "imm = (case g of None \<Rightarrow> outs | Some _ \<Rightarrow> filter (\<lambda>out. ships_before_durable (snd out)) outs)"
  define held where "held = (case g of None \<Rightarrow> [] | Some _ \<Rightarrow> filter (\<lambda>out. \<not> ships_before_durable (snd out)) outs)"
  define w where "w = (case g of None \<Rightarrow> n_gated n | Some round \<Rightarrow> gated_push round held (n_gated n))"
  obtain rel w1 where r1: "release (durable (n_progress n)) w = (rel, w1)" by fastforce
  define settled where "settled \<longleftrightarrow> w1 \<noteq> [] \<and> fully_durable (has_unflushed_wal (n_core n)) (n_progress n) \<and> \<not> n_task n"
  obtain rest w2 where r2: "(if settled then release u64_max w1 else ([], w1)) = (rest, w2)" by fastforce
  have "node_send outs g n = (imm @ rel @ rest, n\<lparr>n_gated := w2\<rparr>)"
    unfolding node_send_def Let_def imm_def [symmetric] held_def [symmetric]
    unfolding w_def [symmetric] r1 prod.case settled_def [symmetric] r2 ..
  then have res: "sent = imm @ rel @ rest" "n' = n\<lparr>n_gated := w2\<rparr>" using assms(1) by simp_all
  have imm: "out \<in> set outs \<and> (g = None \<or> ships_before_durable (snd out))" if "out \<in> set imm" for out
    using that by (cases g) (auto simp: imm_def)
  have lev: "level r (n\<lparr>n_gated := x\<rparr>) = level r n" for r x by (simp add: level_def)
  have w: "b \<in> set (n_gated n) \<or> (\<exists>r. g = Some r \<and> fst b = r \<and> set (snd b) \<subseteq> set outs)" if "b \<in> set w" for b
    using that by (cases g) (auto simp: w_def held_def gated_push_def split: if_splits)
  have wok: "msg_ok N i (level (fst b) n) out" if b: "b \<in> set w" "out \<in> set (snd b)" for b out
    using w [OF b(1)]
  proof
    assume "b \<in> set (n_gated n)"
    then show ?thesis using assms(3) b(2) by (simp add: held_ok_def)
  next
    assume "\<exists>r. g = Some r \<and> fst b = r \<and> set (snd b) \<subseteq> set outs"
    then have r: "g = Some (fst b)" "out \<in> set outs" using b(2) by auto
    then have "level (fst b) n = hard (n_core n)"
      using gate_level(2) [OF assms(2) assms(5)] by (metis empty_iff list.set(1))
    then show ?thesis using assms(4) r(2) by simp
  qed
  have src: "out \<in> set outs \<or> (\<exists>b \<in> set (n_gated n). out \<in> set (snd b))" if "b \<in> set w" "out \<in> set (snd b)" for b out
    using w [OF that(1)] that(2) by blast
  have sub: "set w2 \<subseteq> set w"
    using release_parts(1) [OF r1] r2 release_parts(1) [of u64_max w1 rest w2] by (cases settled) auto
  have rel: "\<exists>b \<in> set w. fst b \<le> durable (n_progress n) \<and> out \<in> set (snd b)" if "out \<in> set rel" for out
    using release_parts(2) [OF r1 that] .
  have rest: "settled \<and> (\<exists>b \<in> set w. out \<in> set (snd b))" if "out \<in> set rest" for out
  proof -
    have s: settled using that r2 by (cases settled) auto
    then have "release u64_max w1 = (rest, w2)" using r2 by simp
    from release_parts(2) [OF this that] show ?thesis using s release_parts(1) [OF r1] by blast
  qed
  have sent: "out \<in> set imm \<or> (\<exists>b \<in> set w. fst b \<le> durable (n_progress n) \<and> out \<in> set (snd b)) \<or>
      settled \<and> (\<exists>b \<in> set w. out \<in> set (snd b))" if "out \<in> set sent" for out
    using that rel rest unfolding res(1) set_append by blast
  show "held_ok N i n'" using wok sub by (auto simp: held_ok_def res lev)
  show "n' = n\<lparr>n_gated := n_gated n'\<rparr>" by (simp add: res)
  show "out \<in> set outs \<or> (\<exists>b \<in> set (n_gated n). out \<in> set (snd b))"
    if "out \<in> set sent \<or> (\<exists>b \<in> set (n_gated n'). out \<in> set (snd b))" for out
  proof -
    have "n_gated n' = w2" by (simp add: res)
    then have "out \<in> set imm \<or> (\<exists>b \<in> set w. out \<in> set (snd b))" using that sent sub by blast
    then show ?thesis using imm src by blast
  qed
  show "\<forall>out \<in> set sent. msg_ok N i (wal_hard (n_wal n)) out"
  proof
    fix out assume "out \<in> set sent"
    with sent consider "out \<in> set imm" | "\<exists>b \<in> set w. fst b \<le> durable (n_progress n) \<and> out \<in> set (snd b)"
      | settled "\<exists>b \<in> set w. out \<in> set (snd b)" by blast
    then show "msg_ok N i (wal_hard (n_wal n)) out"
    proof cases
      case 1
      with imm have o: "out \<in> set outs" "g = None \<or> ships_before_durable (snd out)" by blast+
      then have m: "msg_ok N i (hard (n_core n)) out" using assms(4) by blast
      from o(2) show ?thesis
      proof
        assume "g = None"
        then have "hard (n_core n) = wal_hard (n_wal n)"
          using gate_level(1) [OF assms(2) assms(5)] o(1) by (metis empty_iff list.set(1))
        then show ?thesis using m by simp
      next
        assume "ships_before_durable (snd out)"
        with m show ?thesis by (rule msg_ok_early)
      qed
    next
      case 2
      then obtain b where b: "b \<in> set w" "fst b \<le> durable (n_progress n)" "out \<in> set (snd b)" by blast
      then show ?thesis using wok [OF b(1,3)] by (simp add: level_def)
    next
      case 3
      then obtain b where b: "b \<in> set w" "out \<in> set (snd b)" by blast
      then show ?thesis using wok [OF b] 3(1) clean_level(2) [OF assms(2)] by (simp add: settled_def fully_durable_def)
    qed
  qed
qed

section \<open>The invariant of a node\<close>

fun io_image :: "('c, 's) Io option \<Rightarrow> ('c, 's) WalRecord list" where
  "io_image (Some (Compacting img through r)) = img"
| "io_image (Some (Rewriting img through)) = img"
| "io_image _ = []"

definition recs_ok :: "NodeId set \<Rightarrow> ('c, 's) Node \<Rightarrow> bool" where
  "recs_ok N n \<longleftrightarrow> (\<forall>r \<in> set (n_wal n) \<union> set (n_tail n) \<union> set (io_image (n_io n)). record_cfg N r)"

definition live_ok :: "NodeId set \<Rightarrow> NodeId \<Rightarrow> ('c, 's) Node \<Rightarrow> bool" where
  "live_ok N i n \<longleftrightarrow>
     node_id (n_core n) = i \<and> cfg_ok N (n_core n) \<and> cand_ok (n_core n) \<and> disk_ok n \<and> held_ok N i n \<and> recs_ok N n"

definition node_inv :: "NodeId set \<Rightarrow> NodeId \<Rightarrow> ('c, 's) Node \<Rightarrow> bool" where
  "node_inv N i n \<longleftrightarrow>
     (if n_halted n then \<not> candidacy (n_core n) \<and> n_tail n = [] \<and> n_io n = None \<and> n_gated n = [] \<and> recs_ok N n
      else live_ok N i n)"

definition held :: "('c, 's) Node \<Rightarrow> 'c Out set" where
  "held n = (\<Union>b \<in> set (n_gated n). set (snd b))"

text \<open>A message a step produces: a vote in it is the vote the node has just cast.\<close>

fun asked_for :: "(nat \<times> NodeId) option \<Rightarrow> 'c Out \<Rightarrow> bool" where
  "asked_for asked (to, RequestVoteResp t granted) = (granted \<longrightarrow> asked = Some (t, to))"
| "asked_for asked _ = True"

definition cast_now :: "(nat \<times> NodeId) option \<Rightarrow> ('c, 's) Node \<Rightarrow> ('c, 's) Node \<Rightarrow> 'c Out \<Rightarrow> bool" where
  "cast_now asked n n' out \<longleftrightarrow>
     (\<forall>t c. claim out = Some (t, c) \<longrightarrow> hard (n_core n') = (t, Some c) \<and> hard_le (hard (n_core n)) (hard (n_core n'))) \<and>
     asked_for asked out"

text \<open>What the cluster relies on of one step of a node.\<close>

definition node_move ::
  "NodeId set \<Rightarrow> NodeId \<Rightarrow> (nat \<times> NodeId) option \<Rightarrow> (nat \<times> NodeId) option \<Rightarrow> ('c, 's) Node \<Rightarrow>
     'c Out list \<times> ('c, 's) Node \<Rightarrow> bool" where
  "node_move N i asked granted n r \<longleftrightarrow>
     (case r of (sent, n') \<Rightarrow>
        node_inv N i n' \<and> hard_le (wal_hard (n_wal n)) (wal_hard (n_wal n')) \<and>
        (\<forall>out \<in> set sent. msg_ok N i (wal_hard (n_wal n')) out) \<and>
        (\<forall>out \<in> set sent \<union> held n'. out \<in> held n \<or> cast_now asked n n' out) \<and>
        (n_halted n' \<longrightarrow> (\<forall>out \<in> set sent. claim out = None)) \<and>
        (candidacy (n_core n') \<longrightarrow> (\<forall>v \<in> votes (n_core n'). v = i \<or> granted = Some (current_term (n_core n'), v) \<or>
           (candidacy (n_core n) \<and> current_term (n_core n) = current_term (n_core n') \<and> v \<in> votes (n_core n)))))"

lemma out_ok_cast:
  assumes "out_ok N asked i (hard s) out" and "hard_le (hard (n_core n)) (hard s)" and "n_core n' = s"
  shows "cast_now asked n n' out"
  using assms by (cases out; cases "snd out") (auto simp: out_ok_def cast_now_def)

lemma level_core:
  assumes "wal_ok (n_core n) s" and "hard_le (hard (n_core n)) (hard s)"
  shows "hard_le (level r n) (level r (n\<lparr>n_core := s\<rparr>))"
  using assms by (simp add: level_def wal_ok_def)

lemma live_ok_core:
  assumes "live_ok N i n" and "vote_ok N asked granted (n_core n) outs s" and "wal_ok (n_core n) s"
  shows "live_ok N i (n\<lparr>n_core := s\<rparr>)"
proof -
  have h: "hard_le (hard (n_core n)) (hard s)" using assms(2) by (rule vote_okD(4))
  have l: "held_ok N i n" "disk_ok n" using assms(1) by (simp_all add: live_ok_def)
  have "held_ok N i (n\<lparr>n_core := s\<rparr>)"
    by (rule held_ok_mono [OF l(1)]) (simp_all add: level_core [OF assms(3) h])
  moreover have "disk_ok (n\<lparr>n_core := s\<rparr>)" using l(2) assms(3) h by (rule disk_ok_core)
  moreover have "recs_ok N (n\<lparr>n_core := s\<rparr>)" using assms(1) by (simp add: live_ok_def recs_ok_def)
  ultimately show ?thesis using assms(1) vote_okD(1-3) [OF assms(2)] by (simp add: live_ok_def)
qed

text \<open>A turn of the loop: a step of the core and the send stage.\<close>

lemma node_move_step:
  assumes "node_inv N i n" and "\<not> n_halted n"
    and "vote_step N asked granted (n_core n) r" and "wal_ok (n_core n) (snd r)"
  shows "node_move N i asked granted n (node_step r n)"
proof -
  obtain outs s where r: "r = (outs, s)" by fastforce
  let ?m = "n\<lparr>n_core := s\<rparr>"
  have v: "vote_ok N asked granted (n_core n) outs s" and w: "wal_ok (n_core n) s" using assms(3,4) r by auto
  have l: "live_ok N i n" using assms(1,2) by (simp add: node_inv_def)
  have lm: "live_ok N i ?m" using live_ok_core [OF l v w] .
  have i: "node_id (n_core n) = i" using l by (simp add: live_ok_def)
  have h: "hard_le (hard (n_core n)) (hard s)" using v by (rule vote_okD(4))
  have oo: "out_ok N asked i (hard s) out" if "out \<in> set outs" for out using v that i by (simp add: vote_ok_def)
  obtain sent n' where e: "node_send outs (gate (has_unflushed_wal s) (n_progress n)) ?m = (sent, n')" by fastforce
  note S = node_send_ok [OF e, of N i]
  have d: "disk_ok ?m" "held_ok N i ?m" using lm by (auto simp: live_ok_def)
  have mo: "\<forall>out \<in> set outs. msg_ok N i (hard (n_core ?m)) out" using oo out_ok_msg_ok by fastforce
  have sent: "\<forall>out \<in> set sent. msg_ok N i (wal_hard (n_wal n)) out" "held_ok N i n'" "n' = ?m\<lparr>n_gated := n_gated n'\<rparr>"
    using S(1-3) [OF d mo] by simp_all
  have src: "out \<in> set outs \<or> out \<in> held n" if "out \<in> set sent \<or> out \<in> held n'" for out
    using S(4) [OF d mo, of out] that by (auto simp: held_def)
  have f: "n_core n' = s" "n_wal n' = n_wal n" "n_halted n' = n_halted n"
    using arg_cong [OF sent(3), of n_core] arg_cong [OF sent(3), of n_wal] arg_cong [OF sent(3), of n_halted] by simp_all
  have "live_ok N i n'"
  proof -
    have "disk_ok n'" "recs_ok N n'"
      using lm by (subst sent(3); simp add: live_ok_def recs_ok_def)+
    then show ?thesis using lm sent(2) f(1) by (simp add: live_ok_def)
  qed
  then have "node_inv N i n'" using f(3) assms(2) by (simp add: node_inv_def)
  moreover have "out \<in> held n \<or> cast_now asked n n' out" if "out \<in> set sent \<union> held n'" for out
    using src [of out] that out_ok_cast [OF oo h f(1)] by blast
  moreover have "\<forall>v \<in> votes s. v = i \<or> granted = Some (current_term s, v) \<or>
      (candidacy (n_core n) \<and> current_term (n_core n) = current_term s \<and> v \<in> votes (n_core n))" if "candidacy s"
    using v that i by (simp add: vote_ok_def)
  ultimately show ?thesis using e r sent(1) f assms(2) by (simp add: node_move_def node_step_def)
qed

section \<open>Calls and disk steps\<close>

lemma node_move_silent:
  assumes "live_ok N i n'" and "\<not> n_halted n'" and "n_gated n' = n_gated n"
    and "hard_le (wal_hard (n_wal n)) (wal_hard (n_wal n'))"
    and "candidacy (n_core n') \<Longrightarrow> \<forall>v \<in> votes (n_core n'). v = i \<or>
           (candidacy (n_core n) \<and> current_term (n_core n) = current_term (n_core n') \<and> v \<in> votes (n_core n))"
  shows "node_move N i asked granted n ([], n')"
  using assms by (auto simp: node_move_def node_inv_def held_def)

text \<open>A call of the API or of the apply task on the core.\<close>

lemma node_move_call:
  assumes "node_inv N i n" and "\<not> n_halted n" and "vote_ok N None None (n_core n) [] s" and "wal_ok (n_core n) s"
  shows "node_move N i asked granted n ([], n\<lparr>n_core := s\<rparr>)"
proof (rule node_move_silent)
  have l: "live_ok N i n" using assms(1,2) by (simp add: node_inv_def)
  show "live_ok N i (n\<lparr>n_core := s\<rparr>)" using live_ok_core [OF l assms(3,4)] .
  have "node_id (n_core n) = i" using l by (simp add: live_ok_def)
  then show "candidacy (n_core (n\<lparr>n_core := s\<rparr>)) \<Longrightarrow> \<forall>v \<in> votes (n_core (n\<lparr>n_core := s\<rparr>)). v = i \<or>
      (candidacy (n_core n) \<and> current_term (n_core n) = current_term (n_core (n\<lparr>n_core := s\<rparr>)) \<and> v \<in> votes (n_core n))"
    using assms(3) by (auto simp: vote_ok_def)
qed (simp_all add: assms(2))

lemma node_move_wake:
  assumes "node_inv N i n" and "\<not> n_halted n"
  shows "node_move N i asked granted n (node_send [] None n)"
proof -
  have l: "live_ok N i n" using assms by (simp add: node_inv_def)
  then have d: "disk_ok n" "held_ok N i n" by (simp_all add: live_ok_def)
  obtain sent n' where e: "node_send [] None n = (sent, n')" by fastforce
  note S = node_send_ok [OF e d]
  have sent: "\<forall>out \<in> set sent. msg_ok N i (wal_hard (n_wal n)) out" "held_ok N i n'" "n' = n\<lparr>n_gated := n_gated n'\<rparr>"
    using S(1-3) by simp_all
  have src: "out \<in> held n" if "out \<in> set sent \<or> out \<in> held n'" for out using S(4) [of out] that by (auto simp: held_def)
  have f: "n_core n' = n_core n" "n_wal n' = n_wal n" "n_halted n' = n_halted n"
    using arg_cong [OF sent(3), of n_core] arg_cong [OF sent(3), of n_wal] arg_cong [OF sent(3), of n_halted] by simp_all
  have "disk_ok n'" "recs_ok N n'"
    using l by (subst sent(3); simp add: live_ok_def recs_ok_def)+
  then have "node_inv N i n'" using l sent(2) f assms(2) by (simp add: live_ok_def node_inv_def)
  then show ?thesis using e sent(1) f src assms(2) by (auto simp: node_move_def)
qed

text \<open>A disk step keeps what the core knows of its term and its votes.\<close>

definition same_core :: "('c, 's) RaftCore \<Rightarrow> ('c, 's) RaftCore \<Rightarrow> bool" where
  "same_core s s' \<longleftrightarrow> node_id s' = node_id s \<and> hard s' = hard s \<and> role s' = role s \<and> votes s' = votes s"

lemma node_move_disk:
  assumes "node_inv N i n" and "\<not> n_halted n" and "same_core (n_core n) (n_core n')"
    and "cfg_ok N (n_core n')" and "cand_ok (n_core n')"
    and "disk_ok n'" and "recs_ok N n'" and "n_gated n' = n_gated n" and "n_halted n' = n_halted n"
    and "hard_le (wal_hard (n_wal n)) (wal_hard (n_wal n'))" and "\<And>r. hard_le (level r n) (level r n')"
  shows "node_move N i asked granted n ([], n')"
proof (rule node_move_silent)
  have l: "live_ok N i n" using assms(1,2) by (simp add: node_inv_def)
  then have "held_ok N i n" by (simp add: live_ok_def)
  then have "held_ok N i n'" using assms(8,11) by (intro held_ok_mono [of N i n n']) simp_all
  then show "live_ok N i n'" using l assms(3-7) by (simp add: live_ok_def same_core_def)
  show "candidacy (n_core n') \<Longrightarrow> \<forall>v \<in> votes (n_core n'). v = i \<or>
      (candidacy (n_core n) \<and> current_term (n_core n) = current_term (n_core n') \<and> v \<in> votes (n_core n))"
    using assms(3) by (simp add: same_core_def candidacy_def hard_def)
qed (use assms in simp_all)

lemma level_drain:
  assumes "disk_ok n" and "n_wal n' = n_wal n" and "durable (n_progress n') = durable (n_progress n)"
    and "hard (n_core n') = hard (n_core n)"
    and "n_progress n' = n_progress n \<and> persisted_hard (n_core n') = persisted_hard (n_core n) \<or>
         drained (n_progress n) \<le> drained (n_progress n') \<and> persisted_hard (n_core n') = hard (n_core n)"
  shows "hard_le (level r n) (level r n')"
  using assms disk_okD(1) [OF assms(1)] by (auto simp: level_def)

lemma level_done:
  assumes "disk_ok n" and "disk_ok n'" and "hard_le (wal_hard (n_wal n)) (wal_hard (n_wal n'))"
    and "hard (n_core n') = hard (n_core n)" and "persisted_hard (n_core n') = persisted_hard (n_core n)"
    and "drained (n_progress n') = drained (n_progress n)"
    and "durable (n_progress n') = durable (n_progress n) \<or> durable (n_progress n') = drained (n_progress n')"
  shows "hard_le (level r n) (level r n')"
proof -
  have eq: "wal_hard (n_wal n') = persisted_hard (n_core n)" if "durable (n_progress n') = drained (n_progress n')"
    using disk_okD(5) [OF assms(2) that] assms(5) by simp
  show ?thesis
    using assms(3-7) eq disk_okD(3,4) [OF assms(1)] by (auto simp: level_def)
qed

lemma drain_persist_core:
  assumes "drain_persist s = (rs, s')" and "cfg_ok N s" and "cand_ok s"
  shows "same_core s s'" "cfg_ok N s'" "cand_ok s'" "\<forall>r \<in> set rs. record_cfg N r" "\<forall>r \<in> set (wal_image s'). record_cfg N r"
    "last_log_index s' = last_log_index s"
proof -
  have s': "s' = (if hard s \<noteq> persisted_hard s then s\<lparr>persisted_hard := hard s, pending := []\<rparr> else s\<lparr>pending := []\<rparr>)"
    and rs: "rs = pending s @ (if hard s \<noteq> persisted_hard s then [Hard (current_term s) (voted_for s)] else [])"
    using assms(1) by (auto simp: drain_persist_def checkpoint_hard_def hard_def Let_def split: if_splits)
  show "same_core s s'" by (simp add: s' same_core_def hard_def)
  show c: "cfg_ok N s'" using assms(2) by (simp add: s' cfg_ok_def)
  show "cand_ok s'" using assms(3) by (simp add: s' cand_ok_def candidacy_def majority_def)
  show "\<forall>r \<in> set rs. record_cfg N r" using assms(2) by (auto simp: rs cfg_ok_def)
  show "\<forall>r \<in> set (wal_image s'). record_cfg N r" using c by (auto simp: cfg_ok_def wal_image_def)
  show "last_log_index s' = last_log_index s" by (simp add: s' last_log_index_def)
qed

lemma wal_image_cfg: "cfg_ok N s \<Longrightarrow> \<forall>r \<in> set (wal_image s). record_cfg N r"
  by (auto simp: cfg_ok_def wal_image_def)

lemma compacted_core:
  assumes "cfg_ok N s" and "cand_ok s"
  shows "same_core s (compacted sm ea blob s)" "cfg_ok N (compacted sm ea blob s)" "cand_ok (compacted sm ea blob s)"
proof -
  let ?u = "snapshot_upto sm ea s"
  have v: "vote_ok N None None s [] ?u" using assms by (rule vote_ok_snapshot_upto)
  have f: "config (compacted sm ea blob s) = config ?u" "cluster_size (compacted sm ea blob s) = cluster_size ?u"
    "initial_config (compacted sm ea blob s) = initial_config ?u" "snapshot_config (compacted sm ea blob s) = snapshot_config ?u"
    "rlog (compacted sm ea blob s) = rlog ?u" "role (compacted sm ea blob s) = role ?u" "votes (compacted sm ea blob s) = votes ?u"
    "node_id (compacted sm ea blob s) = node_id ?u" "voted_for (compacted sm ea blob s) = voted_for ?u"
    by (simp_all add: compacted_def take_snapshot_dirty_def set_snapshot_blob_def split: option.split)
  have u: "role ?u = role s" "votes ?u = votes s" "node_id ?u = node_id s" by (simp_all add: snapshot_upto_def Let_def)
  show "same_core s (compacted sm ea blob s)" by (simp add: same_core_def f u)
  show "cfg_ok N (compacted sm ea blob s)" using vote_okD(2) [OF v] by (simp add: cfg_ok_def f)
  show "cand_ok (compacted sm ea blob s)"
    using vote_okD(3) [OF v] by (simp add: cand_ok_def candidacy_def majority_def f)
qed

lemma same_core_trans: "same_core a b \<Longrightarrow> same_core b c \<Longrightarrow> same_core a c"
  by (simp add: same_core_def)

lemma same_core_refl [simp]: "same_core s s"
  by (simp add: same_core_def)

lemma recs_ok_wal [simp]: "recs_ok N (n\<lparr>n_core := s\<rparr>) = recs_ok N n" "recs_ok N (n\<lparr>n_progress := p\<rparr>) = recs_ok N n"
  "recs_ok N (n\<lparr>n_task := b\<rparr>) = recs_ok N n"
  by (simp_all add: recs_ok_def)

lemma node_move_spawn:
  assumes "node_inv N i n" and "\<not> n_halted n"
  shows "node_move N i asked granted n ([], n\<lparr>n_task := b\<rparr>)"
  using assms by (intro node_move_disk [OF assms])
    (simp_all add: node_inv_def live_ok_def level_def)

lemma node_move_persist_begin:
  assumes "node_inv N i n" and "\<not> n_halted n"
  shows "node_move N i asked granted n ([], persist_begin n)"
proof -
  have l: "cfg_ok N (n_core n)" "cand_ok (n_core n)" "disk_ok n" "recs_ok N n" using assms by (simp_all add: node_inv_def live_ok_def)
  obtain rs r s' p' where d: "drain_for_round (n_core n) (n_progress n) = (rs, r, s', p')" by (metis prod_cases4)
  note dp = drain_for_round_cases [OF d]
  note c = drain_persist_core [OF dp(1) l(1,2)]
  note P = drain_persist_cases(1,2) [OF dp(1) disk_okD(2) [OF l(3)]]
  have dk: "disk_ok (persist_begin n)" using l(3) by (rule disk_ok_persist_begin)
  have "persist_begin n = n \<or> persist_begin n = n\<lparr>n_task := False\<rparr> \<or>
      r = None \<and> persist_begin n = n\<lparr>n_core := s', n_progress := p', n_task := False\<rparr> \<or>
      (\<exists>k. r = Some k \<and> persist_begin n =
         n\<lparr>n_core := s', n_progress := p', n_tail := rs, n_io := Some (Appending (last_log_index s') k)\<rparr>)"
    unfolding persist_begin_def d by (cases r) simp_all
  then consider "persist_begin n = n" | "persist_begin n = n\<lparr>n_task := False\<rparr>"
    | "r = None" "persist_begin n = n\<lparr>n_core := s', n_progress := p', n_task := False\<rparr>"
    | k where "r = Some k" "persist_begin n = n\<lparr>n_core := s', n_progress := p', n_tail := rs, n_io := Some (Appending (last_log_index s') k)\<rparr>"
    by blast
  then show ?thesis
  proof cases
    case 1
    then show ?thesis using node_move_disk [OF assms, of n] l by simp
  next
    case 2
    then show ?thesis using node_move_spawn [OF assms, of asked granted False] by simp
  next
    case 3
    then have "p' = n_progress n" "rs = []" using dp(2) by auto
    then show ?thesis
      using 3 c P dk l drain_empty(1) dp(1)
      by (intro node_move_disk [OF assms]) (auto intro!: level_drain)
  next
    case 4
    have "recs_ok N (persist_begin n)" using l(4) c(4) by (auto simp: recs_ok_def 4)
    then show ?thesis using 4 c P dk dp(2) l(3)
      by (intro node_move_disk [OF assms]) (auto intro!: level_drain)
  qed
qed

lemma node_move_compact_begin:
  fixes n :: "('c, 's) Node"
  assumes "node_inv N i n" and "\<not> n_halted n"
  shows "node_move N i asked granted n ([], compact_begin sm ea blob n)"
proof (cases rule: compact_begin_cases [of sm ea blob n, case_names idle clean rewrite])
  case idle
  then show ?thesis using node_move_disk [OF assms, of n] assms by (simp add: node_inv_def live_ok_def)
next
  have l: "cfg_ok N (n_core n)" "cand_ok (n_core n)" "disk_ok n" "recs_ok N n" using assms by (simp_all add: node_inv_def live_ok_def)
  note cc = compacted_core [OF l(1,2), of sm ea blob]
  have dk: "disk_ok (compact_begin sm ea blob n)" using l(3) by (rule disk_ok_compact_begin)
  {
    case clean
    then show ?thesis using cc dk l
      by (intro node_move_disk [OF assms]) (auto intro!: level_drain)
  next
    case (rewrite rs r s' p')
    note dp = drain_for_round_cases [OF rewrite(3)]
    note c = drain_persist_core [OF dp(1) cc(2,3)]
    have pend: "\<forall>r \<in> set (pending (compacted sm ea blob (n_core n))). \<not> is_hard r" using disk_okD(2) [OF l(3)] by simp
    note P = drain_persist_cases(1,2) [OF dp(1) pend]
    have "recs_ok N (compact_begin sm ea blob n)"
      using l(4) wal_image_cfg [OF cc(2)] rewrite(1) by (auto simp: recs_ok_def rewrite(4))
    moreover have "hard_le (level k n) (level k (compact_begin sm ea blob n))" for k
      using l(3) P dp(2) by (intro level_drain) (auto simp: rewrite(4) drain_empty(1))
    moreover have "same_core (n_core n) (n_core (compact_begin sm ea blob n))"
      using same_core_trans [OF cc(1) c(1)] by (simp add: rewrite(4))
    ultimately show ?thesis using c dk by (intro node_move_disk [OF assms]) (simp_all add: rewrite(4))
  }
qed

lemma node_move_rewrite_begin:
  assumes "node_inv N i n" and "\<not> n_halted n"
  shows "node_move N i asked granted n ([], rewrite_begin n)"
proof -
  have l: "cfg_ok N (n_core n)" "cand_ok (n_core n)" "disk_ok n" "recs_ok N n" using assms by (simp_all add: node_inv_def live_ok_def)
  obtain rs r s' p' where d: "drain_for_round (n_core n) (n_progress n) = (rs, r, s', p')" by (metis prod_cases4)
  note dp = drain_for_round_cases [OF d]
  note c = drain_persist_core [OF dp(1) l(1,2)]
  note P = drain_persist_cases(1,2) [OF dp(1) disk_okD(2) [OF l(3)]]
  have dk: "disk_ok (rewrite_begin n)" using l(3) by (rule disk_ok_rewrite_begin)
  show ?thesis
  proof (cases "rewrite_begin n = n")
    case True
    then show ?thesis using node_move_disk [OF assms, of n] l by simp
  next
    case False
    then have rw: "rewrite_begin n = n\<lparr>n_core := s', n_progress := p', n_io := Some (Rewriting (wal_image s') (last_log_index s'))\<rparr>"
      and io: "n_io n = None"
      unfolding rewrite_begin_def d by (auto split: if_splits)
    have "recs_ok N (rewrite_begin n)" using l(4) c(5) io by (auto simp: recs_ok_def rw)
    moreover have "hard_le (level k n) (level k (rewrite_begin n))" for k
      using l(3) P dp(2) by (intro level_drain) (auto simp: rw)
    ultimately show ?thesis using c dk by (intro node_move_disk [OF assms]) (simp_all add: rw)
  qed
qed

lemma mark_durable_core:
  assumes "cfg_ok N s" and "cand_ok s"
  shows "same_core s (mark_durable_through sm k s)" "cfg_ok N (mark_durable_through sm k s)" "cand_ok (mark_durable_through sm k s)"
proof -
  note v = core_view_mark_durable_through [of sm k s]
  show "same_core s (mark_durable_through sm k s)" using core_viewD [OF v] by (simp add: same_core_def)
  show "cfg_ok N (mark_durable_through sm k s)" using cfg_ok_view [OF v] assms(1) by simp
  show "cand_ok (mark_durable_through sm k s)"
    using vote_okD(3) [OF vote_step_quiet [OF assms v, of None None]] by simp
qed

lemma io_done_fields:
  assumes "disk_ok n"
  shows "n_core (io_done sm n) = n_core n \<or> (\<exists>k. n_core (io_done sm n) = mark_durable_through sm k (n_core n))"
    and "drained (n_progress (io_done sm n)) = drained (n_progress n)"
    and "durable (n_progress (io_done sm n)) = durable (n_progress n) \<or>
         durable (n_progress (io_done sm n)) = drained (n_progress (io_done sm n))"
    and "n_gated (io_done sm n) = n_gated n" and "n_halted (io_done sm n) = n_halted n"
    and "recs_ok N n \<Longrightarrow> recs_ok N (io_done sm n)"
  using assms disk_okD(4) [OF assms]
  by (auto simp: io_done_def disk_ok_def recs_ok_def complete_drain_def complete_all_drained_def max_def Let_def
      split: option.splits Io.splits)

lemma node_move_io_done:
  assumes "node_inv N i n" and "\<not> n_halted n"
  shows "node_move N i asked granted n ([], io_done sm n)"
proof -
  have l: "cfg_ok N (n_core n)" "cand_ok (n_core n)" "disk_ok n" "recs_ok N n" using assms by (simp_all add: node_inv_def live_ok_def)
  note f = io_done_fields [OF l(3)] and dk = disk_ok_io_done [OF l(3), of sm]
  note m = mark_durable_core [OF l(1,2), of sm]
  have c: "same_core (n_core n) (n_core (io_done sm n))" "cfg_ok N (n_core (io_done sm n))" "cand_ok (n_core (io_done sm n))"
    "persisted_hard (n_core (io_done sm n)) = persisted_hard (n_core n)" "hard (n_core (io_done sm n)) = hard (n_core n)"
    using f(1) [of sm] l m by auto
  show ?thesis
    using c f(4-6) dk l level_done [OF l(3) dk c(5,4) f(2,3)] by (intro node_move_disk [OF assms]) simp_all
qed

lemma io_full_fields:
  assumes "disk_ok n"
  shows "n_core (io_full landed n) = n_core n" "drained (n_progress (io_full landed n)) = drained (n_progress n)"
    "durable (n_progress (io_full landed n)) = durable (n_progress n)"
    "n_gated (io_full landed n) = n_gated n" "n_halted (io_full landed n) = n_halted n"
    "recs_ok N n \<Longrightarrow> recs_ok N (io_full landed n)"
  by (auto simp: io_full_def mark_suspect_def recs_ok_def split: option.splits Io.splits)

lemma node_move_io_full:
  assumes "node_inv N i n" and "\<not> n_halted n"
  shows "node_move N i asked granted n ([], io_full landed n)"
proof -
  have l: "cfg_ok N (n_core n)" "cand_ok (n_core n)" "disk_ok n" "recs_ok N n" using assms by (simp_all add: node_inv_def live_ok_def)
  note f = io_full_fields [OF l(3)] and dk = disk_ok_io_full [OF l(3), of landed]
  have "hard_le (level r n) (level r (io_full landed n))" for r
    using f by (intro level_done [OF l(3) dk]) simp_all
  then show ?thesis using f dk l by (intro node_move_disk [OF assms]) simp_all
qed

section \<open>Boot\<close>

definition persisted_cfg :: "NodeId set \<Rightarrow> ('c, 's) PersistedState \<Rightarrow> bool" where
  "persisted_cfg N p \<longleftrightarrow> (\<forall>e \<in> set (p_log p). cfg_in N (e_config e)) \<and> cfg_in N (p_snapshot_config p)"

lemma replay_record_cfg: "record_cfg N r \<Longrightarrow> persisted_cfg N p \<Longrightarrow> persisted_cfg N (replay_record r p)"
  by (cases r) (auto simp: persisted_cfg_def dest: in_set_takeD)

lemma replay_cfg: "\<forall>r \<in> set rs. record_cfg N r \<Longrightarrow> persisted_cfg N (replay rs)"
proof -
  have "persisted_cfg N p \<Longrightarrow> \<forall>r \<in> set rs. record_cfg N r \<Longrightarrow> persisted_cfg N (fold replay_record rs p)" for p
    by (induction rs arbitrary: p) (simp_all add: replay_record_cfg)
  moreover have "persisted_cfg N persisted_default" by (simp add: persisted_default_def persisted_cfg_def cfg_in_def)
  ultimately show "\<forall>r \<in> set rs. record_cfg N r \<Longrightarrow> persisted_cfg N (replay rs)" by (simp add: replay_def)
qed

lemma core_new_ok:
  assumes "set ids = N" and "distinct ids"
  shows "node_id (core_new sm i ids now entropy) = i" "cfg_ok N (core_new sm i ids now entropy)"
    "cand_ok (core_new sm i ids now entropy)" "\<not> candidacy (core_new sm i ids now entropy)"
    "hard (core_new sm i ids now entropy) = (0, None)" "persisted_hard (core_new sm i ids now entropy) = (0, None)"
    "pending (core_new sm i ids now entropy) = []"
proof -
  note v = core_viewD [OF core_view_reset_election_timer [of now entropy "core_init sm i ids now"], folded core_new_def]
  show "node_id (core_new sm i ids now entropy) = i" "hard (core_new sm i ids now entropy) = (0, None)"
    "\<not> candidacy (core_new sm i ids now entropy)" "persisted_hard (core_new sm i ids now entropy) = (0, None)"
    "pending (core_new sm i ids now entropy) = []"
    using v by (simp_all add: core_init_def hard_def candidacy_def)
  then show "cand_ok (core_new sm i ids now entropy)"
    using v by (auto simp: cand_ok_def candidacy_def core_init_def)
  have "cfg_ok N (core_init sm i ids now)" using assms distinct_card [OF assms(2)] by (simp add: cfg_ok_def core_init_def cfg_in_def)
  then show "cfg_ok N (core_new sm i ids now entropy)"
    unfolding core_new_def using cfg_ok_view [OF core_view_reset_election_timer] by blast
qed

lemma recovered_ok:
  assumes "set ids = N" and "distinct ids" and "persisted_cfg N p"
  shows "node_id (recovered sm i ids p now entropy) = i" "cfg_ok N (recovered sm i ids p now entropy)"
    "cand_ok (recovered sm i ids p now entropy)" "\<not> candidacy (recovered sm i ids p now entropy)"
    "hard (recovered sm i ids p now entropy) = (p_term p, p_voted_for p)"
    "persisted_hard (recovered sm i ids p now entropy) = (p_term p, p_voted_for p)"
    "pending (recovered sm i ids p now entropy) = []"
proof -
  note n = core_new_ok [OF assms(1,2), of sm i now entropy]
  define s1 where "s1 = (core_new sm i ids now entropy)\<lparr>current_term := p_term p, voted_for := p_voted_for p, rlog := p_log p\<rparr>"
  define s2 where "s2 = (case p_snapshot p of None \<Rightarrow> s1
    | Some (m, li, lt) \<Rightarrow>
        let s = s1\<lparr>metadata := m, snapshot_index := li, snapshot_term := lt, last_applied := li, commit_index := li\<rparr>
        in if \<not> DRIVER_APPLIED sm then s\<lparr>snapshot_blob := Some (wrap CONTROL_SNAPSHOT (sm_to_vec sm m))\<rparr> else s)"
  define s3 where "s3 = recompute_config (s2\<lparr>snapshot_config := p_snapshot_config p, snapshot_learners := p_snapshot_learners p\<rparr>)"
  have r: "recovered sm i ids p now entropy =
      s3\<lparr>durable_index := last_log_index s3, persisted_hard := (current_term s3, voted_for s3), pending := []\<rparr>"
    unfolding s3_def s2_def s1_def recovered_def Let_def by (cases "p_snapshot p") auto
  have s2: "node_id s2 = i" "hard s2 = (p_term p, p_voted_for p)" "role s2 = role (core_new sm i ids now entropy)"
    "config s2 = N" "cluster_size s2 = card N" "initial_config s2 = N" "rlog s2 = p_log p" "pending s2 = []"
    using n(1,2,7) by (simp_all add: s2_def s1_def hard_def cfg_ok_def Let_def split: option.split prod.split)
  have "cfg_ok N (s2\<lparr>snapshot_config := p_snapshot_config p, snapshot_learners := p_snapshot_learners p\<rparr>)"
    using s2 assms(3) by (simp add: cfg_ok_def persisted_cfg_def)
  then have c3: "cfg_ok N s3" unfolding s3_def by (rule cfg_ok_recompute_config)
  have s3: "node_id s3 = i" "hard s3 = (p_term p, p_voted_for p)" "role s3 = role (core_new sm i ids now entropy)"
    using s2 by (simp_all add: s3_def recompute_config_def apply_config_def Let_def hard_def)
  show "node_id (recovered sm i ids p now entropy) = i" "hard (recovered sm i ids p now entropy) = (p_term p, p_voted_for p)"
    "persisted_hard (recovered sm i ids p now entropy) = (p_term p, p_voted_for p)" "pending (recovered sm i ids p now entropy) = []"
    using s3 by (simp_all add: r hard_def)
  show "cfg_ok N (recovered sm i ids p now entropy)" using c3 by (simp add: r cfg_ok_def)
  show cand: "\<not> candidacy (recovered sm i ids p now entropy)" using s3(3) n(4) by (simp add: r candidacy_def)
  then show "cand_ok (recovered sm i ids p now entropy)" by (auto simp: cand_ok_def candidacy_def)
qed

lemma core_view_begin_cluster_check: "core_view (snd (begin_cluster_check now entropy s)) = core_view s"
  by (simp add: begin_cluster_check_def Let_def frame frame_assign)

lemma begin_cluster_check_outs:
  assumes "out \<in> set (fst (begin_cluster_check now entropy s))"
  shows "claim out = None \<and> msg_cfg_ok N (snd out) \<and> own_request i (snd out) \<and> asked_for asked out"
proof -
  have "snd out = ClusterProbe"
    using assms by (auto simp: begin_cluster_check_def Let_def broadcast_cluster_probe_def split: if_splits)
  then show ?thesis by (cases out) auto
qed

text \<open>A freshly booted live node: idle disk, nothing held.\<close>

lemma booted_live:
  assumes "node_id s = i" and "cfg_ok N s" and "cand_ok s" and "pending s = []"
    and "hard s = wal_hard rs" and "persisted_hard s = wal_hard rs" and "\<forall>r \<in> set rs. record_cfg N r"
  shows "live_ok N i \<lparr>n_core = s, n_wal = rs, n_tail = [], n_io = None, n_task = False,
    n_progress = progress_default, n_gated = [], n_halted = False\<rparr>"
  using assms by (simp add: live_ok_def disk_ok_def held_ok_def recs_ok_def progress_default_def)

lemma survives_recs:
  assumes "recs_ok N n" and "wal_survives n rs"
  shows "\<forall>r \<in> set rs. record_cfg N r"
  using assms
  by (auto simp: recs_ok_def wal_survives_def simp del: upt_Suc dest!: in_set_takeD split: option.splits Io.splits)

lemma node_boot_ok:
  assumes "set ids = N" and "distinct ids" and "\<forall>r \<in> set rs. record_cfg N r"
    and "node_boot sm i ids rs now entropy = (outs, n')"
  shows "node_inv N i n'" "n_wal n' = rs" "n_gated n' = []" "\<not> candidacy (n_core n')"
    and "out \<in> set outs \<Longrightarrow> claim out = None \<and> msg_cfg_ok N (snd out) \<and> own_request i (snd out) \<and> asked_for asked out"
proof -
  let ?f = "core_new sm i ids now entropy" and ?p = "replay rs"
  define h where "h = (case check_log_contiguous ?p of Inl _ \<Rightarrow> True | Inr _ \<Rightarrow> False)"
  define r where "r = (if h then ([], ?f) else if \<not> persisted_is_empty ?p then ([], recovered sm i ids ?p now entropy)
    else begin_cluster_check now entropy ?f)"
  have b: "outs = fst r" "n' = \<lparr>n_core = snd r, n_wal = rs, n_tail = [], n_io = None, n_task = False,
      n_progress = progress_default, n_gated = [], n_halted = h\<rparr>"
    using assms(4) unfolding node_boot_def Let_def h_def [symmetric] r_def [symmetric] by (auto split: prod.splits)
  note f = core_new_ok [OF assms(1,2), of sm i now entropy]
  note rc = recovered_ok [OF assms(1,2) replay_cfg [OF assms(3)], of sm i now entropy]
  let ?c = "snd (begin_cluster_check now entropy ?f)"
  note v = core_view_begin_cluster_check [of now entropy ?f]
  note cv = core_viewD [OF v] hard_view [OF v]
  show "n_wal n' = rs" "n_gated n' = []" by (simp_all add: b(2))
  have cand: "\<not> candidacy (snd r)"
    using f(4) rc(4) cv(2) by (auto simp: r_def candidacy_def)
  then show "\<not> candidacy (n_core n')" by (simp add: b(2))
  show "out \<in> set outs \<Longrightarrow> claim out = None \<and> msg_cfg_ok N (snd out) \<and> own_request i (snd out) \<and> asked_for asked out"
    using begin_cluster_check_outs [of out now entropy ?f N i asked] by (auto simp: b(1) r_def split: if_splits)
  show "node_inv N i n'"
  proof (cases h)
    case True
    then show ?thesis using cand assms(3) by (simp add: node_inv_def b(2) recs_ok_def)
  next
    case False
    have "node_id (snd r) = i \<and> cfg_ok N (snd r) \<and> cand_ok (snd r) \<and> pending (snd r) = [] \<and>
        hard (snd r) = wal_hard rs \<and> persisted_hard (snd r) = wal_hard rs"
    proof (cases "persisted_is_empty ?p")
      case True
      then have "wal_hard rs = (0, None)" by (simp add: wal_hard_def persisted_is_empty_def)
      moreover have "snd r = ?c" using True False by (simp add: r_def)
      moreover have "cfg_ok N ?c" "cand_ok ?c" using cfg_ok_view [OF v] cand_ok_view [OF v] f(2,3) by simp_all
      ultimately show ?thesis using f cv by simp
    next
      case False
      then have "snd r = recovered sm i ids ?p now entropy" using \<open>\<not> h\<close> by (simp add: r_def)
      then show ?thesis using rc by (simp add: wal_hard_def)
    qed
    then have "live_ok N i n'" using booted_live [of "snd r" i N rs] assms(3) False by (simp add: b(2))
    then show ?thesis using False by (simp add: node_inv_def b(2))
  qed
qed

lemma node_move_boot:
  assumes "node_inv N i n" and "wal_survives n rs" and "set ids = N" and "distinct ids"
  shows "node_move N i asked granted n (node_boot sm i ids rs now entropy)"
proof -
  have r: "recs_ok N n" using assms(1) by (simp add: node_inv_def live_ok_def split: if_splits)
  have le: "hard_le (wal_hard (n_wal n)) (wal_hard rs)"
  proof (cases "n_halted n")
    case True
    then show ?thesis using assms(1,2) by (simp add: node_inv_def wal_survives_def)
  next
    case False
    then have "disk_ok n" using assms(1) by (simp add: node_inv_def live_ok_def)
    then show ?thesis using assms(2) by (rule disk_ok_survives)
  qed
  obtain outs n' where b: "node_boot sm i ids rs now entropy = (outs, n')" by fastforce
  note B = node_boot_ok [OF assms(3,4) survives_recs [OF r assms(2)] b]
  have "msg_ok N i (wal_hard (n_wal n')) out \<and> cast_now asked n n' out \<and> claim out = None" if "out \<in> set outs" for out
    using B(5) [OF that, of asked] by (simp add: msg_ok_def cast_now_def)
  then show ?thesis using B(1-4) le b by (simp add: node_move_def held_def)
qed

end
