(* ===== verification/Raft_Cluster.thy ===== *)
theory Raft_Cluster
  imports Raft_Node
begin

text \<open>
  A cluster of control-plane nodes over a network that loses, repeats, delays and reorders messages,
  with crashes that keep what the disk kept, and election safety: at most one leader per term, whatever
  the interleaving. The voters are fixed; learners come and go.
\<close>

section \<open>Majorities\<close>

locale quorum_votes =
  fixes voters :: "'n set" and cast :: "'n \<Rightarrow> 't \<Rightarrow> 'n \<Rightarrow> bool" and won :: "'t \<Rightarrow> 'n \<Rightarrow> bool"
  assumes finite_voters: "finite voters"
    and cast_once: "cast v t c \<Longrightarrow> cast v t c' \<Longrightarrow> c = c'"
    and won_by_majority: "won t c \<Longrightarrow> \<exists>Q \<subseteq> voters. card voters div 2 + 1 \<le> card Q \<and> (\<forall>v \<in> Q. cast v t c)"
begin

lemma majorities_meet:
  assumes "A \<subseteq> voters" and "B \<subseteq> voters" and "card voters div 2 + 1 \<le> card A" and "card voters div 2 + 1 \<le> card B"
  shows "A \<inter> B \<noteq> {}"
proof
  assume "A \<inter> B = {}"
  have "card (A \<union> B) = card A + card B"
    using assms(1,2) \<open>A \<inter> B = {}\<close> finite_voters finite_subset by (intro card_Un_disjoint) blast+
  moreover have "card (A \<union> B) \<le> card voters" using assms(1,2) finite_voters by (intro card_mono) auto
  ultimately show False using assms(3,4) by linarith
qed

lemma one_winner:
  assumes "won t c" and "won t c'"
  shows "c = c'"
proof -
  obtain A B where q: "A \<subseteq> voters" "card voters div 2 + 1 \<le> card A" "\<forall>v \<in> A. cast v t c"
      "B \<subseteq> voters" "card voters div 2 + 1 \<le> card B" "\<forall>v \<in> B. cast v t c'"
    using won_by_majority assms by metis
  then obtain v where "v \<in> A" "v \<in> B" using majorities_meet [of A B] by blast
  then show ?thesis using q cast_once by blast
qed

end

section \<open>The cluster\<close>

text \<open>\<open>elected\<close> records every (term, node) that was ever leader; it has no counterpart in the code.\<close>

record ('c, 's) Cluster =
  nodes :: "NodeId \<Rightarrow> ('c, 's) Node"
  net :: "(NodeId \<times> NodeId \<times> 'c RaftMsg) set"
  elected :: "(nat \<times> NodeId) set"

definition cluster_init :: "('c, 's) StateMachine \<Rightarrow> NodeId list \<Rightarrow> (NodeId \<Rightarrow> nat \<times> nat) \<Rightarrow> ('c, 's) Cluster" where
  "cluster_init sm ids seed =
     \<lparr>nodes = \<lambda>i. snd (node_boot sm i ids [] (fst (seed i)) (snd (seed i))), net = {}, elected = {}\<rparr>"

definition cluster_update :: "NodeId \<Rightarrow> 'c Out list \<times> ('c, 's) Node \<Rightarrow> ('c, 's) Cluster \<Rightarrow> ('c, 's) Cluster" where
  "cluster_update i r cl =
     (case r of (sent, n) \<Rightarrow>
        \<lparr>nodes = (nodes cl)(i := n),
         net = net cl \<union> set (map (\<lambda>out. (i, out)) sent),
         elected = (if role (n_core n) = Leader then insert (current_term (n_core n), i) (elected cl) else elected cl)\<rparr>)"

text \<open>Calls of the API and of the apply task; they send nothing.\<close>

datatype 'c Call =
    Propose 'c
  | AddLearner NodeId
  | RemoveLearner NodeId
  | TransferLeadership NodeId nat
  | SetTiming nat nat nat nat
  | DrainApply
  | DrainPendingInstall
  | TakeSnapshotNeeded

fun call_core :: "('c, 's) StateMachine \<Rightarrow> 'c Call \<Rightarrow> ('c, 's) RaftCore \<Rightarrow> ('c, 's) RaftCore" where
  "call_core sm (Propose command) s = snd (propose sm command s)"
| "call_core sm (AddLearner i) s = snd (add_learner sm i s)"
| "call_core sm (RemoveLearner i) s = snd (remove_learner sm i s)"
| "call_core sm (TransferLeadership target now) s = snd (transfer_leadership target now s)"
| "call_core sm (SetTiming election heartbeat now entropy) s = snd (set_timing election heartbeat now entropy s)"
| "call_core sm DrainApply s = snd (drain_apply s)"
| "call_core sm DrainPendingInstall s = snd (drain_pending_install s)"
| "call_core sm TakeSnapshotNeeded s = snd (take_snapshot_needed s)"

datatype 'c Event =
    Recv NodeId "'c RaftMsg" nat nat
  | Tick nat nat
  | Wake
  | Call "'c Call"
  | Spawn
  | PersistBegin
  | CompactBegin nat "bytes option"
  | RewriteBegin
  | IoDone
  | IoFull bool

fun node_event ::
  "('c, 's) StateMachine \<Rightarrow> 'c Event \<Rightarrow> ('c, 's) Node \<Rightarrow> 'c Out list \<times> ('c, 's) Node" where
  "node_event sm (Recv from msg now entropy) n = node_recv sm from msg now entropy n"
| "node_event sm (Tick now entropy) n = node_tick sm now entropy n"
| "node_event sm Wake n = node_wake n"
| "node_event sm (Call c) n = ([], n\<lparr>n_core := call_core sm c (n_core n)\<rparr>)"
| "node_event sm Spawn n = ([], persist_spawn n)"
| "node_event sm PersistBegin n = ([], persist_begin n)"
| "node_event sm (CompactBegin ea blob) n = ([], compact_begin sm ea blob n)"
| "node_event sm RewriteBegin n = ([], rewrite_begin n)"
| "node_event sm IoDone n = ([], io_done sm n)"
| "node_event sm (IoFull landed) n = ([], io_full landed n)"

text \<open>A message is received only when it was sent; a crash keeps what the log file kept.\<close>

inductive cluster_step :: "('c, 's) StateMachine \<Rightarrow> NodeId list \<Rightarrow> ('c, 's) Cluster \<Rightarrow> ('c, 's) Cluster \<Rightarrow> bool"
  for sm :: "('c, 's) StateMachine" and ids :: "NodeId list" where
  event: "\<lbrakk>i \<in> set ids; \<not> n_halted (nodes cl i);
           \<And>from msg now entropy. ev = Recv from msg now entropy \<Longrightarrow> (from, i, msg) \<in> net cl\<rbrakk> \<Longrightarrow>
    cluster_step sm ids cl (cluster_update i (node_event sm ev (nodes cl i)) cl)"
| crash: "\<lbrakk>i \<in> set ids; wal_survives (nodes cl i) rs\<rbrakk> \<Longrightarrow>
    cluster_step sm ids cl (cluster_update i (node_boot sm i ids rs now entropy) cl)"

inductive reachable :: "('c, 's) StateMachine \<Rightarrow> NodeId list \<Rightarrow> ('c, 's) Cluster \<Rightarrow> bool"
  for sm :: "('c, 's) StateMachine" and ids :: "NodeId list" where
  init: "reachable sm ids (cluster_init sm ids seed)"
| step: "reachable sm ids cl \<Longrightarrow> cluster_step sm ids cl cl' \<Longrightarrow> reachable sm ids cl'"

section \<open>The invariant of the cluster\<close>

definition voice :: "('c, 's) Cluster \<Rightarrow> NodeId \<Rightarrow> 'c Out set" where
  "voice cl i = held (nodes cl i) \<union> {out. (i, out) \<in> net cl}"

definition requested :: "('c, 's) Cluster \<Rightarrow> nat \<Rightarrow> NodeId \<Rightarrow> bool" where
  "requested cl t c \<longleftrightarrow> (\<exists>to lli llt. (c, to, RequestVote t c lli llt) \<in> net cl)"

definition granted_in :: "('c, 's) Cluster \<Rightarrow> nat \<Rightarrow> NodeId \<Rightarrow> NodeId \<Rightarrow> bool" where
  "granted_in cl t c v \<longleftrightarrow> v = c \<or> (v, c, RequestVoteResp t True) \<in> net cl"

definition nodes_ok :: "NodeId set \<Rightarrow> ('c, 's) Cluster \<Rightarrow> bool" where
  "nodes_ok N cl \<longleftrightarrow> (\<forall>i \<in> N. node_inv N i (nodes cl i))"

definition net_ok :: "NodeId set \<Rightarrow> ('c, 's) Cluster \<Rightarrow> bool" where
  "net_ok N cl \<longleftrightarrow> (\<forall>(i, out) \<in> net cl. i \<in> N \<and> msg_ok N i (wal_hard (n_wal (nodes cl i))) out)"

definition votes_once :: "NodeId set \<Rightarrow> ('c, 's) Cluster \<Rightarrow> bool" where
  "votes_once N cl \<longleftrightarrow>
     (\<forall>i \<in> N. \<forall>a \<in> voice cl i. \<forall>b \<in> voice cl i. \<forall>t c d. claim a = Some (t, c) \<longrightarrow> claim b = Some (t, d) \<longrightarrow> c = d)"

definition votes_asked :: "NodeId set \<Rightarrow> ('c, 's) Cluster \<Rightarrow> bool" where
  "votes_asked N cl \<longleftrightarrow> (\<forall>i \<in> N. \<forall>to t. (to, RequestVoteResp t True) \<in> voice cl i \<longrightarrow> requested cl t to)"

definition votes_counted :: "NodeId set \<Rightarrow> ('c, 's) Cluster \<Rightarrow> bool" where
  "votes_counted N cl \<longleftrightarrow>
     (\<forall>i \<in> N. candidacy (n_core (nodes cl i)) \<longrightarrow>
        (\<forall>v \<in> votes (n_core (nodes cl i)). granted_in cl (current_term (n_core (nodes cl i))) i v))"

definition elected_ok :: "NodeId set \<Rightarrow> ('c, 's) Cluster \<Rightarrow> bool" where
  "elected_ok N cl \<longleftrightarrow>
     (\<forall>(t, c) \<in> elected cl. c \<in> N \<and> (\<exists>Q \<subseteq> N. card N div 2 + 1 \<le> card Q \<and> (\<forall>v \<in> Q. granted_in cl t c v)))"

definition cluster_inv :: "NodeId set \<Rightarrow> ('c, 's) Cluster \<Rightarrow> bool" where
  "cluster_inv N cl \<longleftrightarrow>
     nodes_ok N cl \<and> net_ok N cl \<and> votes_once N cl \<and> votes_asked N cl \<and> votes_counted N cl \<and> elected_ok N cl"

lemma cluster_update_simps [simp]:
  "nodes (cluster_update i (sent, n) cl) = (nodes cl)(i := n)"
  "(k, out) \<in> net (cluster_update i (sent, n) cl) \<longleftrightarrow> (k, out) \<in> net cl \<or> k = i \<and> out \<in> set sent"
  "elected (cluster_update i (sent, n) cl) =
     (if role (n_core n) = Leader then insert (current_term (n_core n), i) (elected cl) else elected cl)"
  by (auto simp: cluster_update_def)

lemma requested_update: "requested cl t c \<Longrightarrow> requested (cluster_update i (sent, n) cl) t c"
  by (auto simp: requested_def)

lemma granted_update: "granted_in cl t c v \<Longrightarrow> granted_in (cluster_update i (sent, n) cl) t c v"
  by (auto simp: granted_in_def)

lemma voice_update:
  "voice (cluster_update i (sent, n) cl) k =
     (if k = i then held n \<union> set sent \<union> {out. (i, out) \<in> net cl} else voice cl k)"
  by (auto simp: voice_def)

text \<open>A vote that is out is covered by the hard state in memory.\<close>

lemma voice_promised:
  assumes "nodes_ok N cl" and "net_ok N cl" and "i \<in> N" and "\<not> n_halted (nodes cl i)"
    and "out \<in> voice cl i" and "claim out = Some (t, c)"
  shows "promised t c (hard (n_core (nodes cl i)))"
proof -
  let ?n = "nodes cl i"
  have l: "disk_ok ?n" "held_ok N i ?n" using assms(1,3,4) by (auto simp: nodes_ok_def node_inv_def live_ok_def)
  have h: "hard_le (wal_hard (n_wal ?n)) (hard (n_core ?n))"
    using disk_okD(1,3) [OF l(1)] hard_le_trans by blast
  from assms(5) consider b where "b \<in> set (n_gated ?n)" "out \<in> set (snd b)" | "(i, out) \<in> net cl"
    by (auto simp: voice_def held_def)
  then show ?thesis
  proof cases
    case 1
    then have "promised t c (level (fst b) ?n)" using l(2) assms(6) by (auto simp: held_ok_def msg_ok_def)
    then show ?thesis using level_bounds(2) [OF l(1)] by (rule promised_mono)
  next
    case 2
    then have "promised t c (wal_hard (n_wal ?n))" using assms(2,6) by (auto simp: net_ok_def msg_ok_def)
    then show ?thesis using h by (rule promised_mono)
  qed
qed

section \<open>One step of one node preserves it\<close>

text \<open>The step of node \<open>i\<close> to \<open>n\<close> with the messages \<open>sent\<close>; what it answers and counts is on the network.\<close>

definition cluster_move ::
  "NodeId set \<Rightarrow> NodeId \<Rightarrow> ('c, 's) Cluster \<Rightarrow> 'c Out list \<Rightarrow> ('c, 's) Node \<Rightarrow> bool" where
  "cluster_move N i cl sent n \<longleftrightarrow>
     i \<in> N \<and> (\<exists>asked granted. node_move N i asked granted (nodes cl i) (sent, n) \<and>
       (\<forall>t c. asked = Some (t, c) \<longrightarrow> requested cl t c) \<and>
       (\<forall>t v. granted = Some (t, v) \<longrightarrow> (v, i, RequestVoteResp t True) \<in> net cl))"

lemma cluster_moveD:
  assumes "cluster_move N i cl sent n"
  shows "i \<in> N" "node_inv N i n" "hard_le (wal_hard (n_wal (nodes cl i))) (wal_hard (n_wal n))"
    "out \<in> set sent \<Longrightarrow> msg_ok N i (wal_hard (n_wal n)) out"
    "n_halted n \<Longrightarrow> out \<in> set sent \<Longrightarrow> claim out = None"
  using assms by (auto simp: cluster_move_def node_move_def)

lemma cluster_move_cast:
  assumes "cluster_move N i cl sent n" and "out \<in> set sent \<union> held n" and "out \<notin> held (nodes cl i)"
  shows "claim out = Some (t, c) \<Longrightarrow> hard (n_core n) = (t, Some c) \<and> hard_le (hard (n_core (nodes cl i))) (hard (n_core n))"
    and "out = (c, RequestVoteResp t True) \<Longrightarrow> requested cl t c"
  using assms by (auto simp: cluster_move_def node_move_def cast_now_def)

lemma cluster_move_votes:
  assumes "cluster_move N i cl sent n" and "votes_counted N cl" and "candidacy (n_core n)" and "v \<in> votes (n_core n)"
  shows "granted_in cl (current_term (n_core n)) i v"
proof -
  obtain granted where g: "v = i \<or> granted = Some (current_term (n_core n), v) \<or>
      (candidacy (n_core (nodes cl i)) \<and> current_term (n_core (nodes cl i)) = current_term (n_core n) \<and> v \<in> votes (n_core (nodes cl i)))"
    "granted = Some (current_term (n_core n), v) \<Longrightarrow> (v, i, RequestVoteResp (current_term (n_core n)) True) \<in> net cl"
    using assms(1,3,4) unfolding cluster_move_def node_move_def prod.case by blast
  have "granted_in cl (current_term (n_core (nodes cl i))) i v"
    if "candidacy (n_core (nodes cl i))" "v \<in> votes (n_core (nodes cl i))"
    using that assms(2) cluster_moveD(1) [OF assms(1)] by (simp add: votes_counted_def)
  then show ?thesis using g by (metis granted_in_def)
qed

lemma nodes_ok_update:
  "nodes_ok N cl \<Longrightarrow> cluster_move N i cl sent n \<Longrightarrow> nodes_ok N (cluster_update i (sent, n) cl)"
  by (auto simp: nodes_ok_def dest: cluster_moveD(2))

lemma net_ok_update:
  assumes "net_ok N cl" and "cluster_move N i cl sent n"
  shows "net_ok N (cluster_update i (sent, n) cl)"
  unfolding net_ok_def
proof clarify
  fix k out assume "(k, out) \<in> net (cluster_update i (sent, n) cl)"
  then consider "(k, out) \<in> net cl" | "k = i" "out \<in> set sent" by auto
  then show "k \<in> N \<and> msg_ok N k (wal_hard (n_wal (nodes (cluster_update i (sent, n) cl) k))) out"
  proof cases
    case 1
    then have "k \<in> N" "msg_ok N k (wal_hard (n_wal (nodes cl k))) out" using assms(1) by (auto simp: net_ok_def)
    then show ?thesis using msg_ok_mono [OF _ cluster_moveD(3) [OF assms(2)], of N i out] by (cases "k = i") simp_all
  next
    case 2
    then show ?thesis using cluster_moveD(1,4) [OF assms(2)] by simp
  qed
qed

lemma votes_asked_update:
  assumes "votes_asked N cl" and "cluster_move N i cl sent n"
  shows "votes_asked N (cluster_update i (sent, n) cl)"
  unfolding votes_asked_def
proof (intro ballI allI impI)
  fix k to t assume k: "k \<in> N" and v: "(to, RequestVoteResp t True) \<in> voice (cluster_update i (sent, n) cl) k"
  then have "(to, RequestVoteResp t True) \<in> voice cl k \<or>
      k = i \<and> (to, RequestVoteResp t True) \<in> set sent \<union> held n \<and> (to, RequestVoteResp t True) \<notin> held (nodes cl i)"
    by (auto simp: voice_update voice_def split: if_splits)
  then have "requested cl t to"
    using assms(1) k cluster_move_cast(2) [OF assms(2), of "(to, RequestVoteResp t True)" to t] by (auto simp: votes_asked_def)
  then show "requested (cluster_update i (sent, n) cl) t to" by (rule requested_update)
qed

lemma votes_counted_update:
  assumes "votes_counted N cl" and "cluster_move N i cl sent n"
  shows "votes_counted N (cluster_update i (sent, n) cl)"
  using assms(1) cluster_move_votes [OF assms(2,1)] by (auto simp: votes_counted_def intro!: granted_update)

lemma elected_ok_update:
  assumes "elected_ok N cl" and "votes_counted N cl" and "cluster_move N i cl sent n"
  shows "elected_ok N (cluster_update i (sent, n) cl)"
proof -
  have old: "c \<in> N \<and> (\<exists>Q \<subseteq> N. card N div 2 + 1 \<le> card Q \<and> (\<forall>v \<in> Q. granted_in (cluster_update i (sent, n) cl) t c v))"
    if tc: "(t, c) \<in> elected cl" for t c
  proof -
    obtain Q where "c \<in> N" "Q \<subseteq> N" "card N div 2 + 1 \<le> card Q" "\<forall>v \<in> Q. granted_in cl t c v"
      using assms(1) tc by (auto simp: elected_ok_def)
    then show ?thesis using granted_update [of cl t c _ i sent n] by blast
  qed
  have new: "i \<in> N \<and> (\<exists>Q \<subseteq> N. card N div 2 + 1 \<le> card Q \<and>
      (\<forall>v \<in> Q. granted_in (cluster_update i (sent, n) cl) (current_term (n_core n)) i v))"
    if lead: "role (n_core n) = Leader"
  proof -
    have c: "candidacy (n_core n)" using lead by (simp add: candidacy_def)
    then have "live_ok N i n" using cluster_moveD(2) [OF assms(3)] by (simp add: node_inv_def split: if_splits)
    then have "cand_ok (n_core n)" "cfg_ok N (n_core n)" by (simp_all add: live_ok_def)
    then have "votes (n_core n) \<subseteq> N" "card N div 2 + 1 \<le> card (votes (n_core n))"
      using lead c by (simp_all add: cand_ok_def cfg_ok_def majority_def)
    moreover have "granted_in (cluster_update i (sent, n) cl) (current_term (n_core n)) i v" if "v \<in> votes (n_core n)" for v
      using cluster_move_votes [OF assms(3,2) c that] by (rule granted_update)
    ultimately show ?thesis using cluster_moveD(1) [OF assms(3)] by blast
  qed
  show ?thesis unfolding elected_ok_def using old new by (auto split: if_splits)
qed

lemma votes_once_update:
  assumes "nodes_ok N cl" and "net_ok N cl" and "votes_once N cl" and m: "cluster_move N i cl sent n"
  shows "votes_once N (cluster_update i (sent, n) cl)"
proof -
  have fresh: "out \<in> voice cl i \<or> (out \<in> set sent \<union> held n \<and> out \<notin> held (nodes cl i))"
    if "out \<in> voice (cluster_update i (sent, n) cl) i" for out
    using that by (auto simp: voice_update voice_def)
  have old_new: "c = d"
    if a: "a \<in> voice cl i" "claim a = Some (t, d)"
      and b: "b \<in> set sent \<union> held n" "b \<notin> held (nodes cl i)" "claim b = Some (t, c)" for a b t c d
  proof -
    have h: "hard (n_core n) = (t, Some c)" "hard_le (hard (n_core (nodes cl i))) (hard (n_core n))"
      using cluster_move_cast(1) [OF m b] by blast+
    have "promised t d (hard (n_core n))"
    proof (cases "n_halted (nodes cl i)")
      case False
      show ?thesis
        using voice_promised [OF assms(1,2) cluster_moveD(1) [OF m] False a] h(2) by (rule promised_mono)
    next
      case True
      then have "held (nodes cl i) = {}"
        using assms(1) cluster_moveD(1) [OF m] by (auto simp: nodes_ok_def node_inv_def held_def)
      then have "(i, a) \<in> net cl" using a(1) by (simp add: voice_def)
      then have "promised t d (wal_hard (n_wal (nodes cl i)))" using assms(2) a(2) by (auto simp: net_ok_def msg_ok_def)
      then have p: "promised t d (wal_hard (n_wal n))" using cluster_moveD(3) [OF m] by (rule promised_mono)
      have "\<not> n_halted n"
        using b cluster_moveD(2) [OF m] cluster_moveD(5) [OF m, of b] by (auto simp: node_inv_def held_def)
      then have "disk_ok n" using cluster_moveD(2) [OF m] by (simp add: node_inv_def live_ok_def)
      then have "hard_le (wal_hard (n_wal n)) (hard (n_core n))" using disk_okD(1,3) hard_le_trans by blast
      with p show ?thesis by (rule promised_mono)
    qed
    then show ?thesis using h(1) by (auto simp: promised_def)
  qed
  have new_new: "c = d"
    if "a \<in> set sent \<union> held n" "a \<notin> held (nodes cl i)" "claim a = Some (t, c)"
      "b \<in> set sent \<union> held n" "b \<notin> held (nodes cl i)" "claim b = Some (t, d)" for a b t c d
    using cluster_move_cast(1) [OF m that(1-3)] cluster_move_cast(1) [OF m that(4-6)] by simp
  have old: "c = d" if "k \<in> N" "a \<in> voice cl k" "b \<in> voice cl k" "claim a = Some (t, c)" "claim b = Some (t, d)" for k a b t c d
    using assms(3) that unfolding votes_once_def by blast
  have "c = d" if v: "k \<in> N" "a \<in> voice (cluster_update i (sent, n) cl) k" "b \<in> voice (cluster_update i (sent, n) cl) k"
      and c: "claim a = Some (t, c)" "claim b = Some (t, d)" for k a b t c d
  proof (cases "k = i")
    case False
    then show ?thesis using v old [OF v(1) _ _ c] by (simp add: voice_update)
  next
    case True
    let ?new = "\<lambda>x. x \<in> set sent \<union> held n \<and> x \<notin> held (nodes cl i)"
    from True v fresh consider "a \<in> voice cl i" "b \<in> voice cl i" | "a \<in> voice cl i" "?new b"
      | "?new a" "b \<in> voice cl i" | "?new a" "?new b" by blast
    then show ?thesis
    proof cases
      case 1
      then show ?thesis using old [of i] cluster_moveD(1) [OF m] c by blast
    next
      case 2
      then show ?thesis using old_new [of a t c b d] c by blast
    next
      case 3
      then show ?thesis using old_new [of b t d a c] c by blast
    next
      case 4
      then show ?thesis using new_new [of a t c b d] c by blast
    qed
  qed
  then show ?thesis unfolding votes_once_def by blast
qed

lemma cluster_inv_update:
  assumes "cluster_inv N cl" and "cluster_move N i cl sent n"
  shows "cluster_inv N (cluster_update i (sent, n) cl)"
proof -
  have c: "nodes_ok N cl" "net_ok N cl" "votes_once N cl" "votes_asked N cl" "votes_counted N cl" "elected_ok N cl"
    using assms(1) by (simp_all add: cluster_inv_def)
  show ?thesis
    unfolding cluster_inv_def
    using nodes_ok_update [OF c(1) assms(2)] net_ok_update [OF c(2) assms(2)] votes_once_update [OF c(1-3) assms(2)]
      votes_asked_update [OF c(4) assms(2)] votes_counted_update [OF c(5) assms(2)] elected_ok_update [OF c(6,5) assms(2)]
    by simp
qed

section \<open>Every event is such a step\<close>

lemma core_view_drains [frame]:
  "core_view (snd (drain_apply s)) = core_view s" "core_view (snd (drain_pending_install s)) = core_view s"
  "core_view (snd (take_snapshot_needed s)) = core_view s"
  by (simp_all add: drain_apply_def drain_pending_install_def take_snapshot_needed_def frame_assign)

lemma core_view_set_timing [frame]: "core_view (snd (set_timing base heartbeat now entropy s)) = core_view s"
  by (simp add: set_timing_def Let_def frame frame_assign)

lemma core_view_transfer_leadership [frame]: "core_view (snd (transfer_leadership target now s)) = core_view s"
  by (simp add: transfer_leadership_def Let_def frame frame_assign)

lemma call_core_ok:
  assumes "cfg_ok N s" and "cand_ok s"
  shows "vote_ok N asked granted s [] (call_core sm c s)" and "wal_ok s (call_core sm c s)"
proof -
  have q: "vote_ok N asked granted s [] s'" "wal_ok s s'" if "core_view s' = core_view s" for s'
    using vote_step_quiet [OF assms that] wal_ok_core [OF that, of s] wal_ok_refl by simp_all
  show "vote_ok N asked granted s [] (call_core sm c s)"
    by (cases c) (simp_all add: vote_ok_proposals [OF assms] q frame)
  show "wal_ok s (call_core sm c s)"
    by (cases c) (simp_all add: wal_ok_proposals q frame)
qed

lemma node_event_move:
  assumes "node_inv N i n" and "\<not> n_halted n"
    and "\<And>from msg now entropy. ev = Recv from msg now entropy \<Longrightarrow> msg_cfg_ok N msg"
  shows "\<exists>asked granted. node_move N i asked granted n (node_event sm ev n) \<and>
    (\<forall>a. asked = Some a \<longrightarrow> (\<exists>from msg now entropy. ev = Recv from msg now entropy \<and> asks msg = Some a)) \<and>
    (\<forall>g. granted = Some g \<longrightarrow> (\<exists>from msg now entropy. ev = Recv from msg now entropy \<and> grants from msg = Some g))"
proof -
  have c: "cfg_ok N (n_core n)" "cand_ok (n_core n)" using assms(1,2) by (simp_all add: node_inv_def live_ok_def)
  have none: ?thesis if "node_move N i None None n (node_event sm ev n)" using that by blast
  note quiet = node_move_wake [OF assms(1,2)] node_move_call [OF assms(1,2)] node_move_spawn [OF assms(1,2)]
    node_move_persist_begin [OF assms(1,2)] node_move_compact_begin [OF assms(1,2)] node_move_rewrite_begin [OF assms(1,2)]
    node_move_io_done [OF assms(1,2)] node_move_io_full [OF assms(1,2)]
  show ?thesis
  proof (cases ev)
    case (Recv "from" msg now entropy)
    have "node_move N i (asks msg) (grants from msg) n (node_recv sm from msg now entropy n)"
    proof (cases "\<exists>node. msg = Heartbeat node")
      case True
      then show ?thesis using quiet(1) by (auto simp: node_recv_def)
    next
      case False
      then have "node_recv sm from msg now entropy n = node_step (handle sm from msg now entropy (n_core n)) n"
        by (cases msg) (simp_all add: node_recv_def)
      then show ?thesis
        using node_move_step [OF assms(1,2) vote_step_handle [OF c assms(3) [OF Recv]] wal_ok_handle] by simp
    qed
    then show ?thesis using Recv by (intro exI [of _ "asks msg"] exI [of _ "grants from msg"]) auto
  next
    case (Tick now entropy)
    have "vote_step N None None (n_core n) (tick sm now entropy (n_core n))" "wal_ok (n_core n) (snd (tick sm now entropy (n_core n)))"
      unfolding tick_def using vote_step_tick_gated [OF c] wal_ok_tick_gated by blast+
    from node_move_step [OF assms(1,2) this] Tick show ?thesis by (intro none) (simp add: node_tick_def)
  next
    case (Call x)
    from quiet(2) [OF call_core_ok [OF c]] Call show ?thesis by (intro none) simp
  next
    case Spawn
    have "node_move N i None None n ([], n)" using quiet(3) [of None None "n_task n"] by simp
    then show ?thesis using Spawn quiet(3) by (intro none) (simp add: persist_spawn_def)
  qed (rule none, simp add: quiet node_wake_def)+
qed

lemma cluster_move_event:
  assumes "cluster_inv N cl" and "i \<in> N" and "\<not> n_halted (nodes cl i)"
    and "\<And>from msg now entropy. ev = Recv from msg now entropy \<Longrightarrow> (from, i, msg) \<in> net cl"
    and "node_event sm ev (nodes cl i) = (sent, n)"
  shows "cluster_move N i cl sent n"
proof -
  have inv: "node_inv N i (nodes cl i)" "net_ok N cl" using assms(1,2) by (auto simp: cluster_inv_def nodes_ok_def)
  have msg: "msg_cfg_ok N msg \<and> own_request from msg" if "ev = Recv from msg now entropy" for "from" msg now entropy
    using assms(4) [OF that] inv(2) by (auto simp: net_ok_def msg_ok_def)
  obtain asked granted where m: "node_move N i asked granted (nodes cl i) (sent, n)"
    and a: "\<And>a. asked = Some a \<Longrightarrow> \<exists>from msg now entropy. ev = Recv from msg now entropy \<and> asks msg = Some a"
    and g: "\<And>g. granted = Some g \<Longrightarrow> \<exists>from msg now entropy. ev = Recv from msg now entropy \<and> grants from msg = Some g"
    using node_event_move [OF inv(1) assms(3), of ev sm] msg assms(5) by metis
  have "requested cl t c" if A: "asked = Some (t, c)" for t c
  proof -
    obtain "from" msg now entropy where r: "ev = Recv from msg now entropy" "asks msg = Some (t, c)" using a [OF A] by blast
    then obtain lli llt where "msg = RequestVote t c lli llt" by (cases msg) auto
    then show ?thesis using assms(4) [OF r(1)] msg [OF r(1)] by (auto simp: requested_def)
  qed
  moreover have "(v, i, RequestVoteResp t True) \<in> net cl" if G: "granted = Some (t, v)" for t v
  proof -
    obtain "from" msg now entropy where r: "ev = Recv from msg now entropy" "grants from msg = Some (t, v)" using g [OF G] by blast
    then have "msg = RequestVoteResp t True \<and> from = v" by (cases msg) (auto split: if_splits)
    then show ?thesis using assms(4) [OF r(1)] by simp
  qed
  ultimately show ?thesis using m assms(2) unfolding cluster_move_def by blast
qed

section \<open>Reachable clusters\<close>

lemma cluster_inv_init:
  assumes "distinct ids"
  shows "cluster_inv (set ids) (cluster_init sm ids seed)"
proof -
  let ?cl = "cluster_init sm ids seed"
  have n: "node_inv (set ids) i (nodes ?cl i)" "n_gated (nodes ?cl i) = []" "\<not> candidacy (n_core (nodes ?cl i))" for i
  proof -
    obtain outs n where b: "node_boot sm i ids [] (fst (seed i)) (snd (seed i)) = (outs, n)" by fastforce
    then have e: "nodes ?cl i = n" by (simp add: cluster_init_def)
    have r: "\<forall>r \<in> set []. record_cfg (set ids) r" by simp
    show "node_inv (set ids) i (nodes ?cl i)" "n_gated (nodes ?cl i) = []" "\<not> candidacy (n_core (nodes ?cl i))"
      using node_boot_ok(1,3,4) [OF refl assms r b] by (simp_all add: e)
  qed
  have "voice ?cl i = {}" for i using n(2) by (simp add: voice_def held_def cluster_init_def)
  then show ?thesis
    using n by (simp add: cluster_inv_def nodes_ok_def net_ok_def votes_once_def votes_asked_def votes_counted_def elected_ok_def)
      (simp add: cluster_init_def)
qed

lemma cluster_inv_step:
  assumes "cluster_step sm ids cl cl'" and "distinct ids" and "cluster_inv (set ids) cl"
  shows "cluster_inv (set ids) cl'"
  using assms(1)
proof cases
  case (event i ev)
  obtain sent n where e: "node_event sm ev (nodes cl i) = (sent, n)" by fastforce
  have "cluster_move (set ids) i cl sent n" using cluster_move_event [OF assms(3) event(2,3,4) e] by simp
  then show ?thesis using cluster_inv_update [OF assms(3)] event(1) e by simp
next
  case (crash i rs now entropy)
  obtain sent n where e: "node_boot sm i ids rs now entropy = (sent, n)" by fastforce
  have "node_inv (set ids) i (nodes cl i)" using assms(3) crash(2) by (simp add: cluster_inv_def nodes_ok_def)
  from node_move_boot [OF this crash(3) refl assms(2), of None None sm now entropy] e crash(2)
  have "cluster_move (set ids) i cl sent n"
    unfolding cluster_move_def by (auto intro!: exI [of _ None])
  then show ?thesis using cluster_inv_update [OF assms(3)] crash(1) e by simp
qed

lemma cluster_inv_reachable: "reachable sm ids cl \<Longrightarrow> distinct ids \<Longrightarrow> cluster_inv (set ids) cl"
proof (induction rule: reachable.induct)
  case (init seed)
  then show ?case by (rule cluster_inv_init)
next
  case (step cl cl')
  then show ?case using cluster_inv_step by blast
qed

text \<open>The vote \<open>v\<close> has on the wire or in its queue; the only voter of a cluster of one needs no message.\<close>

definition cast_vote :: "('c, 's) StateMachine \<Rightarrow> NodeId list \<Rightarrow> ('c, 's) Cluster \<Rightarrow> NodeId \<Rightarrow> nat \<Rightarrow> NodeId \<Rightarrow> bool" where
  "cast_vote sm ids cl v t c \<longleftrightarrow>
     reachable sm ids cl \<and> distinct ids \<and> v \<in> set ids \<and> c \<in> set ids \<and>
     ((\<exists>out \<in> voice cl v. claim out = Some (t, c)) \<or> set ids = {c})"

definition won_term :: "('c, 's) StateMachine \<Rightarrow> NodeId list \<Rightarrow> ('c, 's) Cluster \<Rightarrow> nat \<Rightarrow> NodeId \<Rightarrow> bool" where
  "won_term sm ids cl t c \<longleftrightarrow> reachable sm ids cl \<and> distinct ids \<and> (t, c) \<in> elected cl"

lemma cast_voteD:
  assumes "cast_vote sm ids cl v t c"
  shows "reachable sm ids cl" "distinct ids" "v \<in> set ids" "c \<in> set ids"
    "set ids \<noteq> {c} \<Longrightarrow> \<exists>out \<in> voice cl v. claim out = Some (t, c)"
  using assms unfolding cast_vote_def by blast+

lemma cast_vote_once:
  assumes "cast_vote sm ids cl v t c" and "cast_vote sm ids cl v t c'"
  shows "c = c'"
proof (cases "set ids = {c} \<or> set ids = {c'}")
  case True
  then show ?thesis using cast_voteD(4) [OF assms(1)] cast_voteD(4) [OF assms(2)] by (elim disjE) simp_all
next
  case False
  then obtain a b where v: "a \<in> voice cl v" "claim a = Some (t, c)" "b \<in> voice cl v" "claim b = Some (t, c')"
    using cast_voteD(5) [OF assms(1)] cast_voteD(5) [OF assms(2)] by blast
  have "votes_once (set ids) cl"
    using cluster_inv_reachable [OF cast_voteD(1,2) [OF assms(1)]] unfolding cluster_inv_def by blast
  then show ?thesis using v cast_voteD(3) [OF assms(1)] unfolding votes_once_def by blast
qed

lemma grant_is_cast:
  assumes "cluster_inv (set ids) cl" and "(v, c, RequestVoteResp t True) \<in> net cl"
  shows "v \<in> set ids" "\<exists>out \<in> voice cl v. claim out = Some (t, c)" "\<exists>out \<in> voice cl c. claim out = Some (t, c)"
proof -
  have inv: "net_ok (set ids) cl" "votes_asked (set ids) cl" using assms(1) by (simp_all add: cluster_inv_def)
  show v: "v \<in> set ids" using inv(1) assms(2) by (auto simp: net_ok_def)
  have o: "(c, RequestVoteResp t True) \<in> voice cl v" using assms(2) by (simp add: voice_def)
  then show "\<exists>out \<in> voice cl v. claim out = Some (t, c)" by force
  have "requested cl t c" using inv(2) v o by (auto simp: votes_asked_def)
  then obtain to lli llt where "(to, RequestVote t c lli llt) \<in> voice cl c" by (auto simp: requested_def voice_def)
  then show "\<exists>out \<in> voice cl c. claim out = Some (t, c)" by force
qed

lemma won_term_majority:
  assumes "won_term sm ids cl t c"
  shows "\<exists>Q \<subseteq> set ids. card (set ids) div 2 + 1 \<le> card Q \<and> (\<forall>v \<in> Q. cast_vote sm ids cl v t c)"
proof -
  have r: "reachable sm ids cl" "distinct ids" "(t, c) \<in> elected cl" using assms by (simp_all add: won_term_def)
  have inv: "cluster_inv (set ids) cl" using cluster_inv_reachable r by blast
  then obtain Q where q: "c \<in> set ids" "Q \<subseteq> set ids" "card (set ids) div 2 + 1 \<le> card Q" "\<forall>v \<in> Q. granted_in cl t c v"
    using r(3) by (auto simp: cluster_inv_def elected_ok_def)
  have "cast_vote sm ids cl v t c" if "v \<in> Q" for v
  proof (cases "set ids = {c}")
    case True
    then show ?thesis using r q that by (auto simp: cast_vote_def)
  next
    case False
    then obtain d where "d \<in> set ids" "d \<noteq> c" using q(1) by blast
    then have "2 \<le> card (set ids)" using q(1) card_mono [of "set ids" "{c, d}"] by simp
    then have "\<not> Q \<subseteq> {c}" using q(3) card_mono [of "{c}" Q] by auto
    then obtain w where w: "w \<in> Q" "w \<noteq> c" by blast
    then have "(w, c, RequestVoteResp t True) \<in> net cl" using q(4) by (auto simp: granted_in_def)
    note g = grant_is_cast [OF inv this]
    show ?thesis
    proof (cases "v = c")
      case True
      then show ?thesis using r q g(3) by (simp add: cast_vote_def)
    next
      case False
      then have "(v, c, RequestVoteResp t True) \<in> net cl" using q(4) that by (auto simp: granted_in_def)
      from grant_is_cast(1,2) [OF inv this] show ?thesis using r q by (simp add: cast_vote_def)
    qed
  qed
  then show ?thesis using q by blast
qed

interpretation elections: quorum_votes "set ids" "cast_vote sm ids cl" "won_term sm ids cl" for sm ids cl
proof (standard, goal_cases)
  case 1
  show ?case by (rule finite_set)
next
  case 2
  then show ?case by (rule cast_vote_once)
next
  case 3
  then show ?case by (rule won_term_majority)
qed

section \<open>Election safety\<close>

text \<open>C1: In every reachable cluster, whatever messages are lost, repeated or reordered, whatever nodes
  crash and restart from their log files and whatever writes are in flight or fail, two nodes that were
  ever leader in the same term are the same node.\<close>
theorem election_safety:
  assumes "reachable sm ids cl" and "distinct ids"
    and "(t, a) \<in> elected cl" and "(t, b) \<in> elected cl"
  shows "a = b"
proof -
  have "won_term sm ids cl t a" "won_term sm ids cl t b" using assms by (simp_all add: won_term_def)
  then show ?thesis by (rule elections.one_winner)
qed

text \<open>A cluster of one voter that counts its commands, after its first election timeout.\<close>

definition counter_sm :: "(nat, nat) StateMachine" where
  "counter_sm = \<lparr>sm_default = 0, sm_apply = (\<lambda>c n. n + c), sm_noop = 0, DRIVER_APPLIED = True,
     sm_to_vec = (\<lambda>_. []), sm_from_slice = (\<lambda>_. Some 0)\<rparr>"

definition solo_start :: "(nat, nat) Cluster" where
  "solo_start = cluster_init counter_sm [''a''] (\<lambda>_. (0, 0))"

definition solo_cluster :: "(nat, nat) Cluster" where
  "solo_cluster = cluster_update ''a'' (node_event counter_sm (Tick 1000000000 0) (nodes solo_start ''a'')) solo_start"

lemma solo_boot:
  "n_core (nodes solo_start ''a'') = reset_election_timer 0 0 (core_init counter_sm [CHR ''a''] [''a''] 0)\<lparr>cluster_check := Idle\<rparr>"
  "n_halted (nodes solo_start ''a'') = False"
  by (simp_all add: solo_start_def cluster_init_def node_boot_def Let_def replay_def persisted_default_def
      check_log_contiguous_def persisted_is_empty_def begin_cluster_check_def core_new_def reset_election_timer_def core_init_def)

lemma solo_tick:
  "role (snd (tick counter_sm 1000000000 0 (n_core (nodes solo_start ''a'')))) = Leader"
  "current_term (snd (tick counter_sm 1000000000 0 (n_core (nodes solo_start ''a'')))) = 1"
  by (simp_all add: solo_boot reset_election_timer_def Let_def core_init_def counter_sm_def stretched_base_def sat_add_def
      u64_max_def tick_def tick_gated_def resend_probes_def start_pre_vote_def is_voter_def start_election_def majority_def
      become_leader_def with_stats_def cannot_vote_yet_def blocks_voting_def)

lemma node_step_core: "n_core (snd (node_step r n)) = snd r"
  by (simp add: node_step_def node_send_def Let_def split: prod.split)

lemma solo_elected: "elected solo_cluster = {(1, ''a'')}"
proof -
  let ?r = "node_event counter_sm (Tick 1000000000 0) (nodes solo_start ''a'')"
  have "role (n_core (snd ?r)) = Leader" "current_term (n_core (snd ?r)) = 1"
    using solo_tick by (simp_all add: node_tick_def node_step_core)
  moreover have "elected solo_start = {}" by (simp add: solo_start_def cluster_init_def)
  moreover obtain sent n where "?r = (sent, n)" by fastforce
  ultimately show ?thesis by (simp add: solo_cluster_def del: node_event.simps)
qed

lemma solo_reachable: "reachable counter_sm [''a''] solo_cluster"
proof -
  have "cluster_step counter_sm [''a''] solo_start solo_cluster"
    unfolding solo_cluster_def by (rule cluster_step.event) (simp_all add: solo_boot)
  moreover have "reachable counter_sm [''a''] solo_start" unfolding solo_start_def by (rule reachable.init)
  ultimately show ?thesis by (rule reachable.step [rotated])
qed

theorem election_safety_witness:
  "reachable counter_sm [''a''] solo_cluster \<and> distinct [''a''] \<and> {n. (1, n) \<in> elected solo_cluster} = {''a''}"
proof -
  have e: "(1, ''a'') \<in> elected solo_cluster" by (simp add: solo_elected)
  then have "n = ''a''" if "(1, n) \<in> elected solo_cluster" for n
    using election_safety [OF solo_reachable _ that e] by simp
  then have "{n. (1, n) \<in> elected solo_cluster} = {''a''}" using e by blast
  then show ?thesis using solo_reachable by simp
qed

end
