(* ===== verification/Raft_Node_Log.thy ===== *)
theory Raft_Node_Log
  imports Raft_Chain Raft_Cluster
begin

text \<open>
  The log of a node, in memory and on disk. Whatever a crash leaves of the log file replays to a chained
  log (\<open>wal_good\<close>), and unless an installed snapshot still waits for its rewrite of the file, the file with
  the records still to be written replays to the log in memory. Every step of the driver preserves this
  (\<open>log_move\<close>), so a node recovers from any crash, and what it sends is a slice of its log.
\<close>

section \<open>The log of a file\<close>

definition wal_good :: "(nat \<times> 'c LogEntry) set \<Rightarrow> ('c, 's) WalRecord list \<Rightarrow> bool" where
  "wal_good H rs \<longleftrightarrow> (\<forall>k. good H (replay (take k rs)))"

lemma good_mono: "good H p \<Longrightarrow> H \<subseteq> H' \<Longrightarrow> good H' p"
  by (auto simp: good_def intro: chained_mono)

lemma wal_good_mono: "wal_good H rs \<Longrightarrow> H \<subseteq> H' \<Longrightarrow> wal_good H' rs"
  unfolding wal_good_def using good_mono by blast

lemma wal_goodD: "wal_good H rs \<Longrightarrow> good H (replay rs)"
  using wal_good_def [of H rs] spec [of "\<lambda>k. good H (replay (take k rs))" "length rs"] by simp

lemma wal_good_take: "wal_good H rs \<Longrightarrow> wal_good H (take k rs)"
  by (simp add: wal_good_def)

lemma wal_good_append:
  assumes "wal_good H rs" and "\<And>k. good H (fold replay_record (take k new) (replay rs))"
  shows "wal_good H (rs @ new)"
  unfolding wal_good_def
proof
  fix k
  show "good H (replay (take k (rs @ new)))"
    using assms(2) [of "k - length rs"] wal_good_def [of H rs] assms(1)
    by (cases "k \<le> length rs") (simp_all add: replay_def)
qed

lemma wal_good_prefix: "wal_good H (rs @ new) \<Longrightarrow> wal_good H rs"
  using wal_good_take [of H "rs @ new" "length rs"] by simp

lemma wal_good_Nil [simp]: "wal_good H []"
  by (simp add: wal_good_def replay_def persisted_default_def good_def)

lemma log_match_hard [simp]: "log_match s (replay (rs @ [Hard t v])) = log_match s (replay rs)"
  by (simp add: log_match_def replay_def base_of_def)

lemma wal_good_hard:
  assumes "wal_good H rs"
  shows "wal_good H (rs @ [Hard t v])"
proof (rule wal_good_append [OF assms])
  fix k
  have "good H (replay_record (Hard t v) (replay rs)) = good H (replay rs)" by (simp add: good_def base_of_def)
  then show "good H (fold replay_record (take k [Hard t v]) (replay rs))" using wal_goodD [OF assms] by (simp add: take_single)
qed

lemma fold_appends: "fold replay_record (map Append es) p = p\<lparr>p_log := p_log p @ es\<rparr>"
  by (induction es arbitrary: p) simp_all

lemma take_map_append: "take k (map f xs) = map f (take k xs)"
  by (simp add: take_map)

text \<open>The image of a core is a good file for it.\<close>

lemma wal_good_image:
  fixes s :: "('c, 's) RaftCore"
  assumes "chained_core H s"
  shows "wal_good H (wal_image s)" and "log_match s (replay (wal_image s))"
proof -
  define b :: "('c, 's) WalRecord list" where "b = (if 0 < snapshot_index s
      then [Snapshot (metadata s) (snapshot_index s) (snapshot_term s) (snapshot_config s) (snapshot_learners s)] else [])"
  have i: "wal_image s = (b @ [Hard (current_term s) (voted_for s)]) @ map Append (rlog s)" by (simp add: wal_image_def b_def)
  have rb: "p_log (replay b) = []" "nbase (base_of (replay b)) = log_base s"
    by (auto simp: b_def replay_def persisted_default_def base_of_def log_base_def nbase_def)
  have gb: "wal_good H b"
    unfolding b_def by (auto simp: wal_good_def take_single replay_def persisted_default_def good_def)
  let ?p = "replay (b @ [Hard (current_term s) (voted_for s)])"
  have p: "p_log ?p = []" "nbase (base_of ?p) = log_base s" using rb by (simp_all add: replay_def base_of_def)
  have "good H (fold replay_record (take k (map Append (rlog s))) ?p)" for k
    using p assms chained_take [of H "log_base s" "rlog s" k]
    by (simp add: take_map fold_appends good_def base_of_def chained_core_def)
  then show "wal_good H (wal_image s)" unfolding i by (intro wal_good_append wal_good_hard gb)
  have "replay (wal_image s) = ?p\<lparr>p_log := rlog s\<rparr>" unfolding i using p(1) fold_appends [of "rlog s" ?p] by (simp add: replay_def)
  then show "log_match s (replay (wal_image s))" using p(2) by (simp add: log_match_def base_of_def)
qed

section \<open>The invariant of a node\<close>

definition target :: "('c, 's) Node \<Rightarrow> ('c, 's) WalRecord list option" where
  "target n =
     (case n_io n of
        None \<Rightarrow> if suspect (n_progress n) then None else Some (n_wal n)
      | Some (Appending _ _) \<Rightarrow> Some (n_wal n @ n_tail n)
      | Some (Compacting img _ _) \<Rightarrow> Some img
      | Some (Rewriting img _) \<Rightarrow> Some img)"

definition synced :: "(nat \<times> 'c LogEntry) set \<Rightarrow> ('c, 's) RaftCore \<Rightarrow> ('c, 's) WalRecord list \<Rightarrow> bool" where
  "synced H s rs \<longleftrightarrow>
     wal_good H rs \<and> (\<not> install_rewrite_owed s \<longrightarrow> wal_good H (rs @ pending s) \<and> log_match s (replay (rs @ pending s)))"

definition node_log :: "(nat \<times> 'c LogEntry) set \<Rightarrow> ('c, 's) Node \<Rightarrow> bool" where
  "node_log H n \<longleftrightarrow>
     \<not> n_halted n \<and> chained_core H (n_core n) \<and> (install_rewrite_owed (n_core n) \<longrightarrow> snapshot_dirty (n_core n)) \<and>
     wal_good H (n_wal n @ n_tail n) \<and> (\<forall>rs. target n = Some rs \<longrightarrow> synced H (n_core n) rs) \<and>
     (\<forall>b \<in> set (n_gated n). \<forall>out \<in> set (snd b). \<not> ships_before_durable (snd out))"

lemma chained_core_mono: "chained_core H s \<Longrightarrow> H \<subseteq> H' \<Longrightarrow> chained_core H' s"
  by (auto simp: chained_core_def intro: chained_mono)

lemma synced_mono:
  assumes "synced H s rs" and "H \<subseteq> H'"
  shows "synced H' s rs"
  using assms(1) wal_good_mono [OF _ assms(2)] by (auto simp: synced_def)

lemma node_log_mono:
  assumes "node_log H n" and "H \<subseteq> H'"
  shows "node_log H' n"
  using assms(1) chained_core_mono [OF _ assms(2)] wal_good_mono [OF _ assms(2)] synced_mono [OF _ assms(2)]
  unfolding node_log_def by blast

lemma msg_chained_mono: "msg_chained H m \<Longrightarrow> H \<subseteq> H' \<Longrightarrow> msg_chained H' m"
  by (cases m) (auto intro: chained_mono)

lemma msg_chained_held: "\<not> ships_before_durable m \<Longrightarrow> msg_chained H m"
  by (cases m) simp_all

lemma synced_step:
  assumes "synced H s rs" and "log_ok H s s'"
  shows "synced H s' rs"
proof -
  obtain new where n: "pending s' = pending s @ new"
      "\<not> install_rewrite_owed s' \<Longrightarrow> log_match s p \<Longrightarrow>
         log_match s' (fold replay_record new p) \<and> (\<forall>k. good H (fold replay_record (take k new) p))" for p
    using assms(2) unfolding log_ok_def by blast
  have "wal_good H (rs @ pending s') \<and> log_match s' (replay (rs @ pending s'))" if "\<not> install_rewrite_owed s'"
  proof -
    have "\<not> install_rewrite_owed s" using that assms(2) by (auto simp: log_ok_def)
    then have o: "wal_good H (rs @ pending s)" "log_match s (replay (rs @ pending s))" using assms(1) by (simp_all add: synced_def)
    note m = n(2) [OF that o(2)]
    have "wal_good H ((rs @ pending s) @ new)" using m by (intro wal_good_append [OF o(1)]) blast
    then show ?thesis using m n(1) by (simp add: replay_def)
  qed
  then show ?thesis using assms(1) by (simp add: synced_def)
qed

lemma node_log_core:
  assumes "node_log H n" and "log_ok H (n_core n) s"
  shows "node_log H (n\<lparr>n_core := s\<rparr>)"
proof -
  have "target (n\<lparr>n_core := s\<rparr>) = target n" by (simp add: target_def cong: option.case_cong Io.case_cong)
  moreover have "chained_core H s" using log_okD [OF assms(2)] .
  moreover have "install_rewrite_owed s \<longrightarrow> snapshot_dirty s" using assms by (auto simp: node_log_def log_ok_def)
  ultimately show ?thesis using assms(1) synced_step [OF _ assms(2)] by (simp add: node_log_def)
qed

section \<open>The steps of the driver\<close>

lemma snapshot_upto_cases:
  obtains (keep) "snapshot_upto sm i s = s"
    | (cut) k where "snapshot_index s < k" "snapshot_index (snapshot_upto sm i s) = k" "snapshot_term (snapshot_upto sm i s) = term_at s k"
        "rlog (snapshot_upto sm i s) = filter (\<lambda>e. k < e_index e) (rlog s)" "snapshot_dirty (snapshot_upto sm i s)"
proof (cases "min i (last_applied s) \<le> snapshot_index s")
  case True
  then show thesis by (intro keep) (simp add: snapshot_upto_def Let_def)
next
  case False
  then show thesis by (intro cut [of "min i (last_applied s)"]) (simp_all add: snapshot_upto_def Let_def term_at_def min_le_iff_disj)
qed

lemma chained_snapshot_upto:
  assumes "chained_core H s"
  shows "chained_core H (snapshot_upto sm i s) \<and> last_log_index s \<le> last_log_index (snapshot_upto sm i s)"
proof (cases rule: snapshot_upto_cases [of sm i s, case_names keep cut])
  case keep
  then show ?thesis using assms by simp
next
  case (cut k)
  let ?d = "k - snapshot_index s"
  have f: "rlog (snapshot_upto sm i s) = drop ?d (rlog s)"
    using cut(1,4) chained_filter [of H "log_base s" "rlog s" k] assms by (simp add: chained_core_def)
  show ?thesis
  proof (cases "k \<le> last_log_index s")
    case True
    have t: "tip (log_base s) (take ?d (rlog s)) = (k, term_at s k)"
      using cut(1) True by (intro term_at_chained [OF assms]) simp_all
    have b: "log_base (snapshot_upto sm i s) = (k, term_at s k)" using cut(1-3) by (simp add: log_base_def nbase_def)
    have "chained_core H (snapshot_upto sm i s)"
      using chained_drop [of H "log_base s" "rlog s" ?d] assms t b f by (simp add: chained_core_def)
    moreover from this have "last_log_index (snapshot_upto sm i s) = k + length (drop ?d (rlog s))"
      using last_log_index_chained cut(2) f by metis
    ultimately show ?thesis using last_log_index_chained [OF assms] cut(1) True by simp
  next
    case False
    then have "rlog (snapshot_upto sm i s) = []" using f last_log_index_chained [OF assms] by simp
    then show ?thesis using False cut(2) by (simp add: chained_core_def last_log_index_def)
  qed
qed

lemma compacted_log:
  assumes "chained_core H s" and "install_rewrite_owed s \<longrightarrow> snapshot_dirty s"
  shows "chained_core H (compacted sm ea blob s)" "last_log_index s \<le> last_log_index (compacted sm ea blob s)"
    "\<not> install_rewrite_owed (compacted sm ea blob s)" "\<not> snapshot_dirty (compacted sm ea blob s)"
    "role (compacted sm ea blob s) = role s" "current_term (compacted sm ea blob s) = current_term s"
proof -
  let ?c = "compacted sm ea blob s" and ?u = "snapshot_upto sm ea s"
  have v: "rlog ?c = rlog ?u" "log_base ?c = log_base ?u" "snapshot_index ?c = snapshot_index ?u"
    by (simp_all add: compacted_def take_snapshot_dirty_def set_snapshot_blob_def log_base_def split: option.split)
  then have "chained_core H ?c = chained_core H ?u" "last_log_index ?c = last_log_index ?u"
    by (simp_all add: chained_core_def last_log_index_def)
  then show "chained_core H ?c" "last_log_index s \<le> last_log_index ?c"
    using chained_snapshot_upto [OF assms(1), of sm ea] by simp_all
  show "\<not> install_rewrite_owed ?c" "\<not> snapshot_dirty ?c" by (simp_all add: compacted_def take_snapshot_dirty_def)
  show "role ?c = role s" "current_term ?c = current_term s"
    by (simp_all add: compacted_def take_snapshot_dirty_def set_snapshot_blob_def snapshot_upto_def Let_def split: option.split)
qed

text \<open>A compaction that finds nothing to write has changed nothing.\<close>

lemma compacted_clean:
  assumes "\<not> snapshot_dirty (case blob of None \<Rightarrow> snapshot_upto sm ea s | Some b \<Rightarrow> set_snapshot_blob b (snapshot_upto sm ea s))"
    and "install_rewrite_owed s \<longrightarrow> snapshot_dirty s"
  shows "wal_view (compacted sm ea blob s) = wal_view s"
proof -
  have "\<not> snapshot_dirty (snapshot_upto sm ea s)" using assms(1) by (simp add: set_snapshot_blob_def split: option.splits)
  then have "snapshot_upto sm ea s = s" by (cases rule: snapshot_upto_cases [of sm ea s]) simp_all
  then show ?thesis
    using assms by (auto simp: compacted_def take_snapshot_dirty_def set_snapshot_blob_def wal_view_def split: option.splits)
qed

lemma drained_log:
  assumes "drain_persist s = (rs, s')"
  shows "rlog s' = rlog s" "log_base s' = log_base s" "install_rewrite_owed s' = install_rewrite_owed s"
    "snapshot_dirty s' = snapshot_dirty s" "pending s' = []" "role s' = role s" "current_term s' = current_term s"
    "last_log_index s' = last_log_index s" "chained_core H s' = chained_core H s"
    and "rs = pending s \<or> (\<exists>t v. rs = pending s @ [Hard t v])"
  using assms
  by (auto simp: drain_persist_def checkpoint_hard_def Let_def log_base_def last_log_index_def chained_core_def split: if_splits)

lemma drained_synced:
  assumes "drain_persist s = (rs, s')" and "synced H s w" and "\<not> install_rewrite_owed s"
  shows "synced H s' (w @ rs)"
proof -
  have w: "wal_good H (w @ pending s)" "log_match s (replay (w @ pending s))" using assms(2,3) by (simp_all add: synced_def)
  have "wal_good H (w @ rs)" "log_match s (replay (w @ rs))"
    using drained_log(10) [OF assms(1)] w wal_good_hard [OF w(1)] log_match_hard [of s "w @ pending s"] by auto
  then show ?thesis using drained_log(1,2,5) [OF assms(1)] by (simp add: synced_def log_match_def)
qed

lemma image_synced:
  assumes "chained_core H s" and "rlog s' = rlog s" and "log_base s' = log_base s" and "pending s' = []"
  shows "synced H s' (wal_image s)"
  using wal_good_image [OF assms(1)] assms(2-) by (simp add: synced_def log_match_def)

definition quiet_move :: "(nat \<times> 'c LogEntry) set \<Rightarrow> ('c, 's) Node \<Rightarrow> ('c, 's) Node \<Rightarrow> bool" where
  "quiet_move H n n' \<longleftrightarrow>
     node_log H n' \<and> role (n_core n') = role (n_core n) \<and> current_term (n_core n') = current_term (n_core n) \<and>
     last_log_index (n_core n) \<le> last_log_index (n_core n')"

lemma quiet_move_core:
  assumes "node_log H n" and "wal_view s = wal_view (n_core n)" and "role s = role (n_core n)" and "current_term s = current_term (n_core n)"
  shows "quiet_move H n (n\<lparr>n_core := s\<rparr>)"
proof -
  have "log_ok H (n_core n) s" using assms(1,2) by (intro log_ok_view) (simp_all add: node_log_def)
  then show ?thesis
    using node_log_core [OF assms(1)] assms(3,4) last_log_index_wal [OF assms(2)] by (simp add: quiet_move_def)
qed

lemma quiet_move_refl: "node_log H n \<Longrightarrow> quiet_move H n n"
  by (simp add: quiet_move_def)

lemma quiet_move_spawn:
  assumes "node_log H n"
  shows "quiet_move H n (persist_spawn n)"
proof -
  have "node_log H (n\<lparr>n_task := b\<rparr>) = node_log H n" for b
    by (simp add: node_log_def target_def cong: option.case_cong Io.case_cong)
  then show ?thesis using assms by (simp add: quiet_move_def persist_spawn_def)
qed

lemma quiet_move_persist_begin:
  assumes "node_log H n" and "disk_ok n"
  shows "quiet_move H n (persist_begin n)"
proof -
  have task: "quiet_move H n (n\<lparr>n_task := False\<rparr>)"
    using assms(1) by (simp add: quiet_move_def node_log_def target_def cong: option.case_cong Io.case_cong)
  show ?thesis
  proof (cases "\<not> n_task n \<or> n_io n \<noteq> None \<or> suspect (n_progress n) \<or> install_rewrite_owed (n_core n)")
    case True
    then show ?thesis using assms(1) task quiet_move_refl by (auto simp: persist_begin_def)
  next
    case False
    let ?s = "n_core n" and ?p = "n_progress n"
    obtain rs r s' p' where d: "drain_for_round ?s ?p = (rs, r, s', p')" by (metis prod_cases4)
    note dp = drain_for_round_cases [OF d]
    note l = drained_log [OF dp(1)]
    have idle: "n_tail n = []" "target n = Some (n_wal n)" using False assms(2) by (auto simp: disk_ok_def target_def Let_def)
    have sy: "synced H ?s (n_wal n)" "chained_core H ?s" using assms(1) idle(2) by (simp_all add: node_log_def)
    have sy': "synced H s' (n_wal n @ rs)" using drained_synced [OF dp(1) sy(1)] False by blast
    then have g: "wal_good H (n_wal n @ rs)" by (simp add: synced_def)
    from dp(2) consider "rs = []" "r = None" "p' = ?p" | k where "r = Some k" "suspect p' = suspect ?p" by auto
    then show ?thesis
    proof cases
      case 1
      have "node_log H (n\<lparr>n_core := s', n_progress := ?p, n_task := False\<rparr>)"
        using assms(1) sy' l(3,4,9) sy(2) False idle 1 by (auto simp: node_log_def target_def)
      then show ?thesis using False d 1 l(6,7,8) by (simp add: persist_begin_def quiet_move_def)
    next
      case 2
      have "node_log H (n\<lparr>n_core := s', n_progress := p', n_tail := rs, n_io := Some (Appending (last_log_index s') k)\<rparr>)"
        using assms(1) sy' g l(3,4,9) sy(2) by (auto simp: node_log_def target_def)
      then show ?thesis using False d 2 l(6,7,8) by (simp add: persist_begin_def quiet_move_def)
    qed
  qed
qed

lemma quiet_move_compact_begin:
  fixes n :: "('c, 's) Node"
  assumes "node_log H n" and "disk_ok n"
  shows "quiet_move H n (compact_begin sm ea blob n)"
proof -
  let ?s = "n_core n" and ?p = "n_progress n"
  have c: "chained_core H ?s" "install_rewrite_owed ?s \<longrightarrow> snapshot_dirty ?s" using assms(1) by (simp_all add: node_log_def)
  note x = compacted_log [OF c, of sm ea blob]
  show ?thesis
  proof (cases rule: compact_begin_cases [of sm ea blob n, case_names idle clean rewrite])
    case idle
    then show ?thesis using assms(1) quiet_move_refl by simp
  next
    case clean
    then show ?thesis using quiet_move_core [OF assms(1) compacted_clean [OF clean(4) c(2)]] x(5,6) by simp
  next
    case (rewrite rs r s' p')
    note l = drained_log [OF drain_for_round_cases(1) [OF rewrite(3)]]
    have "synced H s' (wal_image (compacted sm ea blob ?s))" by (rule image_synced [OF x(1) l(1,2,5)])
    then have "node_log H (n\<lparr>n_core := s', n_progress := p', n_io := Some (Compacting (wal_image (compacted sm ea blob ?s))
        (last_log_index (compacted sm ea blob ?s)) r)\<rparr>)"
      using assms(1) l(3,9) x(1,3) by (simp add: node_log_def target_def)
    then show ?thesis using rewrite(4) l(6,7,8) x(2,5,6) by (simp add: quiet_move_def)
  qed
qed

lemma quiet_move_rewrite_begin:
  assumes "node_log H n"
  shows "quiet_move H n (rewrite_begin n)"
proof (cases "\<not> n_task n \<or> n_io n \<noteq> None \<or> \<not> suspect (n_progress n)")
  case True
  then show ?thesis using assms quiet_move_refl by (auto simp: rewrite_begin_def)
next
  case False
  let ?s = "n_core n"
  obtain rs r s' p' where d: "drain_for_round ?s (n_progress n) = (rs, r, s', p')" by (metis prod_cases4)
  note l = drained_log [OF drain_for_round_cases(1) [OF d]]
  have c: "chained_core H s'" using assms l(9) by (simp add: node_log_def)
  have "synced H s' (wal_image s')" by (rule image_synced [OF c refl refl l(5)])
  then have "node_log H (n\<lparr>n_core := s', n_progress := p', n_io := Some (Rewriting (wal_image s') (last_log_index s'))\<rparr>)"
    using assms l(3,4) c by (simp add: node_log_def target_def)
  then show ?thesis using False d l(6,7,8) by (simp add: rewrite_begin_def quiet_move_def)
qed

lemma quiet_move_io_done:
  assumes "node_log H n" and "disk_ok n"
  shows "quiet_move H n (io_done sm n)"
proof (cases "n_io n")
  case None
  then show ?thesis using assms(1) quiet_move_refl by (simp add: io_done_def)
next
  case (Some io)
  have through: "quiet_move H n (n\<lparr>n_core := mark_durable_through sm k (n_core n)\<rparr>)" for k
    using assms(1)
    by (intro quiet_move_core)
      (simp_all add: wal_view_core [OF core_view_mark_durable_through] core_viewD [OF core_view_mark_durable_through])
  show ?thesis
  proof (cases io)
    case (Appending k r)
    have "\<not> suspect (n_progress n)" using Some Appending assms(2) by (simp add: disk_ok_def Let_def)
    then show ?thesis
      using through [of k] Some Appending
      by (simp add: io_done_def quiet_move_def node_log_def target_def complete_drain_def)
  next
    case (Compacting img k r)
    have "\<not> suspect (n_progress n)" using Some Compacting assms(2) by (simp add: disk_ok_def Let_def)
    then show ?thesis
      using through [of k] Some Compacting
      by (auto simp: io_done_def quiet_move_def node_log_def target_def complete_drain_def synced_def split: option.splits)
  next
    case (Rewriting img k)
    then show ?thesis
      using through [of k] Some
      by (auto simp: io_done_def quiet_move_def node_log_def target_def complete_drain_def complete_all_drained_def synced_def)
  qed
qed

lemma quiet_move_io_full:
  assumes "node_log H n" and "disk_ok n"
  shows "quiet_move H n (io_full landed n)"
proof (cases "n_io n")
  case None
  then show ?thesis using assms(1) quiet_move_refl by (simp add: io_full_def)
next
  case (Some io)
  have "suspect (n_progress n)" if "io = Rewriting img k" for img k
    using that Some assms(2) by (simp add: disk_ok_def Let_def)
  then show ?thesis
    using assms(1) Some
    by (cases io) (auto simp: io_full_def quiet_move_def node_log_def target_def mark_suspect_def synced_def)
qed

section \<open>Messages and restarts\<close>

text \<open>What a step of a node does to its log and to the history, with the messages it sends.\<close>

definition log_move ::
  "(nat \<times> 'c LogEntry) set \<Rightarrow> ('c, 's) Node \<Rightarrow> 'c Out list \<times> ('c, 's) Node \<Rightarrow> bool" where
  "log_move H n r \<longleftrightarrow>
     (let s = n_core n; s' = n_core (snd r) in
      role_ok s s' \<and>
      (node_log H (snd r) \<and> (\<forall>out \<in> set (fst r). msg_chained H (snd out)) \<and> (role s' = Leader \<longrightarrow> last_log_index s \<le> last_log_index s') \<or>
       (\<exists>p e. node_log (insert (p, e) H) (snd r) \<and> (\<forall>out \<in> set (fst r). msg_chained (insert (p, e) H) (snd out)) \<and>
          role s' = Leader \<and> e_term e = current_term s' \<and> e_index e = last_log_index s + 1 \<and> last_log_index s' = e_index e)))"

lemma quiet_log_move: "quiet_move H n n' \<Longrightarrow> log_move H n ([], n')"
  by (simp add: quiet_move_def log_move_def role_ok_def)

lemma rep_ok_chained:
  assumes "chained_core H s" and "rep_ok s m"
  shows "msg_chained H m"
proof (cases m)
  case (AppendEntries t l pli plt es lc)
  have m: "snapshot_index s \<le> pli" "plt = term_at s pli" "\<exists>k. es = take k (filter (\<lambda>e. pli < e_index e) (rlog s))"
    using assms(2) AppendEntries by auto
  then obtain k where es: "es = take k (drop (pli - snapshot_index s) (rlog s))"
    using chained_filter [of H "log_base s" "rlog s" pli] assms(1) by (auto simp: chained_core_def)
  show ?thesis
  proof (cases "pli \<le> last_log_index s")
    case True
    have n: "nbase (pli, plt) = (pli, term_at s pli)" using m(2) by (simp add: nbase_def term_at_def)
    have "chained H (tip (log_base s) (take (pli - snapshot_index s) (rlog s))) (drop (pli - snapshot_index s) (rlog s))"
      using assms(1) unfolding chained_core_def by (rule chained_drop)
    then show ?thesis
      using AppendEntries es n term_at_chained [OF assms(1) m(1) True] by (simp add: chained_take)
  next
    case False
    then have "es = []" using es last_log_index_chained [OF assms(1)] by simp
    then show ?thesis using AppendEntries by simp
  qed
qed simp_all

lemma node_send_gated:
  assumes "\<forall>b \<in> set (n_gated n). \<forall>out \<in> set (snd b). \<not> ships_before_durable (snd out)" and "node_send outs g n = (sent, n')"
  shows "\<forall>b \<in> set (n_gated n'). \<forall>out \<in> set (snd b). \<not> ships_before_durable (snd out)"
    and "\<forall>out \<in> set sent. out \<in> set outs \<or> \<not> ships_before_durable (snd out)"
    and "n' = n\<lparr>n_gated := n_gated n'\<rparr>"
proof -
  define held where "held = (case g of None \<Rightarrow> [] | Some _ \<Rightarrow> filter (\<lambda>out. \<not> ships_before_durable (snd out)) outs)"
  define w where "w = (case g of None \<Rightarrow> n_gated n | Some round \<Rightarrow> gated_push round held (n_gated n))"
  have w: "\<forall>b \<in> set w. \<forall>out \<in> set (snd b). \<not> ships_before_durable (snd out)"
    using assms(1) by (auto simp: w_def held_def gated_push_def split: option.splits if_splits)
  have rel: "(\<forall>out \<in> set (fst (release k v)). \<not> ships_before_durable (snd out)) \<and>
      (\<forall>b \<in> set (snd (release k v)). \<forall>out \<in> set (snd b). \<not> ships_before_durable (snd out))"
    if "\<forall>b \<in> set v. \<forall>out \<in> set (snd b). \<not> ships_before_durable (snd out)" for k and v :: "'a GatedOuts"
    using that by (auto simp: release_def dest: set_takeWhileD set_dropWhileD)
  obtain released w1 where r: "release (durable (n_progress n)) w = (released, w1)" by fastforce
  define settled where "settled = (w1 \<noteq> [] \<and> fully_durable (has_unflushed_wal (n_core n)) (n_progress n) \<and> \<not> n_task n)"
  obtain rest w2 where r2: "(if settled then release u64_max w1 else ([], w1)) = (rest, w2)" by fastforce
  have n: "sent = (case g of None \<Rightarrow> outs | Some _ \<Rightarrow> filter (\<lambda>out. ships_before_durable (snd out)) outs) @ released @ rest"
      "n' = n\<lparr>n_gated := w2\<rparr>"
    using assms(2) r r2 unfolding node_send_def Let_def held_def [symmetric] w_def [symmetric] by (auto simp: settled_def)
  have w1: "\<forall>out \<in> set released. \<not> ships_before_durable (snd out)" "\<forall>b \<in> set w1. \<forall>out \<in> set (snd b). \<not> ships_before_durable (snd out)"
    using rel [OF w, of "durable (n_progress n)"] r by simp_all
  have w2: "\<forall>out \<in> set rest. \<not> ships_before_durable (snd out)" "\<forall>b \<in> set w2. \<forall>out \<in> set (snd b). \<not> ships_before_durable (snd out)"
    using rel [OF w1(2), of u64_max] r2 w1(2) by (auto split: if_splits)
  show "\<forall>b \<in> set (n_gated n'). \<forall>out \<in> set (snd b). \<not> ships_before_durable (snd out)" "n' = n\<lparr>n_gated := n_gated n'\<rparr>"
    using w2(2) by (simp_all add: n(2))
  show "\<forall>out \<in> set sent. out \<in> set outs \<or> \<not> ships_before_durable (snd out)"
    using w1(1) w2(1) by (auto simp: n(1) split: option.splits)
qed

lemma node_log_gated:
  assumes "node_log H n" and "\<forall>b \<in> set w. \<forall>out \<in> set (snd b). \<not> ships_before_durable (snd out)"
  shows "node_log H (n\<lparr>n_gated := w\<rparr>)"
  using assms by (simp add: node_log_def target_def cong: option.case_cong Io.case_cong)

lemma node_send_log:
  assumes "node_log H n" and "\<forall>out \<in> set outs. msg_chained H (snd out)" and "node_send outs g n = (sent, n')"
  shows "node_log H n'" "\<forall>out \<in> set sent. msg_chained H (snd out)" "n_core n' = n_core n"
proof -
  have g: "\<forall>b \<in> set (n_gated n). \<forall>out \<in> set (snd b). \<not> ships_before_durable (snd out)" using assms(1) by (simp add: node_log_def)
  note s = node_send_gated [OF g assms(3)]
  show "node_log H n'" using node_log_gated [OF assms(1) s(1)] s(3) by simp
  show "\<forall>out \<in> set sent. msg_chained H (snd out)" using s(2) assms(2) msg_chained_held by blast
  show "n_core n' = n_core n" by (subst s(3)) simp
qed

lemma own_append_log:
  assumes "chained_core H s" and "own_append s s'"
  obtains p e where "log_ok (insert (p, e) H) s s'" "e_term e = current_term s'" "e_index e = last_log_index s + 1"
    "last_log_index s' = e_index e" "role s' = Leader"
proof -
  obtain e where e: "e_term e = current_term s'" "e_index e = last_log_index s + 1" "role s' = Leader"
      and w: "wal_view s' = wal_view (s\<lparr>pending := pending s @ [Append e], rlog := rlog s @ [e]\<rparr>)"
    using assms(2) by (auto simp: own_append_def)
  let ?p = "snd (tip (log_base s) (rlog s))"
  have "chained_core (insert (?p, e) H) s" using chained_core_mono [OF assms(1)] by blast
  then have "log_ok (insert (?p, e) H) s (s\<lparr>pending := pending s @ [Append e], rlog := rlog s @ [e]\<rparr>)"
    using e(2) by (intro log_ok_push) simp_all
  moreover have "last_log_index s' = e_index e" using last_log_index_wal [OF w] by (simp add: last_log_index_def)
  ultimately show thesis using that [of ?p e] e log_ok_cong [OF w] by blast
qed

lemma log_move_own:
  assumes "role_ok (n_core n) (n_core n')" and "node_log (insert (p, e) H) n'" and "\<forall>out \<in> set sent. msg_chained (insert (p, e) H) (snd out)"
    and "role (n_core n') = Leader" and "e_term e = current_term (n_core n')" and "e_index e = last_log_index (n_core n) + 1"
    and "last_log_index (n_core n') = e_index e"
  shows "log_move H n (sent, n')"
  unfolding log_move_def Let_def fst_conv snd_conv using assms by blast

lemma log_move_step:
  assumes "node_log H n" and "log_step H (n_core n) r"
  shows "log_move H n (node_step r n)"
proof -
  let ?s = "n_core n"
  obtain outs s' where r: "r = (outs, s')" by fastforce
  obtain sent n' where n': "node_step r n = (sent, n')" by fastforce
  then have ns: "node_send outs (gate (has_unflushed_wal s') (n_progress n)) (n\<lparr>n_core := s'\<rparr>) = (sent, n')"
    by (simp add: node_step_def r)
  have role: "role_ok ?s s'" "\<forall>out \<in> set outs. rep_ok s' (snd out)" using assms(2) by (simp_all add: log_step_def r)
  have c: "chained_core H ?s" using assms(1) by (simp add: node_log_def)
  from assms(2) consider (keep) "log_ok H ?s s'" "role s' = Leader \<longrightarrow> last_log_index ?s \<le> last_log_index s'" | (own) "own_append ?s s'"
    by (auto simp: log_step_def r)
  then show ?thesis
  proof cases
    case keep
    have "\<forall>out \<in> set outs. msg_chained H (snd out)" using role(2) rep_ok_chained [OF log_okD [OF keep(1)]] by blast
    note s = node_send_log [OF node_log_core [OF assms(1) keep(1)] this ns]
    show ?thesis using s keep(2) role(1) by (simp add: n' log_move_def)
  next
    case own
    obtain p e where e: "log_ok (insert (p, e) H) ?s s'" "e_term e = current_term s'" "e_index e = last_log_index ?s + 1"
        "last_log_index s' = e_index e" "role s' = Leader"
      using own_append_log [OF c own] .
    have nl: "node_log (insert (p, e) H) n" using node_log_mono [OF assms(1)] by blast
    have "\<forall>out \<in> set outs. msg_chained (insert (p, e) H) (snd out)" using role(2) rep_ok_chained [OF log_okD [OF e(1)]] by blast
    note s = node_send_log [OF node_log_core [OF nl e(1)] this ns]
    show ?thesis unfolding n' by (rule log_move_own [OF _ s(1,2)]) (use s(3) e role(1) in simp_all)
  qed
qed

lemma log_move_event:
  assumes "node_log H n" and "disk_ok n" and "\<And>from msg now entropy. ev = Recv from msg now entropy \<Longrightarrow> msg_chained H msg"
  shows "log_move H n (node_event sm ev n)"
proof -
  have c: "chained_core H (n_core n)" using assms(1) by (simp add: node_log_def)
  have quiet: "log_move H n (node_send [] None n)"
  proof -
    obtain sent n' where s: "node_send [] None n = (sent, n')" by fastforce
    show ?thesis using node_send_log [OF assms(1) _ s] s by (simp add: log_move_def)
  qed
  have call: "log_move H n ([], n\<lparr>n_core := s\<rparr>)" if "log_step H (n_core n) ([], s)" for s
  proof (cases "own_append (n_core n) s")
    case True
    obtain p e where e: "log_ok (insert (p, e) H) (n_core n) s" "e_term e = current_term s" "e_index e = last_log_index (n_core n) + 1"
        "last_log_index s = e_index e" "role s = Leader"
      using own_append_log [OF c True] .
    have nl: "node_log (insert (p, e) H) n" using node_log_mono [OF assms(1)] by blast
    show ?thesis by (rule log_move_own [OF _ node_log_core [OF nl e(1)]]) (use e(2-) that in \<open>simp_all add: log_step_def\<close>)
  next
    case False
    then show ?thesis using that node_log_core [OF assms(1)] by (simp add: log_step_def log_move_def)
  qed
  have keep: "log_step H (n_core n) ([], s)" if "core_view s = core_view (n_core n)" for s
    by (rule step_ok_log_step [OF c step_ok_quiet [OF that]])
  show ?thesis
  proof (cases ev)
    case (Recv "from" msg now entropy)
    have "log_move H n (node_step (handle sm from msg now entropy (n_core n)) n)"
      using assms(3) [OF Recv] by (intro log_move_step [OF assms(1)] log_step_handle [OF c])
    then show ?thesis using quiet unfolding Recv node_event.simps node_recv_def by (cases msg) simp_all
  next
    case (Tick now entropy)
    show ?thesis unfolding Tick node_event.simps node_tick_def tick_def
      by (intro log_move_step [OF assms(1)] step_ok_log_step [OF c] step_ok_tick_gated)
  next
    case Wake
    then show ?thesis using quiet by (simp add: node_wake_def)
  next
    case (Call x)
    have "log_step H (n_core n) ([], call_core sm x (n_core n))"
      by (cases x) (simp_all add: step_ok_log_step [OF c] step_ok_proposals keep frame frame_assign
          transfer_leadership_def set_timing_def drain_apply_def drain_pending_install_def take_snapshot_needed_def Let_def)
    then show ?thesis unfolding Call node_event.simps by (rule call)
  qed (simp_all add: quiet_log_move quiet_move_spawn [OF assms(1)] quiet_move_persist_begin [OF assms(1,2)]
      quiet_move_compact_begin [OF assms(1,2)] quiet_move_rewrite_begin [OF assms(1)] quiet_move_io_done [OF assms(1,2)]
      quiet_move_io_full [OF assms(1,2)])
qed

text \<open>A crash leaves a file that a restart accepts and that is the log of the restarted node.\<close>

lemma survives_good:
  assumes "node_log H n" and "wal_survives n rs"
  shows "wal_good H rs"
proof -
  have g: "wal_good H (n_wal n @ n_tail n)" using assms(1) by (simp add: node_log_def)
  have "wal_good H (n_wal n @ take k (n_tail n))" for k
    using wal_good_take [OF g, of "length (n_wal n) + k"] by simp
  moreover have "wal_good H img" if "n_io n = Some (Compacting img a b) \<or> n_io n = Some (Rewriting img a)" for img a b
    using assms(1) that by (auto simp: node_log_def target_def synced_def)
  ultimately show ?thesis
    using assms(2) by (auto simp: wal_survives_def simp del: upt_Suc split: option.splits Io.splits)
qed

lemma chained_contiguous: "chained H (base + pos, t) es \<Longrightarrow> contiguous_from base pos es = Inr ()"
proof (induction es arbitrary: pos t)
  case (Cons e es)
  then have "e_index e = base + Suc pos" "chained H (base + Suc pos, e_term e) es" by auto
  then show ?case using Cons(1) by simp
qed simp

lemma good_contiguous:
  assumes "good H p"
  shows "check_log_contiguous p = Inr ()"
proof -
  have "(case p_snapshot p of None \<Rightarrow> 0 | Some (_, i, _) \<Rightarrow> i) = fst (base_of p)"
    by (simp add: base_of_def split: option.split)
  then show ?thesis
    using assms chained_contiguous [of H "fst (base_of p)" 0 "snd (nbase (base_of p))"]
    by (simp add: check_log_contiguous_def good_def nbase_def)
qed

lemma log_base_recovered:
  "rlog (recovered sm i ids p now entropy) = p_log p" "log_base (recovered sm i ids p now entropy) = nbase (base_of p)"
  "pending (recovered sm i ids p now entropy) = []" "install_rewrite_owed (recovered sm i ids p now entropy) = False"
  "current_term (recovered sm i ids p now entropy) = p_term p" "role (recovered sm i ids p now entropy) = Follower"
  "voted_for (recovered sm i ids p now entropy) = p_voted_for p"
proof -
  define s1 where "s1 = (core_new sm i ids now entropy)\<lparr>current_term := p_term p, voted_for := p_voted_for p, rlog := p_log p\<rparr>"
  define s2 where "s2 = (case p_snapshot p of None \<Rightarrow> s1
    | Some (m, li, lt) \<Rightarrow>
        let s = s1\<lparr>metadata := m, snapshot_index := li, snapshot_term := lt, last_applied := li, commit_index := li\<rparr>
        in if \<not> DRIVER_APPLIED sm then s\<lparr>snapshot_blob := Some (wrap CONTROL_SNAPSHOT (sm_to_vec sm m))\<rparr> else s)"
  define s3 where "s3 = recompute_config (s2\<lparr>snapshot_config := p_snapshot_config p, snapshot_learners := p_snapshot_learners p\<rparr>)"
  have r: "recovered sm i ids p now entropy =
      s3\<lparr>durable_index := last_log_index s3, persisted_hard := (current_term s3, voted_for s3), pending := []\<rparr>"
    unfolding s3_def s2_def s1_def recovered_def Let_def by (cases "p_snapshot p") auto
  have s1: "rlog s1 = p_log p" "snapshot_index s1 = 0" "snapshot_term s1 = 0" "install_rewrite_owed s1 = False"
      "current_term s1 = p_term p" "role s1 = Follower" "voted_for s1 = p_voted_for p"
    by (simp_all add: s1_def core_new_def core_init_def reset_election_timer_def Let_def)
  have s2: "rlog s2 = p_log p" "(snapshot_index s2, snapshot_term s2) = base_of p" "install_rewrite_owed s2 = False"
      "current_term s2 = p_term p" "role s2 = Follower" "voted_for s2 = p_voted_for p"
    using s1 by (simp_all add: s2_def base_of_def Let_def split: option.split prod.split)
  have s3: "rlog s3 = p_log p" "(snapshot_index s3, snapshot_term s3) = base_of p" "install_rewrite_owed s3 = False"
      "current_term s3 = p_term p" "role s3 = Follower" "voted_for s3 = p_voted_for p"
    using s2 by (simp_all add: s3_def recompute_config_def apply_config_def Let_def)
  show "rlog (recovered sm i ids p now entropy) = p_log p" "pending (recovered sm i ids p now entropy) = []"
    "install_rewrite_owed (recovered sm i ids p now entropy) = False" "current_term (recovered sm i ids p now entropy) = p_term p"
    "role (recovered sm i ids p now entropy) = Follower" "log_base (recovered sm i ids p now entropy) = nbase (base_of p)"
    "voted_for (recovered sm i ids p now entropy) = p_voted_for p"
    using s3 by (simp_all add: r log_base_def)
qed

lemma boot_log:
  assumes "wal_good H rs" and "node_boot sm i ids rs now entropy = (outs, n')"
  shows "node_log H n'" "role (n_core n') = Follower" "current_term (n_core n') = fst (wal_hard rs)" "\<forall>out \<in> set outs. msg_chained H (snd out)"
    "log_match (n_core n') (replay rs)" "voted_for (n_core n') = snd (wal_hard rs)"
proof -
  let ?p = "replay rs" and ?f = "core_new sm i ids now entropy"
  have g: "good H ?p" using wal_goodD [OF assms(1)] .
  define s where "s = (if persisted_is_empty ?p then snd (begin_cluster_check now entropy ?f) else recovered sm i ids ?p now entropy)"
  have n': "n' = \<lparr>n_core = s, n_wal = rs, n_tail = [], n_io = None, n_task = False,
      n_progress = progress_default, n_gated = [], n_halted = False\<rparr>"
      "outs = (if persisted_is_empty ?p then fst (begin_cluster_check now entropy ?f) else [])"
    using assms(2) good_contiguous [OF g] by (auto simp: node_boot_def Let_def s_def split: prod.splits if_splits)
  note v = core_view_begin_cluster_check [of now entropy ?f]
  have f: "role ?f = Follower" "current_term ?f = 0" "voted_for ?f = None" "pending ?f = []" "rlog ?f = []" "log_base ?f = (0, 0)" "\<not> install_rewrite_owed ?f"
    by (simp_all add: core_new_def core_init_def reset_election_timer_def Let_def log_base_def nbase_def)
  have s: "log_match s ?p \<and> pending s = [] \<and> \<not> install_rewrite_owed s \<and> role s = Follower \<and> current_term s = p_term ?p \<and> voted_for s = p_voted_for ?p"
  proof (cases "persisted_is_empty ?p")
    case True
    have "wal_view (snd (begin_cluster_check now entropy ?f)) = wal_view ?f" using wal_view_core [OF v] .
    then show ?thesis
      using True f core_viewD [OF v]
      by (simp add: s_def persisted_is_empty_def log_match_def base_of_def nbase_def wal_view_def log_base_def)
  next
    case False
    then show ?thesis using log_base_recovered [of sm i ids ?p now entropy] by (simp add: s_def log_match_def)
  qed
  then have "chained_core H s" using g by (simp add: chained_core_def good_def log_match_def)
  then show "node_log H n'"
    using s assms(1) by (simp add: n'(1) node_log_def target_def progress_default_def synced_def)
  show "role (n_core n') = Follower" "current_term (n_core n') = fst (wal_hard rs)" "log_match (n_core n') (replay rs)"
      "voted_for (n_core n') = snd (wal_hard rs)"
    using s by (simp_all add: n'(1) wal_hard_def)
  show "\<forall>out \<in> set outs. msg_chained H (snd out)"
    by (auto simp: n'(2) begin_cluster_check_def Let_def broadcast_cluster_probe_def split: if_splits)
qed

end
