(* ===== verification/Raft_Matching.thy ===== *)
theory Raft_Matching
  imports Raft_Node_Log
begin

text \<open>
  Log matching over the cluster: in every reachable cluster with at least two voters, two logs that hold
  an entry of the same index and term agree on everything up to it, and no node ever refuses its own log
  file. The proof carries one history for the whole cluster; every entry in it was appended by the one
  leader of its term, and a leader never appends at an index twice.
\<close>

section \<open>The history of a cluster\<close>

abbreviation core_of :: "('c, 's) Cluster \<Rightarrow> NodeId \<Rightarrow> ('c, 's) RaftCore" where
  "core_of cl i \<equiv> n_core (nodes cl i)"

definition unique :: "(nat \<times> 'c LogEntry) set \<Rightarrow> bool" where
  "unique H \<longleftrightarrow>
     (\<forall>p e p' e'. (p, e) \<in> H \<longrightarrow> (p', e') \<in> H \<longrightarrow> e_index e = e_index e' \<longrightarrow> e_term e = e_term e' \<longrightarrow> p = p' \<and> e = e')"

definition led :: "('c, 's) Cluster \<Rightarrow> 'c LogEntry \<Rightarrow> bool" where
  "led cl e \<longleftrightarrow>
     (\<exists>i. (e_term e, i) \<in> elected cl \<and>
          (role (core_of cl i) = Leader \<longrightarrow> current_term (core_of cl i) = e_term e \<longrightarrow> e_index e \<le> last_log_index (core_of cl i)))"

definition reigned :: "('c, 's) Cluster \<Rightarrow> bool" where
  "reigned cl \<longleftrightarrow>
     (\<forall>(t, i) \<in> elected cl. t \<le> current_term (core_of cl i) \<and> (t = current_term (core_of cl i) \<longrightarrow> role (core_of cl i) \<noteq> Candidate))"

definition history_ok :: "NodeId set \<Rightarrow> (nat \<times> 'c LogEntry) set \<Rightarrow> ('c, 's) Cluster \<Rightarrow> bool" where
  "history_ok N H cl \<longleftrightarrow>
     (\<forall>i \<in> N. node_log H (nodes cl i)) \<and> (\<forall>i to m. (i, to, m) \<in> net cl \<longrightarrow> msg_chained H m) \<and>
     unique H \<and> (\<forall>p e. (p, e) \<in> H \<longrightarrow> led cl e) \<and> reigned cl"

text \<open>The term of a leader outlives a crash when there are two voters: another voter's grant answers a
  request that left after the term was on disk.\<close>

lemma promised_term: "promised t c h \<Longrightarrow> t \<le> fst h"
  by (auto simp: promised_def)

lemma hard_le_term: "hard_le h h' \<Longrightarrow> fst h \<le> fst h'"
  by (auto simp: hard_le_def)

lemma elected_durable:
  assumes "cluster_inv N cl" and "2 \<le> card N" and "(t, i) \<in> elected cl"
  shows "t \<le> fst (wal_hard (n_wal (nodes cl i)))"
proof -
  have inv: "net_ok N cl" "votes_asked N cl" "elected_ok N cl" using assms(1) by (simp_all add: cluster_inv_def)
  then obtain Q where Q: "Q \<subseteq> N" "card N div 2 + 1 \<le> card Q" "\<forall>v \<in> Q. granted_in cl t i v"
    using assms(3) by (auto simp: elected_ok_def)
  have "\<not> Q \<subseteq> {i}" using Q(2) assms(2) card_mono [of "{i}" Q] by auto
  then obtain w where w: "w \<in> Q" "w \<noteq> i" by blast
  then have g: "(w, i, RequestVoteResp t True) \<in> net cl" using Q(3) by (auto simp: granted_in_def)
  then have "(i, RequestVoteResp t True) \<in> voice cl w" by (simp add: voice_def)
  then have "requested cl t i" using inv(2) w Q(1) unfolding votes_asked_def by blast
  then obtain to lli llt where "(i, to, RequestVote t i lli llt) \<in> net cl" by (auto simp: requested_def)
  from bspec [OF inv(1) [unfolded net_ok_def] this]
  have "promised t i (wal_hard (n_wal (nodes cl i)))" by (simp add: msg_ok_def)
  then show ?thesis by (rule promised_term)
qed

text \<open>A node that leads and was elected in its term before, led before.\<close>

lemma led_before:
  assumes "reigned cl" and "(t, i) \<in> elected cl" and "role_ok (core_of cl i) s'" and "role s' = Leader" and "current_term s' = t"
  shows "role (core_of cl i) = Leader" "current_term (core_of cl i) = t"
  using assms by (fastforce simp: reigned_def role_ok_def)+

lemma reigned_update:
  assumes "reigned cl" and "role_ok (core_of cl i) (n_core n')"
  shows "reigned (cluster_update i (sent, n') cl)"
  unfolding reigned_def
proof (clarify, intro conjI impI)
  fix t j
  assume e: "(t, j) \<in> elected (cluster_update i (sent, n') cl)"
  show "t \<le> current_term (core_of (cluster_update i (sent, n') cl) j)"
    using e assms by (fastforce simp: reigned_def role_ok_def split: if_splits)
  assume t: "t = current_term (core_of (cluster_update i (sent, n') cl) j)"
  show "role (core_of (cluster_update i (sent, n') cl) j) \<noteq> Candidate"
    using e t assms by (fastforce simp: reigned_def role_ok_def split: if_splits)
qed

lemma led_update:
  assumes "led cl e" and "reigned cl" and "role_ok (core_of cl i) (n_core n')"
    and "role (n_core n') = Leader \<Longrightarrow> last_log_index (core_of cl i) \<le> last_log_index (n_core n')"
  shows "led (cluster_update i (sent, n') cl) e"
proof -
  obtain j where j: "(e_term e, j) \<in> elected cl"
      "role (core_of cl j) = Leader \<Longrightarrow> current_term (core_of cl j) = e_term e \<Longrightarrow> e_index e \<le> last_log_index (core_of cl j)"
    using assms(1) by (auto simp: led_def)
  have "e_index e \<le> last_log_index (n_core n')" if "j = i" "role (n_core n') = Leader" "current_term (n_core n') = e_term e"
    using led_before [OF assms(2) _ assms(3) that(2,3)] j that assms(4) order_trans by blast
  then show ?thesis using j unfolding led_def by (intro exI [of _ j]) auto
qed

section \<open>One step of one node\<close>

lemma history_node:
  "history_ok N H cl \<Longrightarrow> i \<in> N \<Longrightarrow> node_log H (nodes cl i)"
  by (simp add: history_ok_def)

lemma history_update:
  assumes "history_ok N H cl" and "H \<subseteq> H'" and "node_log H' n'" and "\<forall>out \<in> set sent. msg_chained H' (snd out)"
    and "unique H'" and "\<And>p e. (p, e) \<in> H' \<Longrightarrow> led (cluster_update i (sent, n') cl) e" and "role_ok (core_of cl i) (n_core n')"
  shows "history_ok N H' (cluster_update i (sent, n') cl)"
proof -
  have "node_log H' (nodes (cluster_update i (sent, n') cl) j)" if "j \<in> N" for j
    using node_log_mono [OF history_node [OF assms(1) that] assms(2)] assms(3) by simp
  moreover have "msg_chained H' m" if "(k, to, m) \<in> net (cluster_update i (sent, n') cl)" for k to m
  proof -
    have "(k, to, m) \<in> net cl \<or> (to, m) \<in> set sent" using that by auto
    moreover have "msg_chained H m" if "(k, to, m) \<in> net cl" using that assms(1) unfolding history_ok_def by blast
    ultimately show ?thesis using assms(4) msg_chained_mono [OF _ assms(2)] by auto
  qed
  moreover have "reigned (cluster_update i (sent, n') cl)"
    using assms(1) reigned_update [OF _ assms(7)] by (simp add: history_ok_def)
  ultimately show ?thesis
    using assms(5,6) unfolding history_ok_def by blast
qed

lemma history_step_event:
  assumes "history_ok N H cl" and "log_move H (nodes cl i) (sent, n')"
    and "\<And>t j. (t, i) \<in> elected (cluster_update i (sent, n') cl) \<Longrightarrow> (t, j) \<in> elected (cluster_update i (sent, n') cl) \<Longrightarrow> j = i"
  shows "\<exists>H'. history_ok N H' (cluster_update i (sent, n') cl)"
proof -
  let ?s = "core_of cl i" and ?s' = "n_core n'" and ?cl = "cluster_update i (sent, n') cl"
  have r: "role_ok ?s ?s'" using assms(2) by (simp add: log_move_def Let_def)
  have h: "reigned cl" "unique H" "\<And>p e. (p, e) \<in> H \<Longrightarrow> led cl e" using assms(1) unfolding history_ok_def by blast+
  from assms(2) consider (keep) "node_log H n'" "\<forall>out \<in> set sent. msg_chained H (snd out)" "role ?s' = Leader \<longrightarrow> last_log_index ?s \<le> last_log_index ?s'"
    | (own) p e where "node_log (insert (p, e) H) n'" "\<forall>out \<in> set sent. msg_chained (insert (p, e) H) (snd out)" "role ?s' = Leader"
        "e_term e = current_term ?s'" "e_index e = last_log_index ?s + 1" "last_log_index ?s' = e_index e"
    unfolding log_move_def Let_def fst_conv snd_conv by blast
  then show ?thesis
  proof cases
    case keep
    have "led ?cl e" if "(p, e) \<in> H" for p e using led_update [OF h(3) [OF that] h(1) r] keep(3) by blast
    then show ?thesis using history_update [OF assms(1) order_refl keep(1,2) h(2) _ r] by blast
  next
    case own
    let ?H = "insert (p, e) H"
    have e: "(e_term e, i) \<in> elected ?cl" using own(3,4) by simp
    have new: "led ?cl e" using e own(6) unfolding led_def by (intro exI [of _ i]) simp
    have le: "last_log_index ?s \<le> last_log_index ?s'" using own(5,6) by simp
    have l: "led ?cl x" if "(q, x) \<in> ?H" for q x using that h(3) new led_update [OF _ h(1) r le] by auto
    have fresh: "e_index x < e_index e" if x: "(q, x) \<in> H" "e_term x = e_term e" for q x
    proof -
      obtain j where j: "(e_term e, j) \<in> elected cl"
          "role (core_of cl j) = Leader \<Longrightarrow> current_term (core_of cl j) = e_term e \<Longrightarrow> e_index x \<le> last_log_index (core_of cl j)"
        using h(3) [OF x(1)] x(2) unfolding led_def by auto
      then have "(e_term e, j) \<in> elected ?cl" by simp
      then have i: "j = i" by (rule assms(3) [OF e])
      have "e_index x \<le> last_log_index ?s"
        using led_before [OF h(1) _ r own(3)] j own(4) unfolding i by simp
      then show ?thesis using own(5) by simp
    qed
    have "unique ?H" using h(2) fresh unfolding unique_def by (auto; metis less_irrefl)
    then have "history_ok N ?H ?cl" by (intro history_update [OF assms(1) _ own(1,2) _ _ r]) (use l in blast)+
    then show ?thesis by blast
  qed
qed

lemma history_step_crash:
  assumes "history_ok N H cl" and "cluster_inv N cl" and "2 \<le> card N" and "i \<in> N" and "wal_survives (nodes cl i) rs"
    and "node_boot sm i ids rs now entropy = (outs, n')"
  shows "history_ok N H (cluster_update i (outs, n') cl)"
proof -
  let ?n = "nodes cl i" and ?cl = "cluster_update i (outs, n') cl"
  have nl: "node_log H ?n" using history_node [OF assms(1,4)] .
  note b = boot_log [OF survives_good [OF nl assms(5)] assms(6)]
  have "disk_ok ?n" using assms(2,4) nl by (auto simp: cluster_inv_def nodes_ok_def node_inv_def live_ok_def node_log_def)
  then have le: "fst (wal_hard (n_wal ?n)) \<le> current_term (n_core n')"
    using disk_ok_survives [OF _ assms(5)] hard_le_term b(3) by metis
  have t: "t \<le> current_term (n_core n')" if "(t, i) \<in> elected cl" for t
    using elected_durable [OF assms(2,3) that] le by simp
  have "reigned ?cl" using assms(1) t b(2) by (auto simp: history_ok_def reigned_def)
  moreover have "led ?cl e" if "(p, e) \<in> H" for p e
  proof -
    have "led cl e" using assms(1) that unfolding history_ok_def by blast
    then show ?thesis using b(2) by (auto simp: led_def)
  qed
  moreover have "node_log H (nodes ?cl j)" if "j \<in> N" for j using history_node [OF assms(1) that] b(1) by simp
  moreover have "msg_chained H m" if "(k, to, m) \<in> net ?cl" for k to m
  proof -
    have "(k, to, m) \<in> net cl \<or> (to, m) \<in> set outs" using that by auto
    then show ?thesis using assms(1) b(4) unfolding history_ok_def by fastforce
  qed
  ultimately show ?thesis using assms(1) unfolding history_ok_def by blast
qed

section \<open>Every reachable cluster has a history\<close>

lemma history_init: "history_ok N {} (cluster_init sm ids seed)"
proof -
  have "node_log {} (snd (node_boot sm i ids [] now entropy))" for i now entropy
    using boot_log(1) [OF wal_good_Nil, of sm i ids now entropy] by (metis prod.collapse)
  then show ?thesis by (simp add: history_ok_def cluster_init_def unique_def reigned_def)
qed

lemma history_reachable:
  assumes "reachable sm ids cl" and "distinct ids" and "2 \<le> length ids"
  shows "\<exists>H. history_ok (set ids) H cl"
  using assms(1)
proof (induction rule: reachable.induct)
  case (init seed)
  then show ?case using history_init by blast
next
  case (step cl cl')
  obtain H where H: "history_ok (set ids) H cl" using step(3) by blast
  have inv: "cluster_inv (set ids) cl" using cluster_inv_reachable [OF step(1) assms(2)] .
  have r': "reachable sm ids cl'" using reachable.step [OF step(1,2)] .
  have win: "a = b" if "(t, a) \<in> elected cl'" "(t, b) \<in> elected cl'" for t a b
  proof -
    have "won_term sm ids cl' t a" "won_term sm ids cl' t b" using r' assms(2) that by (simp_all add: won_term_def)
    then show ?thesis by (rule elections.one_winner)
  qed
  from step(2) show ?case
  proof cases
    case (event i ev)
    obtain sent n' where n': "node_event sm ev (nodes cl i) = (sent, n')" by fastforce
    have nl: "node_log H (nodes cl i)" using history_node [OF H event(2)] .
    have d: "disk_ok (nodes cl i)"
      using inv event(2,3) by (auto simp: cluster_inv_def nodes_ok_def node_inv_def live_ok_def)
    have "msg_chained H msg" if "ev = Recv from msg now entropy" for "from" msg now entropy
      using event(4) [OF that] H unfolding history_ok_def by blast
    then have "log_move H (nodes cl i) (sent, n')" using log_move_event [OF nl d, of ev sm] n' by simp
    then show ?thesis using history_step_event [OF H] win unfolding event(1) n' by blast
  next
    case (crash i rs now entropy)
    obtain outs n' where n': "node_boot sm i ids rs now entropy = (outs, n')" by fastforce
    have "2 \<le> card (set ids)" using assms(2,3) distinct_card by fastforce
    then show ?thesis using history_step_crash [OF H inv _ crash(2,3) n'] unfolding crash(1) n' by blast
  qed
qed

section \<open>Log matching\<close>

text \<open>The entry a chained log holds at an index, and its predecessor.\<close>

lemma chained_mem_nth:
  assumes "chained H b es" and "x \<in> set es"
  shows "fst b < e_index x" "e_index x \<le> fst b + length es" "es ! (e_index x - fst b - 1) = x"
proof -
  obtain k where k: "k < length es" "es ! k = x" using assms(2) by (auto simp: in_set_conv_nth)
  then have "e_index x = fst b + 1 + k" using chained_nth_index [OF assms(1)] by auto
  then show "fst b < e_index x" "e_index x \<le> fst b + length es" "es ! (e_index x - fst b - 1) = x" using k by simp_all
qed

lemma chained_pair:
  assumes "chained H b es" and "k < length es"
  shows "((if k = 0 then snd b else e_term (es ! (k - 1))), es ! k) \<in> H"
  using assms
proof (induction es arbitrary: b k)
  case (Cons e es)
  then show ?case using Cons(1) [of "(e_index e, e_term e)" "k - 1"] by (cases k; cases "k - 1") auto
qed simp

lemma chains_match:
  assumes "chained H b es" and "chained H c fs" and "unique H"
    and "x \<in> set es" and "y \<in> set fs" and "e_index x = e_index y" and "e_term x = e_term y"
    and "z \<in> set es" and "w \<in> set fs" and "e_index z = e_index w" and "e_index z \<le> e_index x"
  shows "z = w"
proof -
  define at where "at i = es ! (i - fst b - 1)" for i
  define at' where "at' i = fs ! (i - fst c - 1)" for i
  have same: "at (e_index x - d) = at' (e_index x - d)" if "fst b < e_index x - d" "fst c < e_index x - d" for d
    using that
  proof (induction d)
    case 0
    have "at (e_index x) = x" "at' (e_index x) = y"
      using chained_mem_nth(3) [OF assms(1,4)] chained_mem_nth(3) [OF assms(2,5)] assms(6) by (simp_all add: at_def at'_def)
    moreover obtain p q where "(p, x) \<in> H" "(q, y) \<in> H"
      using chained_pair [OF assms(1)] chained_pair [OF assms(2)] assms(4,5) by (metis in_set_conv_nth)
    ultimately show ?case using assms(3,6,7) by (auto simp: unique_def)
  next
    case (Suc d)
    let ?i = "e_index x - d"
    have i: "fst b < ?i" "fst c < ?i" "e_index x - Suc d = ?i - 1" "fst b < ?i - 1" "fst c < ?i - 1" using Suc(2,3) by simp_all
    have e: "at ?i = at' ?i" using Suc(1) i(1,2) by simp
    let ?k = "?i - fst b - 1" and ?l = "?i - fst c - 1"
    have k: "?k < length es" "?k \<noteq> 0" "?l < length fs" "?l \<noteq> 0"
      using i chained_mem_nth(2) [OF assms(1,4)] chained_mem_nth(2) [OF assms(2,5)] assms(6) by linarith+
    have "(e_term (es ! (?k - 1)), at ?i) \<in> H" "(e_term (fs ! (?l - 1)), at ?i) \<in> H"
      using chained_pair [OF assms(1) k(1)] chained_pair [OF assms(2) k(3)] k(2,4) e by (simp_all add: at_def at'_def)
    then have t: "e_term (es ! (?k - 1)) = e_term (fs ! (?l - 1))" using assms(3) unfolding unique_def by blast
    have l: "?k - 1 < length es" "?l - 1 < length fs" using k(1,3) by simp_all
    have "fst b + 1 + (?k - 1) = ?i - 1" "fst c + 1 + (?l - 1) = ?i - 1" using i(4,5) by simp_all
    then have n: "e_index (es ! (?k - 1)) = e_index (fs ! (?l - 1))"
      using chained_nth_index [OF assms(1) l(1)] chained_nth_index [OF assms(2) l(2)] by (simp only:)
    have "es ! (?k - 1) = fs ! (?l - 1)"
      using chained_pair [OF assms(1) l(1)] chained_pair [OF assms(2) l(2)] n t assms(3) unfolding unique_def by blast
    then show ?case using i by (simp add: at_def at'_def)
  qed
  have zw: "at (e_index z) = z" "at' (e_index z) = w"
    using chained_mem_nth(3) [OF assms(1,8)] chained_mem_nth(3) [OF assms(2,9)] assms(10) by (simp_all add: at_def at'_def)
  have d: "e_index x - (e_index x - e_index z) = e_index z" using assms(11) by simp
  have "fst b < e_index z" "fst c < e_index z"
    using chained_mem_nth(1) [OF assms(1,8)] chained_mem_nth(1) [OF assms(2,9)] assms(10) by simp_all
  then have "at (e_index z) = at' (e_index z)" using same [of "e_index x - e_index z"] unfolding d by blast
  then show ?thesis unfolding zw .
qed

text \<open>C2: In every reachable cluster with at least two voters, whatever crashes, losses and reorderings came
  before, when the logs of two nodes hold entries of the same index and term, the logs agree: at every
  index up to that one where both still hold an entry, it is the same entry.\<close>
theorem log_matching:
  assumes "reachable sm ids cl" and "distinct ids" and "2 \<le> length ids" and "i \<in> set ids" and "j \<in> set ids"
    and "x \<in> set (rlog (n_core (nodes cl i)))" and "y \<in> set (rlog (n_core (nodes cl j)))"
    and "e_index x = e_index y" and "e_term x = e_term y"
    and "z \<in> set (rlog (n_core (nodes cl i)))" and "w \<in> set (rlog (n_core (nodes cl j)))"
    and "e_index z = e_index w" and "e_index z \<le> e_index x"
  shows "z = w"
proof -
  obtain H where H: "history_ok (set ids) H cl" using history_reachable [OF assms(1-3)] by blast
  have "chained_core H (core_of cl i)" "chained_core H (core_of cl j)" "unique H"
    using H assms(4,5) by (auto simp: history_ok_def node_log_def)
  then show ?thesis unfolding chained_core_def using assms(6-) by (rule chains_match)
qed

text \<open>C3: A restart brings back what was flushed. In every reachable cluster with at least two voters, a node
  that has written everything it owes and restarts from its log file accepts the file and has the log,
  the snapshot base, the term and the vote it had before.\<close>
theorem restart_recovers:
  assumes "reachable sm ids cl" and "distinct ids" and "2 \<le> length ids" and "i \<in> set ids"
    and "n_io (nodes cl i) = None" and "\<not> suspect (n_progress (nodes cl i))"
    and "\<not> has_unflushed_wal (n_core (nodes cl i))" and "\<not> install_rewrite_owed (n_core (nodes cl i))"
  shows "let s = n_core (nodes cl i); n = snd (node_boot sm i ids (n_wal (nodes cl i)) now entropy); s' = n_core n
         in \<not> n_halted n \<and> rlog s' = rlog s \<and> snapshot_index s' = snapshot_index s \<and>
            (snapshot_index s \<noteq> 0 \<longrightarrow> snapshot_term s' = snapshot_term s) \<and>
            current_term s' = current_term s \<and> voted_for s' = voted_for s"
proof -
  let ?n = "nodes cl i"
  obtain H where H: "history_ok (set ids) H cl" using history_reachable [OF assms(1-3)] by blast
  have nl: "node_log H ?n" using history_node [OF H assms(4)] .
  have "cluster_inv (set ids) cl" using cluster_inv_reachable [OF assms(1,2)] .
  then have d: "disk_ok ?n" using assms(4) nl by (auto simp: cluster_inv_def nodes_ok_def node_inv_def live_ok_def node_log_def)
  have p: "pending (n_core ?n) = []" "persisted_hard (n_core ?n) = (current_term (n_core ?n), voted_for (n_core ?n))"
    using assms(7) by (simp_all add: has_unflushed_wal_def)
  have h: "wal_hard (n_wal ?n) = (current_term (n_core ?n), voted_for (n_core ?n))"
    using disk_okD(5) [OF d] d assms(5,6) p(2) by (simp add: disk_ok_def Let_def)
  have m: "wal_good H (n_wal ?n)" "log_match (n_core ?n) (replay (n_wal ?n))"
    using nl assms(5,6,8) p(1) by (simp_all add: node_log_def target_def synced_def)
  obtain outs n where b: "node_boot sm i ids (n_wal ?n) now entropy = (outs, n)" by fastforce
  note B = boot_log [OF m(1) b]
  have "rlog (n_core n) = rlog (n_core ?n)" "log_base (n_core n) = log_base (n_core ?n)"
    using m(2) B(5) by (simp_all add: log_match_def)
  moreover have "\<not> n_halted n" using B(1) by (simp add: node_log_def)
  ultimately show ?thesis using B(3,6) h unfolding b by (auto simp: Let_def log_base_def nbase_def)
qed

end
