(* ===== verification/Raft_Runs.thy ===== *)
theory Raft_Runs
  imports Raft_Matching "HOL-Library.Code_Target_Nat"
begin

text \<open>
  Runs of the cluster as lists of actions. A run is checked as it is executed: a node acts only while it
  has not halted, receives only what was sent, and restarts only from what its disk kept. A run that
  succeeds ends in a reachable cluster, so a run that is evaluated is a proof that its end is reachable.
\<close>

section \<open>Executing a run\<close>

datatype 'c Action =
    At NodeId "'c Event"
  | Restart NodeId nat nat nat

text \<open>\<open>Restart i k now entropy\<close>: node \<open>i\<close> crashes, and \<open>k\<close> records of the append in flight are on disk.\<close>

fun enabled :: "NodeId list \<Rightarrow> 'c Action \<Rightarrow> ('c, 's) Cluster \<Rightarrow> bool" where
  "enabled ids (At i ev) cl \<longleftrightarrow>
     i \<in> set ids \<and> \<not> n_halted (nodes cl i) \<and>
     (case ev of Recv from msg _ _ \<Rightarrow> (from, i, msg) \<in> net cl | _ \<Rightarrow> True)"
| "enabled ids (Restart i k now entropy) cl \<longleftrightarrow> i \<in> set ids \<and> k \<le> length (n_tail (nodes cl i))"

fun act :: "('c, 's) StateMachine \<Rightarrow> NodeId list \<Rightarrow> 'c Action \<Rightarrow> ('c, 's) Cluster \<Rightarrow> ('c, 's) Cluster" where
  "act sm ids (At i ev) cl = cluster_update i (node_event sm ev (nodes cl i)) cl"
| "act sm ids (Restart i k now entropy) cl =
     cluster_update i (node_boot sm i ids (n_wal (nodes cl i) @ take k (n_tail (nodes cl i))) now entropy) cl"

fun run :: "('c, 's) StateMachine \<Rightarrow> NodeId list \<Rightarrow> 'c Action list \<Rightarrow> ('c, 's) Cluster \<Rightarrow> ('c, 's) Cluster option" where
  "run sm ids [] cl = Some cl"
| "run sm ids (a # as) cl = (if enabled ids a cl then run sm ids as (act sm ids a cl) else None)"

lemma enabled_step: "enabled ids a cl \<Longrightarrow> cluster_step sm ids cl (act sm ids a cl)"
proof (cases a)
  case (At i ev)
  assume "enabled ids a cl"
  then show ?thesis unfolding At act.simps by (intro cluster_step.event) auto
next
  case (Restart i k now entropy)
  assume e: "enabled ids a cl"
  then have "k \<in> set [0..<Suc (length (n_tail (nodes cl i)))]" by (simp add: Restart less_Suc_eq_le del: upt_Suc)
  then have "wal_survives (nodes cl i) (n_wal (nodes cl i) @ take k (n_tail (nodes cl i)))"
    unfolding wal_survives_def by (intro disjI1) (simp del: upt_Suc)
  then show ?thesis using e unfolding Restart act.simps by (intro cluster_step.crash) simp_all
qed

lemma run_reachable:
  assumes "run sm ids as cl = Some cl'" and "reachable sm ids cl"
  shows "reachable sm ids cl'"
  using assms
proof (induction as arbitrary: cl)
  case Nil
  then show ?case by simp
next
  case (Cons a as)
  then have "enabled ids a cl" "run sm ids as (act sm ids a cl) = Some cl'" by (simp_all split: if_splits)
  then show ?case using Cons reachable.step enabled_step by blast
qed

section \<open>A commit that rests on the leader's unsynced copy\<close>

definition trio :: "NodeId list" where "trio = [''a'', ''b'', ''c'']"

definition trio_start :: "(nat, nat) Cluster" where
  "trio_start = cluster_init counter_sm trio (\<lambda>_. (0, 0))"

definition cmd_entry :: "nat \<Rightarrow> nat \<Rightarrow> nat \<Rightarrow> nat LogEntry" where
  "cmd_entry t i c = \<lparr>e_term = t, e_index = i, e_command = c, e_config = None, e_learners = None\<rparr>"

text \<open>One whole write of the log.\<close>

definition flush :: "NodeId \<Rightarrow> nat Action list" where
  "flush i = [At i Spawn, At i PersistBegin, At i IoDone, At i Wake]"

definition recv :: "nat \<Rightarrow> NodeId \<Rightarrow> NodeId \<Rightarrow> nat RaftMsg \<Rightarrow> nat Action" where
  "recv now i from msg = At i (Recv from msg now 0)"

text \<open>The three nodes boot, \<open>a\<close> is elected by \<open>b\<close> in term 1, replicates the command 5 to \<open>b\<close> and commits
  it, without having written its own log since the election.\<close>

definition first_reign :: "nat Action list" where
  "first_reign =
     [Restart ''a'' 0 0 0, Restart ''b'' 0 0 0, Restart ''c'' 0 0 0,
      recv 1 ''b'' ''a'' ClusterProbe, recv 1 ''a'' ''b'' ClusterProbe, recv 1 ''a'' ''c'' ClusterProbe,
      recv 2 ''a'' ''b'' (ClusterProbeResp 0 0 (set trio) False),
      recv 2 ''b'' ''a'' (ClusterProbeResp 0 0 (set trio) False),
      recv 2 ''c'' ''a'' (ClusterProbeResp 0 0 (set trio) False),
      At ''a'' (Tick 1000000000 0),
      recv 1000000001 ''b'' ''a'' (PreVote 1 ''a'' 0 0), recv 1000000002 ''a'' ''b'' (PreVoteResp 1 True)] @
     flush ''a'' @ [recv 1000000003 ''b'' ''a'' (RequestVote 1 ''a'' 0 0)] @
     flush ''b'' @ [recv 1000000004 ''a'' ''b'' (RequestVoteResp 1 True),
      At ''a'' (Call (Propose 5)), At ''a'' (Tick 2000000000 0),
      recv 2000000001 ''b'' ''a'' (AppendEntries 1 ''a'' 0 0 [cmd_entry 1 1 0, cmd_entry 1 2 5] 0)] @
     flush ''b'' @ [recv 2000000002 ''a'' ''b'' (AppendEntriesResp 1 True 2 False False 0), At ''a'' (Tick 3000000000 0),
      recv 3000000001 ''b'' ''a'' (AppendEntries 1 ''a'' 2 1 [] 2)]"

text \<open>Then \<open>a\<close> crashes and, with an empty log again, elects \<open>c\<close> in term 2, which commits the command 7.\<close>

definition second_reign :: "nat Action list" where
  "second_reign =
     [Restart ''a'' 0 4000000000 0, recv 4000000001 ''c'' ''a'' (RequestVote 1 ''a'' 0 0)] @
     flush ''c'' @ [At ''c'' (Tick 9000000000 0),
      recv 9000000001 ''a'' ''c'' (PreVote 2 ''c'' 0 0), recv 9000000002 ''c'' ''a'' (PreVoteResp 2 True)] @
     flush ''c'' @ [recv 9000000003 ''a'' ''c'' (RequestVote 2 ''c'' 0 0)] @
     flush ''a'' @ [recv 9000000004 ''c'' ''a'' (RequestVoteResp 2 True),
      At ''c'' (Call (Propose 7)), At ''c'' (Tick 10000000000 0)] @
     flush ''c'' @ [recv 10000000001 ''a'' ''c'' (AppendEntries 2 ''c'' 0 0 [cmd_entry 2 1 0, cmd_entry 2 2 7] 0)] @
     flush ''a'' @ [recv 10000000002 ''c'' ''a'' (AppendEntriesResp 2 True 2 False False 0)]"

definition two_reigns :: "(nat, nat) Cluster option" where
  "two_reigns = run counter_sm trio (first_reign @ second_reign) trio_start"

definition settled :: "('c, 's) Node \<Rightarrow> bool" where
  "settled n \<longleftrightarrow> Option.is_none (n_io n) \<and> \<not> suspect (n_progress n) \<and> \<not> has_unflushed_wal (n_core n) \<and> \<not> install_rewrite_owed (n_core n)"

lemma two_reigns_end:
  "map_option (\<lambda>cl. (pending_apply (n_core (nodes cl ''b'')), pending_apply (n_core (nodes cl ''c'')),
                     rlog (n_core (nodes cl ''a'')), rlog (n_core (nodes cl ''c'')), settled (nodes cl ''a''))) two_reigns =
   Some ([(1, 1, 0), (2, 1, 5)], [(1, 2, 0), (2, 2, 7)],
         [cmd_entry 2 1 0, cmd_entry 2 2 7], [cmd_entry 2 1 0, cmd_entry 2 2 7], True)"
  by code_simp

lemma two_reigns_reachable:
  obtains cl where "reachable counter_sm trio cl" and "two_reigns = Some cl"
    and "pending_apply (n_core (nodes cl ''b'')) = [(1, 1, 0), (2, 1, 5)]"
    and "pending_apply (n_core (nodes cl ''c'')) = [(1, 2, 0), (2, 2, 7)]"
    and "rlog (n_core (nodes cl ''a'')) = [cmd_entry 2 1 0, cmd_entry 2 2 7]"
    and "rlog (n_core (nodes cl ''c'')) = [cmd_entry 2 1 0, cmd_entry 2 2 7]"
    and "settled (nodes cl ''a'')"
proof -
  obtain cl where cl: "two_reigns = Some cl" using two_reigns_end by (cases two_reigns) simp_all
  have "reachable counter_sm trio trio_start" unfolding trio_start_def by (rule reachable.init)
  then have "reachable counter_sm trio cl" using cl run_reachable unfolding two_reigns_def by blast
  then show thesis using two_reigns_end [unfolded cl] by (intro that [OF _ cl]) simp_all
qed

lemma trio_ids: "distinct trio" "2 \<le> length trio" "''a'' \<in> set trio" "''c'' \<in> set trio"
  by (simp_all add: trio_def)

theorem log_matching_witness:
  "\<exists>cl. reachable counter_sm trio cl \<and> cmd_entry 2 2 7 \<in> set (rlog (n_core (nodes cl ''a''))) \<inter> set (rlog (n_core (nodes cl ''c''))) \<and>
        hd (rlog (n_core (nodes cl ''a''))) = hd (rlog (n_core (nodes cl ''c'')))"
proof -
  obtain cl where r: "reachable counter_sm trio cl" "rlog (n_core (nodes cl ''a'')) = [cmd_entry 2 1 0, cmd_entry 2 2 7]"
      "rlog (n_core (nodes cl ''c'')) = [cmd_entry 2 1 0, cmd_entry 2 2 7]"
    by (rule two_reigns_reachable)
  have "hd (rlog (n_core (nodes cl ''a''))) = hd (rlog (n_core (nodes cl ''c'')))"
    by (rule log_matching [OF r(1) trio_ids, of "cmd_entry 2 2 7" "cmd_entry 2 2 7"]) (simp_all add: r(2,3) cmd_entry_def)
  then show ?thesis using r by (intro exI [of _ cl]) simp
qed

theorem restart_recovers_witness:
  "\<exists>cl. reachable counter_sm trio cl \<and> settled (nodes cl ''a'') \<and>
        rlog (n_core (snd (node_boot counter_sm ''a'' trio (n_wal (nodes cl ''a'')) 0 0))) = [cmd_entry 2 1 0, cmd_entry 2 2 7]"
proof -
  obtain cl where r: "reachable counter_sm trio cl" "rlog (n_core (nodes cl ''a'')) = [cmd_entry 2 1 0, cmd_entry 2 2 7]"
      "settled (nodes cl ''a'')"
    by (rule two_reigns_reachable)
  have s: "n_io (nodes cl ''a'') = None" "\<not> suspect (n_progress (nodes cl ''a''))" "\<not> has_unflushed_wal (n_core (nodes cl ''a''))"
      "\<not> install_rewrite_owed (n_core (nodes cl ''a''))"
    using r(3) by (simp_all add: settled_def Option.is_none_def)
  have "rlog (n_core (snd (node_boot counter_sm ''a'' trio (n_wal (nodes cl ''a'')) 0 0))) = rlog (n_core (nodes cl ''a''))"
    using restart_recovers [OF r(1) trio_ids(1-3) s, of 0 0] by (simp add: Let_def)
  then show ?thesis using r by (intro exI [of _ cl]) simp
qed

text \<open>C36: The leader counts its own copy of an entry towards the majority that commits it whether or not
  that copy is on disk, and a follower hands a committed entry to its state machine at once. In a cluster
  of three voters a leader that crashes can therefore take a committed entry with it, and two nodes hand
  different commands of the same index to their state machines.\<close>
theorem committed_entry_lost:
  "\<exists>cl. reachable counter_sm trio cl \<and>
        (2, 1, 5) \<in> set (pending_apply (n_core (nodes cl ''b''))) \<and>
        (2, 2, 7) \<in> set (pending_apply (n_core (nodes cl ''c'')))"
proof -
  obtain cl where "reachable counter_sm trio cl"
    "pending_apply (n_core (nodes cl ''b'')) = [(1, 1, 0), (2, 1, 5)]"
    "pending_apply (n_core (nodes cl ''c'')) = [(1, 2, 0), (2, 2, 7)]"
    by (rule two_reigns_reachable)
  then show ?thesis by (intro exI [of _ cl]) simp
qed

section \<open>A single voter with a learner\<close>

text \<open>A lone voter becomes leader without waiting for its term to be on disk. Here it is elected in term
  1, takes a learner and writes its log; then, twice, it restarts from that log, is elected in term 2,
  proposes and replicates before it writes.\<close>

definition reign_with :: "nat \<Rightarrow> nat Action list" where
  "reign_with c = [Restart ''a'' 0 0 0, At ''a'' (Tick 9000000000 0), At ''a'' (Call (Propose c)), At ''a'' (Tick 10000000000 0)]"

definition forked :: "(nat, nat) Cluster option" where
  "forked = run counter_sm [''a'']
     ([Restart ''a'' 0 0 0, At ''a'' (Tick 1000000000 0)] @ flush ''a'' @
      [At ''a'' (Call (AddLearner ''l''))] @ flush ''a'' @ reign_with 5 @ reign_with 7)
     (cluster_init counter_sm [''a''] (\<lambda>_. (0, 0)))"

definition fork_msg :: "nat \<Rightarrow> NodeId \<times> nat Out" where
  "fork_msg c = (''a'', ''l'', AppendEntries 2 ''a'' 2 1 [cmd_entry 2 3 0, cmd_entry 2 4 c] 4)"

lemma forked_end: "map_option (\<lambda>cl. fork_msg 5 \<in> net cl \<and> fork_msg 7 \<in> net cl) forked = Some True"
  by code_simp

text \<open>C37: A cluster of one voter and a learner can send the learner two different committed entries of
  the same index and term: the voter's term reaches the disk after the entries reach the learner, so a
  crash in between makes it win the same term again with another entry.\<close>
theorem lone_voter_forks:
  "\<exists>cl. reachable counter_sm [''a''] cl \<and>
        (''a'', ''l'', AppendEntries 2 ''a'' 2 1 [cmd_entry 2 3 0, cmd_entry 2 4 5] 4) \<in> net cl \<and>
        (''a'', ''l'', AppendEntries 2 ''a'' 2 1 [cmd_entry 2 3 0, cmd_entry 2 4 7] 4) \<in> net cl"
proof -
  obtain cl where cl: "forked = Some cl" "fork_msg 5 \<in> net cl" "fork_msg 7 \<in> net cl"
    using forked_end by auto
  then have "reachable counter_sm [''a''] cl" using run_reachable reachable.init unfolding forked_def by blast
  then show ?thesis using cl(2,3) by (intro exI [of _ cl]) (simp add: fork_msg_def)
qed

end
