(* ===== verification/Spec2Isabelle.thy ===== *)
theory Spec2Isabelle
  imports Kind_Eval Ts_Cache Memory_Engine Raft_Progress Raft_Runs
begin

text \<open>
  AnimusDB is a distributed database with the interface of DynamoDB. A table is cut into tablets, ranges
  of a hashed key space; each tablet is a Raft group with its own log and a versioned storage engine; a
  control plane, itself a Raft group, holds the catalogue. This library models the part of the program
  that decides: what bytes a key becomes, what an expression does to an item, which version wins, what a
  node writes to its log, whom it votes for, and when it may say so. Everything the program calls but
  does not contain (\<^verbatim>\<open>serde_json\<close>, \<^verbatim>\<open>crc32fast\<close>, the network, the disk, the clock, the random source)
  is an argument of the definitions.

  \<^bold>\<open>Items\<close> (\<^verbatim>\<open>crates/animus-item\<close>, \<^verbatim>\<open>crates/animus-tablet\<close>).
  \<open>Text\<close> is Rust's string functions, \<open>Numkey\<close> is \<^verbatim>\<open>numkey.rs\<close>, \<open>Decimal\<close> and \<open>Condition\<close> are
  \<^verbatim>\<open>condition.rs\<close>, \<open>Item_Model\<close> is \<^verbatim>\<open>lib.rs\<close> and \<^verbatim>\<open>size.rs\<close>, \<open>Update\<close> is \<^verbatim>\<open>update.rs\<close>, \<open>Index_Keys\<close>
  is \<^verbatim>\<open>index.rs\<close>, \<open>Kind_Eval\<close> is \<^verbatim>\<open>stored.rs\<close>, \<^verbatim>\<open>write_schema.rs\<close> and the evaluated writes of
  \<^verbatim>\<open>crates/animus-cp-data/src/lib.rs\<close>; \<open>Keyspace\<close> is \<^verbatim>\<open>animus-tablet/src/lib.rs\<close>. The lemmas give the
  order and the round trip of the key encodings, exact decimal arithmetic, the algebra of document
  paths, the preservation of well-formed items, the exact rows of an index, and the convergence of
  replicated images.

  \<^bold>\<open>Time and storage\<close> (\<^verbatim>\<open>crates/animus-cp-data\<close>, \<^verbatim>\<open>crates/animus-storage\<close>).
  \<open>Hlc_Clock\<close> is \<^verbatim>\<open>hlc.rs\<close>, \<open>Ts_Cache\<close> is \<^verbatim>\<open>ts_cache.rs\<close>; \<open>Storage\<close> is the engine's interface with the
  contract \<open>mvcc\<close>, and \<open>Memory_Engine\<close> is \<^verbatim>\<open>memory.rs\<close>, an interpretation of it. The lemmas show that
  timestamps only grow, that a write lands above the reads it could contradict, that merges commute, that
  the engine's calls refine a map and that snapshots stay.

  \<^bold>\<open>The control plane\<close> (\<^verbatim>\<open>crates/animus-control\<close>).
  \<open>Wal_Format\<close> is \<^verbatim>\<open>format.rs\<close>, \<open>Raft_Wal\<close> is \<^verbatim>\<open>persist.rs\<close>. \<open>Raft_State\<close>, \<open>Raft_Ops\<close>, \<open>Raft_Send\<close> and
  \<open>Raft_Core\<close> are \<^verbatim>\<open>raft.rs\<close> in its order: the state of \<^verbatim>\<open>RaftCore\<close>, the operations below the handlers,
  the sending side, the handlers with the tick and the calls. \<open>Raft_Driver\<close> is \<^verbatim>\<open>persist_round.rs\<close> and the
  loop of \<^verbatim>\<open>node.rs\<close>: a write to the log file takes two steps, and everything else may happen between
  them. \<open>Raft_Frames\<close>, \<open>Raft_Votes\<close>, \<open>Raft_Handlers\<close> and \<open>Raft_Durability\<close> prove the contract of a step of
  the core (its votes, and its records), \<open>Raft_Node\<close> that of a node with its disk, and \<open>Raft_Cluster\<close>
  that of a cluster of nodes: at most one leader per term. \<open>Raft_Log\<close> is the contract of a step on the
  log.

  \<^bold>\<open>Representation.\<close> Bytes and the integers whose width matters are words, and their arithmetic wraps or
  saturates as the source writes it. Terms, indices and instants of the consensus core are natural
  numbers; the source's saturating additions cap at \<open>u64_max\<close>. A \<^verbatim>\<open>BTreeMap\<close> is the ordered association
  list of \<open>Ordered_Map\<close>, whose contract is the locale \<open>btree\<close>. A fallible function returns an option or a
  sum with the error on the left. Every loop is a structural recursion, a fold, or a \<open>function\<close> with its
  termination proof; there is no fuel.

  \<^bold>\<open>Not modelled.\<close> The asynchronous engines and servers (the LSM engine's files, the data-plane group
  hosts, the request servers, the daemon) are task scheduling over I/O; the JSON wire adapter, the
  signatures and the S3 client rest on external parsers and cryptography; the simulator, the tools and
  the Kubernetes operator drive the program from outside. The metadata state machine and the
  transaction coordinator are state machines whose commands carry most of the catalogue; the consensus
  core is verified for any state machine instead.
\<close>

end
